(* ===== verification/Chain_Prelude.thy ===== *)
theory Chain_Prelude
  imports Main "HOL-Library.Word"
begin

unbundle bit_operations_syntax

text \<open>
  What the components of the development share: the machine integer types of the C++ source,
  the exceptions the source throws as values of one datatype, the result type of a fallible
  operation with its sequencing combinator, loops that may throw, and the contract of a
  component whose operations keep an invariant.
\<close>

section \<open>Machine integers and opaque data\<close>

type_synonym u8 = "8 word"
type_synonym u16 = "16 word"
type_synonym u32 = "32 word"
type_synonym u64 = "64 word"
type_synonym u128 = "128 word"

text \<open>An \<^verbatim>\<open>int64_t\<close> is a 64-bit word read through \<^const>\<open>sint\<close>.\<close>

type_synonym i64 = "64 word"

text \<open>C++ division of signed integers rounds toward zero.\<close>

definition c_div :: "int \<Rightarrow> int \<Rightarrow> int" where
  "c_div a b = sgn a * sgn b * (\<bar>a\<bar> div \<bar>b\<bar>)"

lemma c_div_nonneg: "0 \<le> a \<Longrightarrow> 0 < b \<Longrightarrow> c_div a b = a div b"
  by (cases "a = 0") (simp_all add: c_div_def)

lemma unat_of_nat_small: "n < 2 ^ LENGTH('a) \<Longrightarrow> unat (of_nat n :: 'a::len word) = n"
  by (simp add: unat_of_nat)

lemma uint_of_int_small: "0 \<le> i \<Longrightarrow> i < 2 ^ LENGTH('a) \<Longrightarrow> uint (of_int i :: 'a::len word) = i"
  by (simp add: uint_word_of_int)

lemma uint_minus_small:
  fixes a b :: "'a::len word"
  assumes "b \<le> a"
  shows "uint (a - b) = uint a - uint b"
proof -
  have "0 \<le> uint a - uint b" "uint a - uint b < 2 ^ LENGTH('a)"
    using assms uint_bounded [of a] uint_bounded [of b] by (simp_all add: word_le_def)
  then show ?thesis by (simp add: uint_word_ariths)
qed

lemma sint_eq_uint_small:
  fixes w :: "'a::len word"
  assumes "uint w < 2 ^ (LENGTH('a) - 1)"
  shows "sint w = uint w"
proof -
  have "- (2 ^ (LENGTH('a) - 1)) \<le> uint w" by (rule order_trans [of _ 0]) simp_all
  then show ?thesis using assms by (simp add: sint_uint signed_take_bit_int_eq_self)
qed

lemma sint_of_int_small:
  "- (2 ^ (LENGTH('a) - 1)) \<le> i \<Longrightarrow> i < 2 ^ (LENGTH('a) - 1) \<Longrightarrow>
     sint (of_int i :: 'a::len word) = i"
  by (simp add: sint_sbintrunc' signed_take_bit_int_eq_self)

lemma sint_range:
  fixes w :: "'a::len word"
  shows "- (2 ^ (LENGTH('a) - 1)) \<le> sint w" "sint w < 2 ^ (LENGTH('a) - 1)"
  using sint_ge [of w] sint_lt [of w] by simp_all

lemma unat_bound: "unat (w :: 'a::len word) < 2 ^ LENGTH('a)"
  by (rule unsigned_less)

lemma unat_plus_small:
  fixes a b :: "'a::len word"
  shows "unat a + unat b < 2 ^ LENGTH('a) \<Longrightarrow> unat (a + b) = unat a + unat b"
  by (simp add: unat_word_ariths)

lemma unat_minus_small:
  fixes a b :: "'a::len word"
  shows "b \<le> a \<Longrightarrow> unat (a - b) = unat a - unat b"
  by (simp add: unat_sub)

text \<open>
  Keys, signatures and packed payloads are produced and interpreted by the fc library only;
  here they are byte strings.
\<close>

type_synonym bytes = "u8 list"
type_synonym public_key_type = bytes
type_synonym signature_type = bytes

section \<open>Exceptions and results\<close>

text \<open>
  One constructor per exception class of \<^verbatim>\<open>exceptions.hpp\<close> that a modelled operation throws.
  \<open>Undefined_behaviour\<close> is no exception of the source: it marks the inputs on which the C++
  code reads outside a container, dereferences a null pointer or divides by zero. \<open>Does_not_return\<close>
  is the value of a loop that has used up the fuel of its model.
\<close>

datatype chain_exception =
    Undefined_behaviour
  | Does_not_return
  | Name_type_exception
  | Symbol_type_exception
  | Asset_type_exception
  | Overflow_exception
  | Block_validate_exception
  | Unlinkable_block_exception
  | Producer_double_confirm
  | Wrong_producer
  | Producer_schedule_exception
  | Invalid_block_header_extension
  | Ill_formed_protocol_feature_activation
  | Wrong_signing_key
  | Fork_database_exception
  | Fork_db_block_not_found
  | Authorization_exception
  | Permission_query_exception
  | Irrelevant_auth_exception
  | Unlinkable_min_permission_action
  | Unsatisfied_authorization
  | Action_validate_exception
  | Transaction_exception
  | Tx_not_found
  | Tx_irrelevant_sig
  | Rate_limiting_state_inconsistent
  | Resource_limit_exception
  | Tx_cpu_usage_exceeded
  | Tx_net_usage_exceeded
  | Block_resource_exhausted
  | Ram_usage_exceeded
  | Protocol_feature_exception
  | Protocol_feature_validation_exception
  | Protocol_feature_iterator_exception
  | Database_exception
  | Action_type_exception
  | Missing_auth_exception
  | Account_query_exception
  | Account_name_exists_exception
  | Key_blacklist_exception
  | Set_exact_code
  | Invalid_contract_vm_type
  | Invalid_contract_vm_version
  | Fio_invalid_account_or_action
  | Expired_tx_exception
  | Tx_exp_too_far_exception
  | Invalid_ref_block_exception
  | Tx_no_auths
  | Tx_no_action
  | Other_exception string

type_synonym 'a result = "chain_exception + 'a"

named_theorems result_simps \<open>equations that take results apart\<close>

text \<open>\<open>eos_assert b e k\<close> is the \<^verbatim>\<open>EOS_ASSERT\<close> macro: throw \<open>e\<close> unless \<open>b\<close>, else go on with \<open>k\<close>.\<close>

definition eos_assert :: "bool \<Rightarrow> chain_exception \<Rightarrow> 'a result \<Rightarrow> 'a result" where
  "eos_assert b e k = (if b then k else Inl e)"

definition rbind :: "'a result \<Rightarrow> ('a \<Rightarrow> 'b result) \<Rightarrow> 'b result" where
  "rbind r f = (case r of Inl e \<Rightarrow> Inl e | Inr x \<Rightarrow> f x)"

definition returns :: "'a result \<Rightarrow> bool" where
  "returns r \<longleftrightarrow> (\<exists>x. r = Inr x)"

lemma eos_assert_True [simp]: "eos_assert True e k = k"
  by (simp add: eos_assert_def)

lemma eos_assert_False [simp]: "eos_assert False e k = Inl e"
  by (simp add: eos_assert_def)

lemma eos_assert_cong [fundef_cong]:
  "b = b' \<Longrightarrow> e = e' \<Longrightarrow> (b' \<Longrightarrow> k = k') \<Longrightarrow> eos_assert b e k = eos_assert b' e' k'"
  by (simp add: eos_assert_def)

lemma eos_assert_Inr [result_simps]: "eos_assert b e k = Inr x \<longleftrightarrow> b \<and> k = Inr x"
  by (simp add: eos_assert_def)

lemma eos_assert_Inl [result_simps]:
  "eos_assert b e k = Inl e' \<longleftrightarrow> (\<not> b \<and> e = e') \<or> (b \<and> k = Inl e')"
  by (auto simp: eos_assert_def)

lemma rbind_Inl [simp]: "rbind (Inl e) f = Inl e"
  by (simp add: rbind_def)

lemma rbind_Inr [simp]: "rbind (Inr x) f = f x"
  by (simp add: rbind_def)

lemma rbind_cong [fundef_cong]:
  "r = r' \<Longrightarrow> (\<And>x. r' = Inr x \<Longrightarrow> f x = f' x) \<Longrightarrow> rbind r f = rbind r' f'"
  by (cases r') simp_all

lemma rbind_eq_Inr [result_simps]: "rbind r f = Inr y \<longleftrightarrow> (\<exists>x. r = Inr x \<and> f x = Inr y)"
  by (cases r) simp_all

lemma rbind_eq_Inl [result_simps]:
  "rbind r f = Inl e \<longleftrightarrow> r = Inl e \<or> (\<exists>x. r = Inr x \<and> f x = Inl e)"
  by (cases r) simp_all

lemma rbind_eos_assert: "rbind (eos_assert b e k) f = eos_assert b e (rbind k f)"
  by (simp add: eos_assert_def)

lemma rbind_assoc: "rbind (rbind r f) g = rbind r (\<lambda>x. rbind (f x) g)"
  by (cases r) simp_all

lemma returns_Inr [simp]: "returns (Inr x)"
  by (simp add: returns_def)

lemma returns_Inl [simp]: "\<not> returns (Inl e)"
  by (simp add: returns_def)

section \<open>Loops that may throw\<close>

text \<open>A range-based \<^verbatim>\<open>for\<close> loop whose body updates a state and may throw.\<close>

fun rfold :: "('a \<Rightarrow> 's \<Rightarrow> 's result) \<Rightarrow> 'a list \<Rightarrow> 's \<Rightarrow> 's result" where
  "rfold f [] s = Inr s"
| "rfold f (x # xs) s = rbind (f x s) (rfold f xs)"

lemma rfold_invariant:
  assumes "rfold f xs s = Inr s'" and "P s"
    and "\<And>x s s'. x \<in> set xs \<Longrightarrow> P s \<Longrightarrow> f x s = Inr s' \<Longrightarrow> P s'"
  shows "P s'"
  using assms
proof (induction xs arbitrary: s)
  case Nil
  then show ?case by simp
next
  case (Cons x xs)
  then obtain t where t: "f x s = Inr t" "rfold f xs t = Inr s'"
    by (auto simp: result_simps)
  have "P t" using Cons.prems(2,3) t(1) by auto
  with t(2) Cons.prems(3) show ?case by (intro Cons.IH [OF t(2)]) auto
qed

lemma rfold_append: "rfold f (xs @ ys) s = rbind (rfold f xs s) (rfold f ys)"
proof (induction xs arbitrary: s)
  case (Cons x xs)
  then show ?case by (cases "f x s") simp_all
qed simp

text \<open>The same loop with the state that an exception in the middle leaves behind.\<close>

fun rfold_run :: "('a \<Rightarrow> 's \<Rightarrow> 's result) \<Rightarrow> 'a list \<Rightarrow> 's \<Rightarrow> 's \<times> chain_exception option" where
  "rfold_run f [] s = (s, None)"
| "rfold_run f (x # xs) s = (case f x s of Inl e \<Rightarrow> (s, Some e) | Inr s' \<Rightarrow> rfold_run f xs s')"

text \<open>What the caller sees of a call that reports the state it leaves.\<close>

fun outcome :: "'s \<times> chain_exception option \<Rightarrow> 's result" where
  "outcome (s, None) = Inr s"
| "outcome (s, Some e) = Inl e"

lemma outcome_Inr [simp]: "outcome p = Inr s \<longleftrightarrow> p = (s, None)"
  by (cases p rule: outcome.cases) auto

lemma outcome_rfold_run: "outcome (rfold_run f xs s) = rfold f xs s"
  by (induction xs arbitrary: s) (auto split: sum.split)

lemma rfold_run_invariant:
  assumes "rfold_run f xs s = (s', e)" and "P s"
    and "\<And>x s s'. x \<in> set xs \<Longrightarrow> P s \<Longrightarrow> f x s = Inr s' \<Longrightarrow> P s'"
  shows "P s'"
  using assms
proof (induction xs arbitrary: s)
  case (Cons x xs)
  show ?case
  proof (cases "f x s")
    case (Inr t)
    then have "rfold_run f xs t = (s', e)" "P t" using Cons.prems(1,2,3) by auto
    then show ?thesis using Cons.prems(3) by (intro Cons.IH) auto
  qed (use Cons.prems in simp)
qed simp

section \<open>Components whose operations keep an invariant\<close>

text \<open>
  A component is driven by a sequence of calls. A call that throws leaves the state as it was:
  the source checks before it mutates, or the caller's undo session restores the rows.
\<close>

fun run_ops :: "('op \<Rightarrow> 's \<Rightarrow> 's result) \<Rightarrow> 'op list \<Rightarrow> 's \<Rightarrow> 's" where
  "run_ops exec [] s = s"
| "run_ops exec (a # as) s = run_ops exec as (case exec a s of Inl e \<Rightarrow> s | Inr t \<Rightarrow> t)"

locale conditional_machine =
  fixes exec :: "'op \<Rightarrow> 's \<Rightarrow> 's result"
    and ok :: "'op \<Rightarrow> bool"
    and inv :: "'s \<Rightarrow> bool"
  assumes exec_ok_inv: "ok a \<Longrightarrow> inv s \<Longrightarrow> exec a s = Inr t \<Longrightarrow> inv t"
begin

lemma run_ok_inv: "list_all ok as \<Longrightarrow> inv s \<Longrightarrow> inv (run_ops exec as s)"
proof (induction as arbitrary: s)
  case Nil
  then show ?case by simp
next
  case (Cons a as)
  have "inv (case exec a s of Inl e \<Rightarrow> s | Inr t \<Rightarrow> t)"
    using Cons.prems exec_ok_inv [of a s] by (auto split: sum.split)
  then show ?case using Cons by simp
qed

end

text \<open>The machine all of whose operations keep the invariant.\<close>

locale guarded_machine =
  fixes exec :: "'op \<Rightarrow> 's \<Rightarrow> 's result"
    and inv :: "'s \<Rightarrow> bool"
  assumes exec_inv: "inv s \<Longrightarrow> exec a s = Inr t \<Longrightarrow> inv t"

sublocale guarded_machine \<subseteq> cm: conditional_machine exec "\<lambda>_. True" inv
  by unfold_locales (rule exec_inv)

context guarded_machine
begin

lemma run_inv: "inv s \<Longrightarrow> inv (run_ops exec as s)"
  by (rule cm.run_ok_inv) (simp_all add: list_all_iff)

end

text \<open>
  A component refines a specification: every call that the specification allows gives the state that the
  specification gives, and every call that the specification refuses throws the same exception.
\<close>

locale refined_machine =
  fixes cexec :: "'op \<Rightarrow> 'c \<Rightarrow> 'c result"
    and aexec :: "'op \<Rightarrow> 'a \<Rightarrow> 'a result"
    and abs_of :: "'c \<Rightarrow> 'a"
    and allowed :: "'op \<Rightarrow> bool"
    and rinv :: "'c \<Rightarrow> bool"
  assumes step_returns: "allowed a \<Longrightarrow> rinv c \<Longrightarrow> cexec a c = Inr c' \<Longrightarrow> rinv c' \<and> aexec a (abs_of c) = Inr (abs_of c')"
    and step_throws: "allowed a \<Longrightarrow> rinv c \<Longrightarrow> cexec a c = Inl e \<Longrightarrow> aexec a (abs_of c) = Inl e"

sublocale refined_machine \<subseteq> rm: conditional_machine cexec allowed rinv
  by unfold_locales (use step_returns in blast)

context refined_machine
begin

lemma run_refines: "list_all allowed as \<Longrightarrow> rinv c \<Longrightarrow> abs_of (run_ops cexec as c) = run_ops aexec as (abs_of c)"
proof (induction as arbitrary: c)
  case Nil
  then show ?case by simp
next
  case (Cons a as)
  show ?case
  proof (cases "cexec a c")
    case (Inl e)
    then show ?thesis using Cons step_throws [of a c e] by simp
  next
    case (Inr c')
    then show ?thesis using Cons step_returns [of a c c'] by simp
  qed
qed

end

section \<open>Digests\<close>

text \<open>
  \<^verbatim>\<open>fc::sha256\<close> as the chain library reads it: four 64-bit words \<^verbatim>\<open>_hash[0..3]\<close>. Its order is
  \<^verbatim>\<open>sha256_less\<close> of \<^verbatim>\<open>types.hpp\<close>, the lexicographic one on the four words.
\<close>

datatype digest = Digest (hash0: u64) (hash1: u64) (hash2: u64) (hash3: u64)

type_synonym block_id_type = digest

definition digest_zero :: digest where
  "digest_zero = Digest 0 0 0 0"

definition sha256_less :: "digest \<Rightarrow> digest \<Rightarrow> bool" where
  "sha256_less a b \<longleftrightarrow>
     hash0 a < hash0 b \<or> hash0 a = hash0 b \<and>
     (hash1 a < hash1 b \<or> hash1 a = hash1 b \<and>
      (hash2 a < hash2 b \<or> hash2 a = hash2 b \<and> hash3 a < hash3 b))"

instantiation digest :: linorder
begin

definition less_digest :: "digest \<Rightarrow> digest \<Rightarrow> bool" where
  "less_digest = sha256_less"

definition less_eq_digest :: "digest \<Rightarrow> digest \<Rightarrow> bool" where
  "less_eq_digest a b \<longleftrightarrow> sha256_less a b \<or> a = b"

instance
proof
  fix a b c :: digest
  show "a < b \<longleftrightarrow> a \<le> b \<and> \<not> b \<le> a"
    by (cases a; cases b) (auto simp: less_digest_def less_eq_digest_def sha256_less_def)
  show "a \<le> a" by (simp add: less_eq_digest_def)
  show "a \<le> b \<Longrightarrow> b \<le> c \<Longrightarrow> a \<le> c"
    by (cases a; cases b; cases c) (auto simp: less_eq_digest_def sha256_less_def)
  show "a \<le> b \<Longrightarrow> b \<le> a \<Longrightarrow> a = b"
    by (cases a; cases b) (auto simp: less_eq_digest_def sha256_less_def)
  show "a \<le> b \<or> b \<le> a"
    by (cases a; cases b) (auto simp: less_eq_digest_def sha256_less_def)
qed

end

end
