(* ===== verification/Names.thy ===== *)
theory Names
  imports Chain_Prelude
begin

text \<open>
  Account, action, permission and table names (\<^verbatim>\<open>name.hpp\<close>, \<^verbatim>\<open>name.cpp\<close>): a 64-bit value that
  packs twelve 5-bit symbols and one 4-bit symbol. A \<^verbatim>\<open>const char *\<close> is the list of its
  characters before the terminating zero.
\<close>

section \<open>Model\<close>

type_synonym name = u64
type_synonym account_name = name
type_synonym action_name = name
type_synonym permission_name = name

definition char_to_symbol :: "char \<Rightarrow> u64" where
  "char_to_symbol c =
     (let n = (of_char c :: nat)
      in if 97 \<le> n \<and> n \<le> 122 then of_nat (n - 97) + 6
         else if 49 \<le> n \<and> n \<le> 53 then of_nat (n - 49) + 1
         else 0)"

text \<open>The loop stops at the end of the string or at \<^verbatim>\<open>i == 12\<close>; it returns \<^verbatim>\<open>i\<close>, what is left of
  the string and the value so far.\<close>

fun string_to_name_loop :: "nat \<Rightarrow> string \<Rightarrow> u64 \<Rightarrow> nat \<times> string \<times> u64" where
  "string_to_name_loop i [] nm = (i, [], nm)"
| "string_to_name_loop i (c # cs) nm =
     (if i < 12
      then string_to_name_loop (i + 1) cs
             (nm OR push_bit (64 - 5 * (i + 1)) (char_to_symbol c AND 0x1f))
      else (i, c # cs, nm))"

definition string_to_name :: "string \<Rightarrow> name" where
  "string_to_name str =
     (case string_to_name_loop 0 str 0 of
        (i, rest, nm) \<Rightarrow>
          if i = 12
          then nm OR (char_to_symbol (case rest of [] \<Rightarrow> CHR 0x00 | c # _ \<Rightarrow> c) AND 0x0F)
          else nm)"

definition charmap :: string where
  "charmap = ''.12345abcdefghijklmnopqrstuvwxyz''"

text \<open>The thirteen characters before trimming: \<^verbatim>\<open>str[12 - i]\<close> is written in iteration \<open>i\<close>.\<close>

definition name_chars :: "name \<Rightarrow> string" where
  "name_chars v =
     fst (fold (\<lambda>i (str, tmp).
            (str[12 - i := charmap ! unat (tmp AND (if i = 0 then 0x0f else 0x1f))],
             drop_bit (if i = 0 then 4 else 5) tmp))
          [0..<13] (replicate 13 (CHR ''.''), v))"

definition trim_right_dots :: "string \<Rightarrow> string" where
  "trim_right_dots s = rev (dropWhile (\<lambda>c. c = CHR ''.'') (rev s))"

definition name_to_string :: "name \<Rightarrow> string" where
  "name_to_string v = trim_right_dots (name_chars v)"

definition name_set :: "string \<Rightarrow> name result" where
  "name_set str =
     eos_assert (min (length str) 14 \<le> 13) Name_type_exception
       (let value = string_to_name str
        in eos_assert (name_to_string value = str) Name_type_exception (Inr value))"

text \<open>\<^verbatim>\<open>string_to_uint64_t\<close> spreads the low five bits of the characters over the upper bits. A
  shift of a 64-bit value by 64 or more is undefined.\<close>

fun string_to_uint64_t_loop :: "nat \<Rightarrow> nat \<Rightarrow> string \<Rightarrow> u64 \<Rightarrow> u64 result" where
  "string_to_uint64_t_loop multv i [] acc = Inr acc"
| "string_to_uint64_t_loop multv i (ch # cs) acc =
     (let c = (of_char ch :: u64)
      in if i < 60
         then eos_assert (0 < multv * (i + 1) \<and> multv * (i + 1) \<le> 64) Undefined_behaviour
                (string_to_uint64_t_loop multv (i + 1) cs
                   (acc OR push_bit (64 - multv * (i + 1)) (c AND 0x1f)))
         else string_to_uint64_t_loop multv (i + 1) cs (acc OR (c AND 0x0f)))"

definition string_to_uint64_t :: "string \<Rightarrow> u64 result" where
  "string_to_uint64_t str =
     (let len = length str; multv = (if len > 0 then 60 div len else 0)
      in string_to_uint64_t_loop multv 0 str 0)"

section \<open>Every value prints to its only accepted spelling\<close>

lemma char_to_symbol_charmap_list:
  "list_all (\<lambda>k. char_to_symbol (charmap ! k) = of_nat k) [0..<32]"
  by (simp add: charmap_def char_to_symbol_def upt_rec)

lemma char_to_symbol_charmap: "k < 32 \<Longrightarrow> char_to_symbol (charmap ! k) = of_nat k"
  using char_to_symbol_charmap_list by (auto simp: list_all_iff)

lemma and_31_less: "unat (w AND 31 :: u64) < 32"
  using word_and_le1 [of w 31] by (simp add: word_le_nat_alt)

lemma and_15_less: "unat (w AND 15 :: u64) < 32"
  using word_and_le1 [of w 15] by (simp add: word_le_nat_alt)

lemma char_to_symbol_chunk [simp]:
  "char_to_symbol (charmap ! unat (w AND 31 :: u64)) = w AND 31"
  "char_to_symbol (charmap ! unat (w AND 15 :: u64)) = w AND 15"
  by (simp_all add: char_to_symbol_charmap and_31_less and_15_less)

lemma upt_13: "[0..<13] = [0, 1, 2, 3, 4, 5, 6, 7, 8, 9, 10, 11, 12::nat]"
  by code_simp

lemma upt_12: "[0..<12] = [0, 1, 2, 3, 4, 5, 6, 7, 8, 9, 10, 11::nat]"
  by code_simp

lemma replicate_13: "replicate 13 x = [x, x, x, x, x, x, x, x, x, x, x, x, x]"
  by (simp add: numeral_eq_Suc)

lemma name_chars_eq:
  "name_chars v = map (\<lambda>k. charmap ! unat (drop_bit (59 - 5 * k) v AND 31)) [0..<12] @
     [charmap ! unat (v AND 15)]"
  by (simp add: name_chars_def upt_13 upt_12 replicate_13)

lemma length_name_chars [simp]: "length (name_chars v) = 13"
  by (simp add: name_chars_eq)

lemma string_to_name_13:
  "string_to_name [c0, c1, c2, c3, c4, c5, c6, c7, c8, c9, c10, c11, c12] =
     fold (\<lambda>(k, c) w. w OR push_bit k (char_to_symbol c AND 31))
       [(59, c0), (54, c1), (49, c2), (44, c3), (39, c4), (34, c5), (29, c6), (24, c7),
        (19, c8), (14, c9), (9, c10), (4, c11)] 0 OR (char_to_symbol c12 AND 15)"
  by (simp add: string_to_name_def)

lemma bit_chunk:
  "bit (push_bit k (drop_bit k v AND 31) :: u64) n \<longleftrightarrow> k \<le> n \<and> n < k + 5 \<and> bit v n"
proof -
  have "drop_bit k v AND 31 = take_bit 5 (drop_bit k v)"
    by (simp add: take_bit_eq_mask mask_eq_exp_minus_1)
  then show ?thesis
    using bit_imp_le_length [of v n] by (auto simp: bit_simps)
qed

lemma bit_low_chunk: "bit (v AND 15 :: u64) n \<longleftrightarrow> n < 4 \<and> bit v n"
proof -
  have "v AND 15 = take_bit 4 v"
    by (simp add: take_bit_eq_mask mask_eq_exp_minus_1)
  then show ?thesis by (simp add: bit_simps)
qed

lemma string_to_name_chars: "string_to_name (name_chars v) = v"
proof (rule bit_word_eqI)
  fix n assume "n < LENGTH(64)"
  then have "n < 64" by simp
  then show "bit (string_to_name (name_chars v)) n = bit v n"
    by (cases "bit v n")
      (simp_all add: name_chars_eq upt_12 string_to_name_13 bit_or_iff bit_chunk bit_low_chunk
        del: push_bit_and and.assoc, blast intro: leI)
qed

lemma char_to_symbol_padding [simp]:
  "char_to_symbol (CHR ''.'') = 0" "char_to_symbol (CHR 0x00) = 0"
  by (simp_all add: char_to_symbol_def)

lemma string_to_name_loop_append:
  "i + length s \<le> 12 \<Longrightarrow>
     string_to_name_loop i (s @ t) nm =
       string_to_name_loop (i + length s) t (snd (snd (string_to_name_loop i s nm)))"
  by (induction s arbitrary: i nm) auto

lemma string_to_name_loop_short:
  "i + length s \<le> 12 \<Longrightarrow>
     string_to_name_loop i s nm = (i + length s, [], snd (snd (string_to_name_loop i s nm)))"
  using string_to_name_loop_append [of i s "[]" nm] by simp

lemma string_to_name_snoc_dot:
  assumes "length s < 13"
  shows "string_to_name (s @ ''.'') = string_to_name s"
proof -
  have "string_to_name_loop 0 s 0 = (length s, [], snd (snd (string_to_name_loop 0 s 0)))"
    using assms string_to_name_loop_short [of 0 s 0] by simp
  moreover have "string_to_name_loop 0 (s @ ''.'') 0 =
      string_to_name_loop (length s) ''.'' (snd (snd (string_to_name_loop 0 s 0)))"
    using assms string_to_name_loop_append [of 0 s "''.''" 0] by simp
  ultimately show ?thesis
    using assms by (cases "length s = 12") (auto simp: string_to_name_def split: prod.splits)
qed

lemma string_to_name_replicate_dots:
  "length s + k \<le> 13 \<Longrightarrow> string_to_name (s @ replicate k (CHR ''.'')) = string_to_name s"
proof (induction k)
  case (Suc k)
  then show ?case
    using string_to_name_snoc_dot [of "s @ replicate k (CHR ''.'')"]
    by (simp add: replicate_append_same [symmetric])
qed simp

lemma trim_right_dots_split:
  "\<exists>k. s = trim_right_dots s @ replicate k (CHR ''.'')"
proof -
  let ?t = "takeWhile (\<lambda>c. c = CHR ''.'') (rev s)"
  have "?t = replicate (length ?t) (CHR ''.'')"
    by (rule replicate_eqI [symmetric, THEN sym]) (auto dest: set_takeWhileD)
  then have "rev ?t = replicate (length ?t) (CHR ''.'')"
    by (metis rev_replicate)
  moreover have "s = trim_right_dots s @ rev ?t"
    unfolding trim_right_dots_def by (metis rev_append rev_rev_ident takeWhile_dropWhile_id)
  ultimately show ?thesis by metis
qed

lemma string_to_name_to_string: "string_to_name (name_to_string v) = v"
  and length_name_to_string: "length (name_to_string v) \<le> 13"
proof -
  obtain k where k: "name_chars v = name_to_string v @ replicate k (CHR ''.'')"
    unfolding name_to_string_def using trim_right_dots_split by blast
  then have len: "length (name_to_string v) + k = 13"
    by (metis length_append length_name_chars length_replicate)
  then show "length (name_to_string v) \<le> 13" by simp
  show "string_to_name (name_to_string v) = v"
    using string_to_name_replicate_dots [of "name_to_string v" k] len k string_to_name_chars [of v]
    by simp
qed

lemma string_to_uint64_t_loop_returns:
  "0 < multv \<Longrightarrow> multv * (i + length cs) \<le> 60 \<Longrightarrow>
     \<exists>v. string_to_uint64_t_loop multv i cs acc = Inr v"
proof (induction cs arbitrary: i acc)
  case (Cons c cs)
  have "multv * (i + 1) \<le> multv * (i + length (c # cs))"
    by (rule mult_le_mono2) simp
  with Cons.prems have "multv * (i + 1) \<le> 60" by linarith
  with Cons show ?case by (auto simp: Let_def eos_assert_def)
qed simp

section \<open>Properties\<close>

text \<open>
  C30. Parsing and printing names are inverse: \<^verbatim>\<open>name::set\<close> accepts a string and yields the value \<open>v\<close>
  exactly when that string is what \<^verbatim>\<open>to_string\<close> prints for \<open>v\<close>. So every 64-bit value has one
  accepted spelling, and every other string is refused with \<^verbatim>\<open>name_type_exception\<close>.
\<close>

theorem name_set_iff: "name_set s = Inr v \<longleftrightarrow> name_to_string v = s"
  by (auto simp: name_set_def Let_def eos_assert_Inr string_to_name_to_string
      length_name_to_string min_le_iff_disj)

text \<open>
  \<^verbatim>\<open>string_to_uint64_t\<close> is defined exactly on strings of at most 60 characters: a longer one makes
  \<^verbatim>\<open>60 / len\<close> zero and shifts a 64-bit value by 64.
\<close>

lemma string_to_uint64_t_defined:
  "(\<exists>v. string_to_uint64_t s = Inr v) \<longleftrightarrow> length s \<le> 60"
proof (cases "length s \<le> 60")
  case True
  then have "s \<noteq> [] \<Longrightarrow> 0 < 60 div length s" by (simp add: div_greater_zero_iff)
  with True show ?thesis
    by (cases "s = []")
      (auto simp: string_to_uint64_t_def intro: string_to_uint64_t_loop_returns)
next
  case False
  then have "60 div length s = 0" by simp
  moreover obtain c cs where "s = c # cs" using False by (cases s) auto
  ultimately show ?thesis
    using False by (simp add: string_to_uint64_t_def eos_assert_def Let_def)
qed

end
