(* ===== verification/Block_Time.thy ===== *)
theory Block_Time
  imports Chain_Prelude
begin

text \<open>
  Block timestamps (\<^verbatim>\<open>block_timestamp.hpp\<close>) with the interval and epoch of \<^verbatim>\<open>config.hpp\<close>: a slot number
  of 32 bits. An \<^verbatim>\<open>fc::time_point\<close> is its 64-bit count of microseconds since 1970;
  \<^verbatim>\<open>fc::milliseconds\<close> is the parameter \<open>milliseconds\<close>.
\<close>

section \<open>Model\<close>

type_synonym block_timestamp_type = u32
type_synonym time_point = i64

definition block_interval_ms :: u64 where "block_interval_ms = 500"
definition block_timestamp_epoch :: u64 where "block_timestamp_epoch = 946684800000"

definition block_timestamp_maximum :: block_timestamp_type where
  "block_timestamp_maximum = 0xffff"

definition block_timestamp_min :: block_timestamp_type where
  "block_timestamp_min = 0"

definition block_timestamp_next :: "block_timestamp_type \<Rightarrow> block_timestamp_type result" where
  "block_timestamp_next slot = eos_assert (0xffffffff - slot \<ge> 1) Overflow_exception (Inr (slot + 1))"

definition slot_msec :: "block_timestamp_type \<Rightarrow> i64" where
  "slot_msec slot = ucast slot * block_interval_ms + block_timestamp_epoch"

definition to_time_point :: "(i64 \<Rightarrow> time_point) \<Rightarrow> block_timestamp_type \<Rightarrow> time_point" where
  "to_time_point milliseconds slot = milliseconds (slot_msec slot)"

definition set_time_point :: "time_point \<Rightarrow> block_timestamp_type" where
  "set_time_point t =
     (let msec_since_epoch = (of_int (c_div (sint t) 1000) :: i64)
      in ucast ((msec_since_epoch - block_timestamp_epoch) div block_interval_ms))"

definition set_time_point_sec :: "u32 \<Rightarrow> block_timestamp_type" where
  "set_time_point_sec sec_since_epoch =
     ucast ((ucast sec_since_epoch * 1000 - block_timestamp_epoch) div block_interval_ms)"

section \<open>Arithmetic of slots\<close>

lemma uint_slot_msec: "uint (slot_msec slot) = uint slot * 500 + 946684800000"
proof -
  have "uint slot < 2 ^ 32" using uint_bounded [of slot] by simp
  then show ?thesis
    by (simp add: slot_msec_def block_interval_ms_def block_timestamp_epoch_def
        uint_word_ariths unsigned_ucast_eq uint_word_of_int take_bit_eq_mod)
qed

lemma set_time_point_floor:
  assumes "946684800000 \<le> sint t div 1000" "sint t div 1000 < 946684800000 + 500 * 2 ^ 32"
  shows "uint (set_time_point t) = (sint t div 1000 - 946684800000) div 500"
proof -
  let ?m = "sint t div 1000"
  have c: "c_div (sint t) 1000 = ?m" using assms by (intro c_div_nonneg) auto
  have m: "uint (of_int ?m :: i64) = ?m"
    using assms by (intro uint_of_int_small) auto
  then have "block_timestamp_epoch \<le> (of_int ?m :: i64)"
    using assms by (simp add: word_le_def block_timestamp_epoch_def)
  then have "uint ((of_int ?m :: i64) - block_timestamp_epoch) = ?m - 946684800000"
    by (simp add: uint_minus_small m) (simp add: block_timestamp_epoch_def)
  then have d: "uint (((of_int ?m :: i64) - block_timestamp_epoch) div block_interval_ms) =
      (?m - 946684800000) div 500"
    by (simp add: uint_div block_interval_ms_def)
  have "(?m - 946684800000) div 500 < 2 ^ 32"
    using assms by simp
  moreover have "0 \<le> (?m - 946684800000) div 500"
    using assms by (simp add: pos_imp_zdiv_nonneg_iff)
  ultimately show ?thesis
    by (simp add: set_time_point_def Let_def c unsigned_ucast_eq d take_bit_int_eq_self)
qed

text \<open>\<^verbatim>\<open>next\<close> throws \<^verbatim>\<open>overflow_exception\<close> on the last 32-bit slot only.\<close>

lemma block_timestamp_next_spec:
  "block_timestamp_next slot =
     (if slot = 0xffffffff then Inl Overflow_exception else Inr (slot + 1))"
proof -
  have "1 \<le> 0xffffffff - slot \<longleftrightarrow> slot \<noteq> 0xffffffff"
    by (auto simp: word_le_nat_alt unat_gt_0 Suc_le_eq)
  then show ?thesis by (simp add: block_timestamp_next_def eos_assert_def)
qed

text \<open>
  A slot survives the trip through \<^verbatim>\<open>fc::time_point\<close>: converting any block timestamp to a time point
  and back yields the same slot, given that \<^verbatim>\<open>fc::milliseconds\<close> counts a thousand microseconds each.
\<close>

lemma block_timestamp_roundtrip:
  assumes "\<And>m. milliseconds m = m * 1000"
  shows "set_time_point (to_time_point milliseconds slot) = slot"
proof -
  have b: "uint slot < 2 ^ 32" "0 \<le> uint slot" using uint_bounded [of slot] by simp_all
  have u: "uint (to_time_point milliseconds slot) = (uint slot * 500 + 946684800000) * 1000"
    using b by (simp add: to_time_point_def assms uint_word_ariths uint_slot_msec)
  moreover have "sint (to_time_point milliseconds slot) = uint (to_time_point milliseconds slot)"
    using b u by (intro sint_eq_uint_small) simp
  ultimately have s: "sint (to_time_point milliseconds slot) = (uint slot * 500 + 946684800000) * 1000"
    by simp
  have "uint (set_time_point (to_time_point milliseconds slot)) = uint slot"
    by (subst set_time_point_floor) (use b in \<open>simp_all add: s\<close>)
  then show ?thesis by (simp add: word_uint_eq_iff)
qed

text \<open>
  \<^verbatim>\<open>set_time_point\<close> rounds down to the slot grid: for a time from the epoch on and before slot
  \<open>2\<^sup>3\<^sup>2\<close>, the slot chosen starts at or before it and less than one block interval earlier.
\<close>

lemma set_time_point_slot_bounds:
  assumes "946684800000 \<le> sint t div 1000" "sint t div 1000 < 946684800000 + 500 * 2 ^ 32"
  shows "uint (slot_msec (set_time_point t)) \<le> sint t div 1000 \<and>
    sint t div 1000 < uint (slot_msec (set_time_point t)) + 500"
proof -
  define x where "x = sint t div 1000 - 946684800000"
  have "x = x div 500 * 500 + x mod 500" "0 \<le> x mod 500" "x mod 500 < 500" by simp_all
  then show ?thesis
    unfolding uint_slot_msec set_time_point_floor [OF assms] x_def by linarith
qed

end
