(* ===== verification/Merkle.thy ===== *)
theory Merkle
  imports Chain_Prelude
begin

text \<open>
  The Merkle root of a list of digests (\<^verbatim>\<open>merkle.cpp\<close>) and the incremental tree that block headers
  use to accumulate block identifiers (\<^verbatim>\<open>incremental_merkle.hpp\<close>). SHA-256 of a packed pair is the
  parameter \<open>sha\<close>. The theory shows that the incremental tree computes the roots of the batch
  algorithm.
\<close>

section \<open>Model\<close>

definition make_canonical_left :: "digest \<Rightarrow> digest" where
  "make_canonical_left val =
     Digest (hash0 val AND 0xFFFFFFFFFFFFFF7F) (hash1 val) (hash2 val) (hash3 val)"

definition make_canonical_right :: "digest \<Rightarrow> digest" where
  "make_canonical_right val =
     Digest (hash0 val OR 0x0000000000000080) (hash1 val) (hash2 val) (hash3 val)"

definition is_canonical_left :: "digest \<Rightarrow> bool" where
  "is_canonical_left val \<longleftrightarrow> hash0 val AND 0x0000000000000080 = 0"

definition is_canonical_right :: "digest \<Rightarrow> bool" where
  "is_canonical_right val \<longleftrightarrow> hash0 val AND 0x0000000000000080 \<noteq> 0"

definition make_canonical_pair :: "digest \<Rightarrow> digest \<Rightarrow> digest \<times> digest" where
  "make_canonical_pair l r = (make_canonical_left l, make_canonical_right r)"

type_synonym pair_hash = "digest \<times> digest \<Rightarrow> digest"

text \<open>One round of the \<^verbatim>\<open>while\<close> loop of \<^verbatim>\<open>merkle\<close>: the \<^verbatim>\<open>for\<close> loop overwrites the front half of the
  vector in place, then the vector is cut.\<close>

definition merkle_pass :: "pair_hash \<Rightarrow> digest list \<Rightarrow> digest list" where
  "merkle_pass sha ids =
     take (length ids div 2)
       (fold (\<lambda>i ids. ids[i := sha (make_canonical_pair (ids ! (2 * i)) (ids ! (2 * i + 1)))])
         [0..<length ids div 2] ids)"

lemma length_fold_list_update [simp]:
  "length (fold (\<lambda>i ids. ids[i := f i ids]) is ids) = length ids"
  by (induction "is" arbitrary: ids) auto

lemma length_merkle_pass [simp]: "length (merkle_pass sha ids) = length ids div 2"
  by (simp add: merkle_pass_def)

function merkle_loop :: "pair_hash \<Rightarrow> digest list \<Rightarrow> digest list" where
  "merkle_loop sha ids =
     (if 1 < length ids
      then merkle_loop sha
             (merkle_pass sha (if length ids mod 2 \<noteq> 0 then ids @ [last ids] else ids))
      else ids)"
  by auto
termination
  by (relation "measure (\<lambda>(sha, ids). length ids)") (auto simp: div_less_iff_less_mult)

declare merkle_loop.simps [simp del]

definition merkle :: "pair_hash \<Rightarrow> digest list \<Rightarrow> digest" where
  "merkle sha ids = (if length ids = 0 then digest_zero else hd (merkle_loop sha ids))"

definition next_power_of_2 :: "u64 \<Rightarrow> u64" where
  "next_power_of_2 val0 =
     (let v = val0 - 1;
          v = v OR drop_bit 1 v;
          v = v OR drop_bit 2 v;
          v = v OR drop_bit 4 v;
          v = v OR drop_bit 8 v;
          v = v OR drop_bit 16 v;
          v = v OR drop_bit 32 v
      in v + 1)"

definition clz_power_2 :: "u64 \<Rightarrow> int" where
  "clz_power_2 v =
     64 - (if v \<noteq> 0 then 1 else 0)
        - (if v AND 0x00000000FFFFFFFF \<noteq> 0 then 32 else 0)
        - (if v AND 0x0000FFFF0000FFFF \<noteq> 0 then 16 else 0)
        - (if v AND 0x00FF00FF00FF00FF \<noteq> 0 then 8 else 0)
        - (if v AND 0x0F0F0F0F0F0F0F0F \<noteq> 0 then 4 else 0)
        - (if v AND 0x3333333333333333 \<noteq> 0 then 2 else 0)
        - (if v AND 0x5555555555555555 \<noteq> 0 then 1 else 0)"

definition calcluate_max_depth :: "u64 \<Rightarrow> int" where
  "calcluate_max_depth node_count =
     (if node_count = 0 then 0 else clz_power_2 (next_power_of_2 node_count) + 1)"

record incremental_merkle =
  node_count :: u64
  active_nodes :: "digest list"

definition incremental_merkle_empty :: incremental_merkle where
  "incremental_merkle_empty = \<lparr>node_count = 0, active_nodes = []\<rparr>"

text \<open>The \<^verbatim>\<open>while\<close> loop of \<^verbatim>\<open>append\<close>; \<open>its\<close> are the nodes from \<^verbatim>\<open>active_iter\<close> on. Reading past the end
  of the old active nodes is undefined.\<close>

fun append_loop ::
  "pair_hash \<Rightarrow> nat \<Rightarrow> u64 \<Rightarrow> bool \<Rightarrow> digest \<Rightarrow> digest list \<Rightarrow> digest list \<Rightarrow>
     (digest \<times> digest list) result" where
  "append_loop sha 0 index partial top_node its updated = Inr (top_node, updated)"
| "append_loop sha (Suc current_depth) index partial top_node its updated =
     (if index AND 1 = 0
      then append_loop sha current_depth (drop_bit 1 index) True
             (sha (make_canonical_pair top_node top_node)) its
             (if partial then updated else updated @ [top_node])
      else (case its of
              [] \<Rightarrow> Inl Undefined_behaviour
            | left_value # its' \<Rightarrow>
                append_loop sha current_depth (drop_bit 1 index) partial
                  (sha (make_canonical_pair left_value top_node)) its'
                  (if partial then updated @ [left_value] else updated)))"

definition merkle_append ::
  "pair_hash \<Rightarrow> incremental_merkle \<Rightarrow> digest \<Rightarrow> incremental_merkle result" where
  "merkle_append sha m digest =
     (let max_depth = calcluate_max_depth (node_count m + 1)
      in rbind (append_loop sha (nat (max_depth - 1)) (node_count m) False digest (active_nodes m) [])
           (\<lambda>(top_node, updated).
              Inr \<lparr>node_count = node_count m + 1, active_nodes = updated @ [top_node]\<rparr>))"

definition get_root :: "incremental_merkle \<Rightarrow> digest result" where
  "get_root m =
     (if 0 < node_count m
      then eos_assert (active_nodes m \<noteq> []) Undefined_behaviour (Inr (last (active_nodes m)))
      else Inr digest_zero)"

section \<open>The batch algorithm, level by level\<close>

fun pairs :: "('a \<Rightarrow> 'a \<Rightarrow> 'a) \<Rightarrow> 'a list \<Rightarrow> 'a list" where
  "pairs h (x # y # zs) = h x y # pairs h zs"
| "pairs h _ = []"

lemma length_pairs [simp]: "length (pairs h xs) = length xs div 2"
  by (induction h xs rule: pairs.induct) auto

lemma nth_pairs: "i < length xs div 2 \<Longrightarrow> pairs h xs ! i = h (xs ! (2 * i)) (xs ! (2 * i + 1))"
proof (induction h xs arbitrary: i rule: pairs.induct)
  case (1 h x y zs)
  then show ?case by (cases i) auto
qed auto

lemma pairs_snoc:
  "pairs h (ys @ [t]) = (if even (length ys) then pairs h ys else pairs h ys @ [h (last ys) t])"
proof (induction h ys rule: pairs.induct)
  case (1 h x y zs)
  then show ?case by (cases zs) auto
qed auto

lemma pairs_append_even:
  "even (length ys) \<Longrightarrow> pairs h (ys @ zs) = pairs h ys @ pairs h zs"
  by (induction h ys rule: pairs.induct) auto

abbreviation node_hash :: "pair_hash \<Rightarrow> digest \<Rightarrow> digest \<Rightarrow> digest" where
  "node_hash sha l r \<equiv> sha (make_canonical_pair l r)"

lemma merkle_pass_prefix:
  assumes "j \<le> length ids div 2"
  shows "fold (\<lambda>i ids. ids[i := node_hash sha (ids ! (2 * i)) (ids ! (2 * i + 1))]) [0..<j] ids =
    take j (pairs (node_hash sha) ids) @ drop j ids"
  using assms
proof (induction j)
  case (Suc j)
  let ?p = "pairs (node_hash sha) ids"
  have at: "(take j ?p @ drop j ids) ! k = ids ! k" if "j \<le> k" "k < length ids" for k
    using Suc.prems that by (simp add: nth_append min_def)
  have "take (Suc j) ?p = take j ?p @ [node_hash sha (ids ! (2 * j)) (ids ! (2 * j + 1))]"
    using Suc.prems by (simp add: take_Suc_conv_app_nth nth_pairs)
  moreover have "drop j ids = ids ! j # drop (Suc j) ids"
    using Suc.prems by (intro Cons_nth_drop_Suc [symmetric]) linarith
  ultimately show ?case
    using Suc at [of "2 * j"] at [of "2 * j + 1"] by (simp add: list_update_append min_def)
qed simp

lemma merkle_pass_pairs: "merkle_pass sha ids = pairs (node_hash sha) ids"
  unfolding merkle_pass_def by (subst merkle_pass_prefix) simp_all

lemma merkle_loop_singleton [simp]: "merkle_loop sha [x] = [x]"
  by (simp add: merkle_loop.simps)

lemma merkle_loop_level:
  assumes "ys \<noteq> []"
  shows "merkle_loop sha (ys @ [t]) =
    merkle_loop sha (pairs (node_hash sha) ys @
      [if even (length ys) then node_hash sha t t else node_hash sha (last ys) t])"
proof -
  have "length ys \<noteq> 0" using assms by simp
  then show ?thesis
    by (subst merkle_loop.simps) (auto simp: merkle_pass_pairs pairs_snoc pairs_append_even mod2_eq_if)
qed

section \<open>Depth of the tree\<close>

fun bit_length :: "nat \<Rightarrow> nat" where
  "bit_length n = (if n = 0 then 0 else Suc (bit_length (n div 2)))"

declare bit_length.simps [simp del]

lemma bit_length_0 [simp]: "bit_length 0 = 0"
  by (simp add: bit_length.simps)

lemma bit_length_pos: "0 < n \<Longrightarrow> bit_length n = Suc (bit_length (n div 2))"
  by (simp add: bit_length.simps [of n])

lemma less_power_bit_length: "n < 2 ^ bit_length n"
proof (induction n rule: bit_length.induct)
  case (1 n)
  then show ?case by (cases "n = 0") (auto simp: bit_length_pos)
qed

lemma power_bit_length_le: "0 < n \<Longrightarrow> 2 ^ bit_length n \<le> 2 * n"
proof (induction n rule: bit_length.induct)
  case (1 n)
  show ?case
  proof (cases "n div 2 = 0")
    case True
    with 1 show ?thesis by (simp add: bit_length_pos)
  next
    case False
    with 1 have "2 ^ bit_length (n div 2) \<le> 2 * (n div 2)" by auto
    also have "\<dots> \<le> n" by simp
    finally show ?thesis using 1 by (simp add: bit_length_pos)
  qed
qed

lemma bit_length_le: "n < 2 ^ k \<Longrightarrow> bit_length n \<le> k"
proof (rule ccontr)
  assume n: "n < 2 ^ k" and "\<not> bit_length n \<le> k"
  then have "Suc k \<le> bit_length n" "0 < n" by (cases "n = 0"; simp)+
  then have "2 ^ Suc k \<le> (2 :: nat) ^ bit_length n" by (intro power_increasing) auto
  also have "\<dots> \<le> 2 * n" using \<open>0 < n\<close> by (rule power_bit_length_le)
  finally show False using n by simp
qed

lemma bit_length_top_bit:
  assumes "0 < n"
  shows "bit n (bit_length n - 1)"
proof -
  obtain k where k: "bit_length n = Suc k"
    using assms by (simp add: bit_length_pos)
  have "n < 2 ^ Suc k" "2 ^ k \<le> n"
    using less_power_bit_length [of n] power_bit_length_le [OF assms] by (simp_all add: k)
  then have "n div 2 ^ k = 1"
    by (intro div_nat_eqI) (simp_all add: ac_simps)
  then show ?thesis by (simp add: k bit_iff_odd)
qed

text \<open>The doubling steps of \<^verbatim>\<open>next_power_of_2\<close> smear every bit over all lower positions.\<close>

lemma bit_smear_step:
  fixes x w :: "'a::len word"
  assumes "\<And>i. bit x i \<longleftrightarrow> (\<exists>d < m. bit w (i + d))"
  shows "bit (x OR drop_bit m x) i \<longleftrightarrow> (\<exists>d < 2 * m. bit w (i + d))"
proof -
  have "(\<exists>d < m. bit w (i + d)) \<or> (\<exists>d < m. bit w (m + i + d)) \<longleftrightarrow> (\<exists>d < 2 * m. bit w (i + d))"
    (is "?A \<or> ?B \<longleftrightarrow> ?C")
  proof
    assume "?A \<or> ?B"
    then show ?C
    proof
      assume ?A
      then obtain d where "d < m" "bit w (i + d)" by blast
      then show ?C by (intro exI [of _ d]) simp
    next
      assume ?B
      then obtain d where "d < m" "bit w (m + i + d)" by blast
      then show ?C by (intro exI [of _ "m + d"]) (simp add: ac_simps)
    qed
  next
    assume ?C
    then obtain d where d: "d < 2 * m" "bit w (i + d)" by blast
    show "?A \<or> ?B"
    proof (cases "d < m")
      case False
      with d have "d - m < m \<and> bit w (m + i + (d - m))" by simp
      then show ?thesis by blast
    qed (use d in blast)
  qed
  then show ?thesis by (simp add: bit_or_iff bit_drop_bit_eq assms)
qed

lemma next_power_of_2_smear:
  "next_power_of_2 (w + 1) = mask (bit_length (unat w)) + 1"
proof -
  define s1 where "s1 = w OR drop_bit 1 w"
  define s2 where "s2 = s1 OR drop_bit 2 s1"
  define s4 where "s4 = s2 OR drop_bit 4 s2"
  define s8 where "s8 = s4 OR drop_bit 8 s4"
  define s16 where "s16 = s8 OR drop_bit 16 s8"
  define s32 where "s32 = s16 OR drop_bit 32 s16"
  have "bit s1 i \<longleftrightarrow> (\<exists>d < 2. bit w (i + d))" for i
    using bit_smear_step [of w 1 w i] by (simp add: s1_def)
  then have "bit s2 i \<longleftrightarrow> (\<exists>d < 4. bit w (i + d))" for i
    using bit_smear_step [of s1 2 w i] by (simp add: s2_def)
  then have "bit s4 i \<longleftrightarrow> (\<exists>d < 8. bit w (i + d))" for i
    using bit_smear_step [of s2 4 w i] by (simp add: s4_def)
  then have "bit s8 i \<longleftrightarrow> (\<exists>d < 16. bit w (i + d))" for i
    using bit_smear_step [of s4 8 w i] by (simp add: s8_def)
  then have "bit s16 i \<longleftrightarrow> (\<exists>d < 32. bit w (i + d))" for i
    using bit_smear_step [of s8 16 w i] by (simp add: s16_def)
  then have s: "bit s32 i \<longleftrightarrow> (\<exists>d < 64. bit w (i + d))" for i
    using bit_smear_step [of s16 32 w i] by (simp add: s32_def)
  have bit_w: "bit w j \<longleftrightarrow> bit (unat w) j" for j
    by (simp add: bit_unsigned_iff)
  have high: "\<not> bit w j" if "bit_length (unat w) \<le> j" for j
  proof -
    have "unat w < 2 ^ j"
      by (rule less_le_trans [OF less_power_bit_length]) (use that in simp)
    then have "\<not> bit (unat w) j" by (simp add: bit_iff_odd)
    then show ?thesis by (simp only: bit_w not_False_eq_True)
  qed
  have "bit s32 i \<longleftrightarrow> i < bit_length (unat w)" for i
  proof
    assume "bit s32 i"
    then show "i < bit_length (unat w)" using s high by (meson le_add1 le_trans not_le)
  next
    assume i: "i < bit_length (unat w)"
    then have "0 < unat w" by (cases "unat w = 0") auto
    then have "bit w (bit_length (unat w) - 1)" using bit_length_top_bit bit_w by blast
    moreover have "bit_length (unat w) \<le> 64"
      using unsigned_less [of w] by (intro bit_length_le) simp
    ultimately show "bit s32 i"
      using i unfolding s by (intro exI [of _ "bit_length (unat w) - 1 - i"]) auto
  qed
  moreover have "bit_length (unat w) \<le> 64"
    using unsigned_less [of w] by (intro bit_length_le) simp
  ultimately have "s32 = mask (bit_length (unat w))"
    by (intro bit_word_eqI) (auto simp: bit_mask_iff)
  moreover have "next_power_of_2 (w + 1) = s32 + 1"
    unfolding next_power_of_2_def Let_def s32_def s16_def s8_def s4_def s2_def s1_def
    by (simp only: add_diff_cancel_right')
  ultimately show ?thesis by (simp only:)
qed

lemma clz_power_2_list: "list_all (\<lambda>k. clz_power_2 (2 ^ k) = int k) [0..<65]"
  by (simp add: clz_power_2_def upt_rec)

lemma clz_power_2: "k \<le> 64 \<Longrightarrow> clz_power_2 (2 ^ k) = int k"
  using clz_power_2_list by (auto simp: list_all_iff)

lemma calcluate_max_depth:
  assumes "w + 1 \<noteq> 0"
  shows "calcluate_max_depth (w + 1) - 1 = int (bit_length (unat w))"
proof -
  have "bit_length (unat w) \<le> 64"
    using unsigned_less [of w] by (intro bit_length_le) simp
  moreover have "mask (bit_length (unat w)) + 1 = (2 :: u64) ^ bit_length (unat w)"
    by (simp add: mask_eq_exp_minus_1)
  ultimately show ?thesis
    using assms by (simp add: calcluate_max_depth_def next_power_of_2_smear clz_power_2)
qed

section \<open>What the active nodes hold\<close>

text \<open>The roots of the complete subtrees at the right edge, from the leaves up: the fully realized
  nodes that a later append reads.\<close>

function fulls :: "('a \<Rightarrow> 'a \<Rightarrow> 'a) \<Rightarrow> 'a list \<Rightarrow> 'a list" where
  "fulls h xs =
     (if xs = [] then [] else (if odd (length xs) then [last xs] else []) @ fulls h (pairs h xs))"
  by auto
termination
  by (relation "measure (\<lambda>(h, xs). length xs)") auto

declare fulls.simps [simp del]

lemma fulls_Nil [simp]: "fulls h [] = []"
  by (simp add: fulls.simps)

lemma fulls_step:
  "ys \<noteq> [] \<Longrightarrow> fulls h ys = (if odd (length ys) then [last ys] else []) @ fulls h (pairs h ys)"
  by (simp add: fulls.simps [of h ys])

lemma fulls_snoc:
  "fulls h (ys @ [t]) =
     (if even (length ys) then t # fulls h (pairs h ys)
      else fulls h (pairs h ys @ [h (last ys) t]))"
  by (simp add: fulls_step pairs_snoc)

lemma fulls_singleton [simp]: "fulls h [t] = [t]"
  by (simp add: fulls_step)

lemma index_and_1:
  assumes "n < 2 ^ 64"
  shows "(of_nat n :: u64) AND 1 = 0 \<longleftrightarrow> even n"
proof -
  have "(of_nat n :: u64) AND 1 = 0 \<longleftrightarrow> unat ((of_nat n :: u64) mod 2) = 0"
    by (simp only: and_one_eq unat_eq_zero)
  also have "\<dots> \<longleftrightarrow> even n"
    using assms by (simp add: unat_mod_distrib unat_of_nat even_iff_mod_2_eq_zero)
  finally show ?thesis .
qed

lemma index_shift: "n < 2 ^ 64 \<Longrightarrow> drop_bit (Suc 0) (of_nat n :: u64) = of_nat (n div 2)"
  by (simp add: word_unat_eq_iff unat_drop_bit_eq drop_bit_eq_div unat_of_nat
      unat_div_distrib)

text \<open>Once a node is partial, every left node met on the way up is kept.\<close>

lemma append_loop_partial:
  "length ys < 2 ^ 64 \<Longrightarrow>
     append_loop sha (bit_length (length ys)) (of_nat (length ys)) True t
       (fulls (node_hash sha) ys @ junk) acc =
     Inr (hd (merkle_loop sha (ys @ [t])), acc @ fulls (node_hash sha) ys)"
proof (induction "length ys" arbitrary: ys t acc rule: less_induct)
  case less
  show ?case
  proof (cases "ys = []")
    case False
    let ?h = "node_hash sha"
    have d: "bit_length (length ys) = Suc (bit_length (length (pairs ?h ys)))"
      using False by (simp add: bit_length_pos)
    have IH: "append_loop sha (bit_length (length (pairs ?h ys))) (of_nat (length (pairs ?h ys))) True t'
        (fulls ?h (pairs ?h ys) @ junk) acc' =
        Inr (hd (merkle_loop sha (pairs ?h ys @ [t'])), acc' @ fulls ?h (pairs ?h ys))" for t' acc'
      using less False by (intro less.hyps) simp_all
    show ?thesis
      using False less.prems IH
      by (auto simp: d index_and_1 index_shift merkle_loop_level fulls_step [OF False])
  qed simp
qed

lemma append_loop_full:
  "length ys < 2 ^ 64 \<Longrightarrow>
     \<exists>rest. append_loop sha (bit_length (length ys)) (of_nat (length ys)) False t
       (fulls (node_hash sha) ys @ junk) acc =
     Inr (hd (merkle_loop sha (ys @ [t])), rest) \<and>
     (\<exists>tl. rest @ [hd (merkle_loop sha (ys @ [t]))] =
        acc @ fulls (node_hash sha) (ys @ [t]) @ tl)"
proof (induction "length ys" arbitrary: ys t acc rule: less_induct)
  case less
  show ?case
  proof (cases "ys = []")
    case True
    then show ?thesis by (auto simp: fulls_snoc)
  next
    case False
    let ?h = "node_hash sha"
    have d: "bit_length (length ys) = Suc (bit_length (length (pairs ?h ys)))"
      using False by (simp add: bit_length_pos)
    show ?thesis
    proof (cases "even (length ys)")
      case True
      have "append_loop sha (bit_length (length (pairs ?h ys))) (of_nat (length (pairs ?h ys))) True
          (?h t t) (fulls ?h (pairs ?h ys) @ junk) (acc @ [t]) =
          Inr (hd (merkle_loop sha (pairs ?h ys @ [?h t t])), (acc @ [t]) @ fulls ?h (pairs ?h ys))"
        using less.prems by (intro append_loop_partial) simp
      then show ?thesis
        using False True less.prems
        by (simp add: d index_and_1 index_shift merkle_loop_level fulls_step [OF False]
            fulls_snoc [of ?h ys t])
    next
      case odd: False
      have "\<exists>rest. append_loop sha (bit_length (length (pairs ?h ys))) (of_nat (length (pairs ?h ys)))
          False (?h (last ys) t) (fulls ?h (pairs ?h ys) @ junk) acc =
          Inr (hd (merkle_loop sha (pairs ?h ys @ [?h (last ys) t])), rest) \<and>
          (\<exists>tl. rest @ [hd (merkle_loop sha (pairs ?h ys @ [?h (last ys) t]))] =
             acc @ fulls ?h (pairs ?h ys @ [?h (last ys) t]) @ tl)"
        using less False by (intro less.hyps) simp_all
      then show ?thesis
        using False odd less.prems
        by (simp add: d index_and_1 index_shift merkle_loop_level fulls_step [OF False]
            fulls_snoc [of ?h ys t])
    qed
  qed
qed

definition merkle_rep :: "pair_hash \<Rightarrow> incremental_merkle \<Rightarrow> digest list \<Rightarrow> bool" where
  "merkle_rep sha m ids \<longleftrightarrow>
     length ids < 2 ^ 64 \<and> node_count m = of_nat (length ids) \<and>
     (\<exists>tl. active_nodes m = fulls (node_hash sha) ids @ tl) \<and>
     (ids \<noteq> [] \<longrightarrow> active_nodes m \<noteq> [] \<and> last (active_nodes m) = merkle sha ids)"

lemma merkle_rep_empty: "merkle_rep sha incremental_merkle_empty []"
  by (simp add: merkle_rep_def incremental_merkle_empty_def)

lemma merkle_rep_append:
  assumes "merkle_rep sha m ids" and "length ids + 1 < 2 ^ 64"
  shows "\<exists>m'. merkle_append sha m d = Inr m' \<and> merkle_rep sha m' (ids @ [d])"
proof -
  from assms obtain tl where m: "node_count m = of_nat (length ids)"
      "active_nodes m = fulls (node_hash sha) ids @ tl"
    by (auto simp: merkle_rep_def)
  have unat: "unat (of_nat (length ids) :: u64) = length ids"
    using assms(2) by (simp add: unat_of_nat)
  have "(of_nat (length ids) + 1 :: u64) = of_nat (length ids + 1)" by simp
  moreover have "(of_nat (length ids + 1) :: u64) \<noteq> 0"
    using assms(2) by (simp add: word_unat_eq_iff unat_of_nat del: of_nat_Suc)
  ultimately have "calcluate_max_depth (node_count m + 1) - 1 = int (bit_length (length ids))"
    using calcluate_max_depth [of "of_nat (length ids)"] by (simp add: m unat add.commute)
  then have depth: "nat (calcluate_max_depth (node_count m + 1) - 1) = bit_length (length ids)"
    by simp
  obtain rest tl' where loop:
      "append_loop sha (bit_length (length ids)) (of_nat (length ids)) False d
         (fulls (node_hash sha) ids @ tl) [] = Inr (hd (merkle_loop sha (ids @ [d])), rest)"
      "rest @ [hd (merkle_loop sha (ids @ [d]))] = fulls (node_hash sha) (ids @ [d]) @ tl'"
    using append_loop_full [of ids sha d tl "[]"] assms(2) by auto
  have last: "last (fulls (node_hash sha) (ids @ [d]) @ tl') = merkle sha (ids @ [d])"
    using arg_cong [OF loop(2), of last] by (simp add: merkle_def)
  have "merkle_append sha m d =
      Inr \<lparr>node_count = of_nat (length ids + 1), active_nodes = fulls (node_hash sha) (ids @ [d]) @ tl'\<rparr>"
    unfolding merkle_append_def Let_def depth by (simp add: m loop add.commute)
  moreover have "fulls (node_hash sha) (ids @ [d]) @ tl' \<noteq> []"
    using arg_cong [OF loop(2), of length] by auto
  then have "merkle_rep sha \<lparr>node_count = of_nat (length ids + 1),
      active_nodes = fulls (node_hash sha) (ids @ [d]) @ tl'\<rparr> (ids @ [d])"
    unfolding merkle_rep_def using assms(2) last by (intro conjI impI exI [of _ tl']) simp_all
  ultimately show ?thesis by (intro exI conjI)
qed

lemma merkle_rep_root: "merkle_rep sha m ids \<Longrightarrow> get_root m = Inr (merkle sha ids)"
  by (cases "ids = []")
    (auto simp: merkle_rep_def get_root_def merkle_def word_less_nat_alt unat_of_nat)

section \<open>The contract of a root accumulator\<close>

text \<open>What a block header relies on: elements are appended one at a time, and at every moment the
  root is the one the batch function gives for all elements appended so far. \<open>cap\<close> is the number of
  elements the counter can tell apart.\<close>

locale root_accumulator =
  fixes empty :: 'm
    and app :: "'m \<Rightarrow> 'd \<Rightarrow> 'm result"
    and root :: "'m \<Rightarrow> 'd result"
    and rep :: "'m \<Rightarrow> 'd list \<Rightarrow> bool"
    and batch :: "'d list \<Rightarrow> 'd"
    and cap :: nat
  assumes rep_empty: "rep empty []"
    and rep_app: "rep m ds \<Longrightarrow> length ds + 1 < cap \<Longrightarrow>
      \<exists>m'. app m d = Inr m' \<and> rep m' (ds @ [d])"
    and rep_root: "rep m ds \<Longrightarrow> root m = Inr (batch ds)"
begin

lemma rep_extend:
  "rep m ds \<Longrightarrow> length ds + length es < cap \<Longrightarrow>
     \<exists>m'. rfold (\<lambda>d m. app m d) es m = Inr m' \<and> rep m' (ds @ es)"
proof (induction es arbitrary: m ds)
  case (Cons e es)
  then obtain m1 where "app m e = Inr m1" "rep m1 (ds @ [e])"
    using rep_app [of m ds e] by auto
  then show ?case using Cons.IH [of m1 "ds @ [e]"] Cons.prems by simp
qed simp

lemma root_of_all:
  "length ds < cap \<Longrightarrow>
     \<exists>m. rfold (\<lambda>d m. app m d) ds empty = Inr m \<and> rep m ds \<and> root m = Inr (batch ds)"
  using rep_extend [OF rep_empty, of ds] rep_root by auto

end

interpretation merkle_acc: root_accumulator incremental_merkle_empty "merkle_append sha" get_root
    "merkle_rep sha" "merkle sha" "2 ^ 64" for sha
  using merkle_rep_empty merkle_rep_append merkle_rep_root by unfold_locales auto

section \<open>Properties\<close>

lemma canonical_sides:
  "is_canonical_left (make_canonical_left d)" "is_canonical_right (make_canonical_right d)"
proof -
  have "(w AND 0xFFFFFFFFFFFFFF7F) AND 0x80 = (0 :: u64)" for w
    by (simp add: and.assoc)
  then show "is_canonical_left (make_canonical_left d)"
    by (simp add: is_canonical_left_def make_canonical_left_def)
  have absorb: "(w OR m) AND m = m" for w m :: u64
    by (rule bit_word_eqI) (auto simp: bit_and_iff bit_or_iff)
  have "(w OR 0x80) AND 0x80 \<noteq> (0 :: u64)" for w
    by (simp only: absorb) simp
  then show "is_canonical_right (make_canonical_right d)"
    by (simp add: is_canonical_right_def make_canonical_right_def)
qed

text \<open>
  C3. The incremental Merkle tree agrees with the batch algorithm: appending any list of fewer than
  \<open>2\<^sup>6\<^sup>4\<close> digests one by one to an empty tree never reads past the stored active nodes, and the root
  it then reports is \<^verbatim>\<open>merkle\<close> of the whole list, whatever the pair hash is.
\<close>

theorem incremental_merkle_root:
  assumes "length ids < 2 ^ 64"
  shows "\<exists>m. rfold (\<lambda>d m. merkle_append sha m d) ids incremental_merkle_empty = Inr m \<and>
    get_root m = Inr (merkle sha ids)"
  using merkle_acc.root_of_all [OF assms, of sha] by blast

theorem incremental_merkle_root_witness:
  "\<exists>m. rfold (\<lambda>d m. merkle_append (\<lambda>(l, r). Digest (hash0 l + 2 * hash0 r) 1 2 3) m d)
       [Digest 5 0 0 0, Digest 6 0 0 0, Digest 7 0 0 0] incremental_merkle_empty = Inr m \<and>
     get_root m = Inr (merkle (\<lambda>(l, r). Digest (hash0 l + 2 * hash0 r) 1 2 3)
       [Digest 5 0 0 0, Digest 6 0 0 0, Digest 7 0 0 0])"
  by (rule incremental_merkle_root) simp

end
