(* ===== verification/Flat_Map.thy ===== *)
theory Flat_Map
  imports Chain_Prelude
begin

text \<open>
  \<^verbatim>\<open>boost::container::flat_map\<close> and \<^verbatim>\<open>std::map\<close> as the chain uses them: the list of the entries in key
  order. The locale \<open>map_adt\<close> is the contract the clients rely on; it is interpreted on the sorted
  lists at the end.
\<close>

type_synonym ('k, 'v) flat_map = "('k \<times> 'v) list"

definition fm_wf :: "('k::linorder, 'v) flat_map \<Rightarrow> bool" where
  "fm_wf m = sorted_wrt (<) (map fst m)"

definition fm_find :: "('k, 'v) flat_map \<Rightarrow> 'k \<Rightarrow> 'v option" where
  "fm_find m k = map_of m k"

fun fm_set :: "('k::linorder, 'v) flat_map \<Rightarrow> 'k \<Rightarrow> 'v \<Rightarrow> ('k, 'v) flat_map" where
  "fm_set [] k v = [(k, v)]"
| "fm_set ((k', v') # m) k v =
     (if k < k' then (k, v) # (k', v') # m
      else if k = k' then (k, v) # m
      else (k', v') # fm_set m k v)"

definition fm_erase :: "('k, 'v) flat_map \<Rightarrow> 'k \<Rightarrow> ('k, 'v) flat_map" where
  "fm_erase m k = filter (\<lambda>e. fst e \<noteq> k) m"

section \<open>The contract of a map\<close>

locale map_adt =
  fixes empty :: 'm
    and find :: "'m \<Rightarrow> 'k \<Rightarrow> 'v option"
    and upd :: "'m \<Rightarrow> 'k \<Rightarrow> 'v \<Rightarrow> 'm"
    and del :: "'m \<Rightarrow> 'k \<Rightarrow> 'm"
    and wf :: "'m \<Rightarrow> bool"
  assumes wf_empty: "wf empty"
    and wf_upd: "wf m \<Longrightarrow> wf (upd m k v)"
    and wf_del: "wf m \<Longrightarrow> wf (del m k)"
    and find_empty: "find empty k = None"
    and find_upd: "wf m \<Longrightarrow> find (upd m k v) k' = (if k' = k then Some v else find m k')"
    and find_del: "wf m \<Longrightarrow> find (del m k) k' = (if k' = k then None else find m k')"
begin

text \<open>A map built by one pass that writes \<open>g\<close> of its key under the key of each element.\<close>

lemma wf_build: "wf m \<Longrightarrow> wf (fold (\<lambda>x m. upd m (key x) (g (key x))) xs m)"
  by (induction xs arbitrary: m) (auto simp: wf_upd)

lemma find_build:
  "wf m \<Longrightarrow> find (fold (\<lambda>x m. upd m (key x) (g (key x))) xs m) k =
     (if k \<in> key ` set xs then Some (g k) else find m k)"
  by (induction xs arbitrary: m) (auto simp: wf_upd find_upd)

text \<open>Writing a key twice is writing it once, and writes under different keys commute, as far as
  \<open>find\<close> can tell.\<close>

lemma upd_twice: "wf m \<Longrightarrow> find (upd (upd m k v) k w) = find (upd m k w)"
  by (rule ext) (simp add: wf_upd find_upd)

lemma del_upd: "wf m \<Longrightarrow> find m k = None \<Longrightarrow> find (del (upd m k v) k) = find m"
  by (rule ext) (simp add: wf_upd find_upd find_del)

end

section \<open>Sorted lists keep the contract\<close>

lemma fm_set_keys: "set (map fst (fm_set m k v)) = insert k (set (map fst m))"
  by (induction m k v rule: fm_set.induct) auto

lemma fm_wf_Nil [simp]: "fm_wf []"
  by (simp add: fm_wf_def)

lemma fm_wf_Cons: "fm_wf ((k, v) # m) \<longleftrightarrow> (\<forall>k' \<in> fst ` set m. k < k') \<and> fm_wf m"
  by (simp add: fm_wf_def)

lemma fm_wf_set: "fm_wf m \<Longrightarrow> fm_wf (fm_set m k v)"
  by (induction m k v rule: fm_set.induct)
    (auto simp: fm_wf_def fm_set_keys simp del: set_map)

lemma fm_wf_erase: "fm_wf m \<Longrightarrow> fm_wf (fm_erase m k)"
  by (simp add: fm_wf_def fm_erase_def sorted_wrt_map sorted_wrt_filter)

lemma fm_wf_distinct: "fm_wf m \<Longrightarrow> distinct (map fst m)"
  unfolding fm_wf_def using strict_sorted_iff by blast

lemma fm_find_Nil [simp]: "fm_find [] k = None"
  by (simp add: fm_find_def)

lemma fm_find_set [simp]: "fm_find (fm_set m k v) k' = (if k' = k then Some v else fm_find m k')"
  by (induction m k v rule: fm_set.induct) (auto simp: fm_find_def)

lemma fm_find_erase [simp]: "fm_find (fm_erase m k) k' = (if k' = k then None else fm_find m k')"
  by (induction m) (auto simp: fm_find_def fm_erase_def)

lemma fm_find_SomeD: "fm_find m k = Some v \<Longrightarrow> (k, v) \<in> set m"
  by (simp add: fm_find_def map_of_SomeD)

lemma fm_find_Some_iff: "fm_wf m \<Longrightarrow> fm_find m k = Some v \<longleftrightarrow> (k, v) \<in> set m"
  by (simp add: fm_find_def fm_wf_distinct)

lemma fm_find_None_iff: "fm_find m k = None \<longleftrightarrow> k \<notin> fst ` set m"
  by (simp add: fm_find_def map_of_eq_None_iff)

lemma length_fm_set_new: "k \<notin> fst ` set m \<Longrightarrow> length (fm_set m k v) = length m + 1"
  by (induction m k v rule: fm_set.induct) auto

interpretation fm: map_adt "[]" fm_find fm_set fm_erase fm_wf
  by unfold_locales (simp_all add: fm_wf_set fm_wf_erase)

section \<open>Rows of a database table\<close>

text \<open>
  A chainbase table is kept as the map from its unique key to the row. \<^verbatim>\<open>get\<close> of a missing row and
  \<^verbatim>\<open>create\<close> of a second row with the same key throw, as chainbase documents.
\<close>

definition row_get :: "('k, 'v) flat_map \<Rightarrow> 'k \<Rightarrow> 'v result" where
  "row_get m k = (case fm_find m k of None \<Rightarrow> Inl (Other_exception ''out_of_range'') | Some v \<Rightarrow> Inr v)"

definition row_create :: "('k::linorder, 'v) flat_map \<Rightarrow> 'k \<Rightarrow> 'v \<Rightarrow> ('k, 'v) flat_map result" where
  "row_create m k v =
     (case fm_find m k of None \<Rightarrow> Inr (fm_set m k v) | Some _ \<Rightarrow> Inl (Other_exception ''logic_error''))"

lemma row_get_Inr [simp]: "row_get m k = Inr v \<longleftrightarrow> fm_find m k = Some v"
  by (simp add: row_get_def split: option.split)

lemma row_create_Inr [simp]: "row_create m k v = Inr m' \<longleftrightarrow> fm_find m k = None \<and> m' = fm_set m k v"
  by (auto simp: row_create_def split: option.split)

end
