(* ===== verification/Block_Header.thy ===== *)
theory Block_Header
  imports Names Block_Time Merkle Flat_Map
begin

text \<open>
  Producer schedules, block headers with their identifiers and extensions, and the set of activated
  protocol features that a header extends (\<^verbatim>\<open>producer_schedule.hpp\<close>, \<^verbatim>\<open>block_header.hpp\<close>,
  \<^verbatim>\<open>block_header.cpp\<close>, \<^verbatim>\<open>protocol_feature_activation.cpp\<close>).
\<close>

section \<open>Model\<close>

record producer_key =
  producer_name :: account_name
  pk_signing_key :: public_key_type

record producer_schedule_type =
  sched_version :: u32
  producers :: "producer_key list"

fun get_producer_key_loop :: "producer_key list \<Rightarrow> account_name \<Rightarrow> public_key_type" where
  "get_producer_key_loop [] p = []"
| "get_producer_key_loop (i # is) p =
     (if producer_name i = p then pk_signing_key i else get_producer_key_loop is p)"

definition get_producer_key :: "producer_schedule_type \<Rightarrow> account_name \<Rightarrow> public_key_type" where
  "get_producer_key s p = get_producer_key_loop (producers s) p"

text \<open>\<^verbatim>\<open>operator==\<close> on schedules compares the versions, the sizes and then key by key.\<close>

definition schedule_eq :: "producer_schedule_type \<Rightarrow> producer_schedule_type \<Rightarrow> bool" where
  "schedule_eq a b \<longleftrightarrow>
     sched_version a = sched_version b \<and> length (producers a) = length (producers b) \<and>
     (\<forall>i \<in> set [0..<length (producers a)].
        producer_name (producers a ! i) = producer_name (producers b ! i) \<and>
        pk_signing_key (producers a ! i) = pk_signing_key (producers b ! i))"

record block_header =
  timestamp :: block_timestamp_type
  producer :: account_name
  confirmed :: u16
  previous :: block_id_type
  transaction_mroot :: digest
  action_mroot :: digest
  schedule_version :: u32
  new_producers :: "producer_schedule_type option"
  header_extensions :: "(u16 \<times> bytes) list"

record signed_block_header = block_header +
  producer_signature :: signature_type

text \<open>
  The fc functions a header goes through: SHA-256 of a packed pair of digests, of a packed header and
  of a packed schedule, the byte swap of 32 bits, key recovery from a signature (the flag asks for the
  canonical form; \<open>default_check_canonical\<close> is the flag where the call leaves it out) and the packing
  of a feature activation extension.
\<close>

record header_env =
  sha_pair :: pair_hash
  hash_header :: "block_header \<Rightarrow> digest"
  hash_schedule :: "producer_schedule_type \<Rightarrow> digest"
  endian_reverse_u32 :: "u32 \<Rightarrow> u32"
  recover_key :: "signature_type \<Rightarrow> digest \<Rightarrow> bool \<Rightarrow> public_key_type result"
  default_check_canonical :: bool
  pack_pfa :: "digest list \<Rightarrow> bytes"
  unpack_pfa :: "bytes \<Rightarrow> digest list result"

definition num_from_id :: "header_env \<Rightarrow> block_id_type \<Rightarrow> u32" where
  "num_from_id env d = endian_reverse_u32 env (ucast (hash0 d))"

definition header_block_num :: "header_env \<Rightarrow> 'a block_header_scheme \<Rightarrow> u32" where
  "header_block_num env h = num_from_id env (previous h) + 1"

definition header_digest :: "header_env \<Rightarrow> 'a block_header_scheme \<Rightarrow> digest" where
  "header_digest env h = hash_header env (block_header.truncate h)"

definition header_id :: "header_env \<Rightarrow> 'a block_header_scheme \<Rightarrow> block_id_type" where
  "header_id env h =
     (let r = header_digest env h
      in Digest ((hash0 r AND 0xffffffff00000000) +
                 ucast (endian_reverse_u32 env (header_block_num env h)))
           (hash1 r) (hash2 r) (hash3 r))"

text \<open>\<^verbatim>\<open>reflector_init\<close> runs when the extension is unpacked.\<close>

fun pfa_repeats :: "digest list \<Rightarrow> digest set \<Rightarrow> unit result" where
  "pfa_repeats [] s = Inr ()"
| "pfa_repeats (d # ds) s =
     eos_assert (d \<notin> s) Ill_formed_protocol_feature_activation (pfa_repeats ds (insert d s))"

definition reflector_init :: "digest list \<Rightarrow> unit result" where
  "reflector_init pfs =
     eos_assert (0 < length pfs) Ill_formed_protocol_feature_activation (pfa_repeats pfs {})"

definition pfa_extension_id :: u16 where "pfa_extension_id = 0"
definition pfa_enforce_unique :: bool where "pfa_enforce_unique = True"

text \<open>\<open>extract_ext\<close> is \<^verbatim>\<open>decompose_t::extract\<close> for the one known extension type: the value and
  \<^verbatim>\<open>enforce_unique\<close>, or no match.\<close>

definition extract_ext :: "header_env \<Rightarrow> u16 \<Rightarrow> bytes \<Rightarrow> (digest list \<times> bool) option result" where
  "extract_ext env i data =
     (if i = pfa_extension_id
      then rbind (unpack_pfa env data) (\<lambda>pfs.
           rbind (reflector_init pfs) (\<lambda>_. Inr (Some (pfs, pfa_enforce_unique))))
      else Inr None)"

fun extensions_loop ::
  "header_env \<Rightarrow> nat \<Rightarrow> u16 \<Rightarrow> (u16 \<times> bytes) list \<Rightarrow> digest list list \<Rightarrow> digest list list result" where
  "extensions_loop env i lower [] results = Inr results"
| "extensions_loop env i lower ((eid, data) # es) results =
     eos_assert (lower \<le> eid) Invalid_block_header_extension
       (rbind (extract_ext env eid data) (\<lambda>mt.
          case mt of
            None \<Rightarrow> Inl Invalid_block_header_extension
          | Some (pfs, enforce_unique) \<Rightarrow>
              eos_assert (enforce_unique \<longrightarrow> i = 0 \<or> lower < eid) Invalid_block_header_extension
                (extensions_loop env (i + 1) eid es (results @ [pfs]))))"

definition validate_and_extract_header_extensions ::
  "header_env \<Rightarrow> 'a block_header_scheme \<Rightarrow> digest list list result" where
  "validate_and_extract_header_extensions env h = extensions_loop env 0 0 (header_extensions h) []"

text \<open>\<^verbatim>\<open>std::set_union\<close> of two sorted ranges; the result goes into a \<^verbatim>\<open>flat_set\<close>. The order of a
  \<^verbatim>\<open>flat_set\<close> of digests is the one of fc; the linear order of \<^typ>\<open>digest\<close> stands for it.\<close>

fun set_union :: "'a::linorder list \<Rightarrow> 'a list \<Rightarrow> 'a list" where
  "set_union [] ys = ys"
| "set_union xs [] = xs"
| "set_union (x # xs) (y # ys) =
     (if x < y then x # set_union xs (y # ys)
      else if y < x then y # set_union (x # xs) ys
      else x # set_union xs ys)"

definition protocol_feature_activation_set ::
  "digest list \<Rightarrow> digest list \<Rightarrow> bool \<Rightarrow> digest list result" where
  "protocol_feature_activation_set orig additional enforce_disjoint =
     (let s2 = sort additional;
          expected_size = length orig + length s2;
          pfs = remdups_adj (set_union orig s2)
      in eos_assert (\<not> enforce_disjoint \<or> length pfs = expected_size) Invalid_block_header_extension
           (Inr pfs))"

section \<open>Schedules\<close>

lemma schedule_eq_iff: "schedule_eq a b \<longleftrightarrow> a = b" for a b :: producer_schedule_type
  by (cases a; cases b) (auto simp: schedule_eq_def intro!: nth_equalityI)

lemma get_producer_key_member:
  "distinct (map producer_name (producers s)) \<Longrightarrow> k \<in> set (producers s) \<Longrightarrow>
     get_producer_key s (producer_name k) = pk_signing_key k"
proof -
  have "distinct (map producer_name ks) \<Longrightarrow> k \<in> set ks \<Longrightarrow>
      get_producer_key_loop ks (producer_name k) = pk_signing_key k" for ks
    by (induction ks "producer_name k" rule: get_producer_key_loop.induct) (auto simp: image_iff)
  then show "distinct (map producer_name (producers s)) \<Longrightarrow> k \<in> set (producers s) \<Longrightarrow>
     get_producer_key s (producer_name k) = pk_signing_key k"
    by (simp add: get_producer_key_def)
qed

section \<open>Extensions\<close>

lemma pfa_repeats_Inr: "pfa_repeats ds s = Inr () \<longleftrightarrow> distinct ds \<and> set ds \<inter> s = {}"
  by (induction ds arbitrary: s) (auto simp: result_simps)

lemma reflector_init_Inr: "reflector_init pfs = Inr () \<longleftrightarrow> pfs \<noteq> [] \<and> distinct pfs"
  by (simp add: reflector_init_def result_simps pfa_repeats_Inr)

lemma set_set_union: "set (set_union xs ys) = set xs \<union> set ys"
  by (induction xs ys rule: set_union.induct) auto

lemma sorted_set_union: "sorted xs \<Longrightarrow> sorted ys \<Longrightarrow> sorted (set_union xs ys)"
  by (induction xs ys rule: set_union.induct) (auto simp: set_set_union)

lemma distinct_remdups_adj_sorted:
  "sorted (xs :: 'a::linorder list) \<Longrightarrow> distinct (remdups_adj xs)"
  by (induction xs rule: remdups_adj.induct) force+

lemma remdups_adj_sorted_list:
  fixes xs :: "'a::linorder list"
  assumes "sorted xs"
  shows "remdups_adj xs = sorted_list_of_set (set xs)"
  using assms
  by (intro sorted_distinct_set_unique)
    (simp_all add: sorted_remdups_adj distinct_remdups_adj_sorted)

lemma card_union_sizes:
  assumes "distinct xs"
  shows "card (set xs \<union> set ys) = length xs + length ys \<longleftrightarrow> distinct ys \<and> set ys \<inter> set xs = {}"
proof -
  have x: "card (set xs) = length xs" using assms by (rule distinct_card)
  have "card (set xs \<union> set ys) + card (set xs \<inter> set ys) = length xs + card (set ys)"
    using card_Un_Int [of "set xs" "set ys"] x by simp
  moreover have "card (set ys) \<le> length ys" by (rule card_length)
  ultimately have "card (set xs \<union> set ys) = length xs + length ys \<longleftrightarrow>
      card (set ys) = length ys \<and> card (set xs \<inter> set ys) = 0" by linarith
  also have "\<dots> \<longleftrightarrow> distinct ys \<and> set ys \<inter> set xs = {}"
    using card_distinct [of ys] distinct_card [of ys] by auto
  finally show ?thesis .
qed

lemma protocol_feature_activation_set_eq:
  assumes "sorted orig" "distinct orig"
  shows "protocol_feature_activation_set orig additional True =
    (if distinct additional \<and> set additional \<inter> set orig = {}
     then Inr (sorted_list_of_set (set orig \<union> set additional))
     else Inl Invalid_block_header_extension)"
proof -
  have "remdups_adj (set_union orig (sort additional)) = sorted_list_of_set (set orig \<union> set additional)"
    using assms by (simp add: remdups_adj_sorted_list sorted_set_union set_set_union)
  then show ?thesis
    using card_union_sizes [OF assms(2), of additional]
    by (auto simp: protocol_feature_activation_set_def Let_def eos_assert_def)
qed

lemma extensions_loop_Inr:
  "extensions_loop env 0 0 es [] = Inr rs \<longleftrightarrow>
     es = [] \<and> rs = [] \<or>
     (\<exists>data pfs. es = [(pfa_extension_id, data)] \<and> unpack_pfa env data = Inr pfs \<and>
        pfs \<noteq> [] \<and> distinct pfs \<and> rs = [pfs])"
proof (cases es)
  case (Cons e es')
  obtain eid data where e: "e = (eid, data)" by force
  show ?thesis
  proof (cases es')
    case Nil
    then show ?thesis
      using Cons e
      by (auto simp: result_simps extract_ext_def reflector_init_Inr split: option.splits if_splits)
  next
    case (Cons e' es'')
    then show ?thesis
      using \<open>es = e # es'\<close> e
      by (cases e') (auto simp: result_simps extract_ext_def pfa_enforce_unique_def
          pfa_extension_id_def split: option.splits if_splits)
  qed
qed auto

section \<open>Block identifiers\<close>

lemma bit_high_mask: "bit (0xffffffff00000000 :: u64) k \<longleftrightarrow> 32 \<le> k \<and> k < 64"
proof -
  have "(0xffffffff00000000 :: u64) = push_bit 32 (mask 32)"
    by (simp add: mask_eq_exp_minus_1 push_bit_eq_mult)
  then show ?thesis by (auto simp only: bit_push_bit_iff bit_mask_iff) auto
qed

lemma ucast_high_plus_low:
  "ucast ((w AND 0xffffffff00000000) + ucast n :: u64) = (n :: u32)"
proof -
  have "(w AND 0xffffffff00000000) + ucast n = (w AND 0xffffffff00000000) OR (ucast n :: u64)"
  proof (rule disjunctive_add)
    fix k
    show "\<not> bit (w AND 0xffffffff00000000) k \<or> \<not> bit (ucast n :: u64) k"
      using bit_high_mask [of k] bit_imp_le_length [of n k]
      by (auto simp: bit_and_iff bit_unsigned_iff)
  qed
  moreover have "bit (ucast ((w AND 0xffffffff00000000) OR ucast n :: u64) :: u32) k = bit n k"
    if "k < 32" for k
    using that bit_high_mask [of k] by (simp add: bit_unsigned_iff bit_or_iff bit_and_iff)
  ultimately show ?thesis by (intro bit_word_eqI) simp
qed

text \<open>The byte swap that fc documents, for the instances below.\<close>

definition bswap32 :: "u32 \<Rightarrow> u32" where
  "bswap32 n = push_bit 24 (take_bit 8 n) OR push_bit 16 (take_bit 8 (drop_bit 8 n)) OR
     push_bit 8 (take_bit 8 (drop_bit 16 n)) OR drop_bit 24 n"

lemma bit_bswap32:
  "k < 32 \<Longrightarrow> bit (bswap32 n) k \<longleftrightarrow>
     bit n (if k < 8 then k + 24 else if k < 16 then k + 8 else if k < 24 then k - 8 else k - 24)"
  by (auto simp: bswap32_def bit_simps add.commute dest: bit_imp_le_length)

lemma bswap32_involutive: "bswap32 (bswap32 n) = n"
  by (rule bit_word_eqI) (auto simp: bit_bswap32)

section \<open>Properties\<close>

text \<open>
  C34. The identifier of a header carries its block number: \<^verbatim>\<open>num_from_id(h.id())\<close> is \<^verbatim>\<open>h.block_num()\<close>,
  one more than the number carried by \<^verbatim>\<open>previous\<close>. The only fact used of fc is that swapping the
  bytes of a 32-bit value twice gives it back; the header hash is arbitrary.
\<close>

theorem header_id_carries_block_num:
  assumes "\<And>n. endian_reverse_u32 env (endian_reverse_u32 env n) = n"
  shows "num_from_id env (header_id env h) = num_from_id env (previous h) + 1"
  by (simp add: num_from_id_def header_id_def Let_def ucast_high_plus_low assms header_block_num_def)

theorem header_id_carries_block_num_witness:
  "\<exists>env (h :: block_header). endian_reverse_u32 env = bswap32 \<and> num_from_id env (previous h) = 41 \<and>
     num_from_id env (header_id env h) = 42"
proof (intro exI conjI)
  let ?env = "\<lparr>sha_pair = fst, hash_header = (\<lambda>_. Digest 7 8 9 10), hash_schedule = (\<lambda>_. digest_zero),
    endian_reverse_u32 = bswap32, recover_key = (\<lambda>s _ _. Inr s),
    default_check_canonical = True, pack_pfa = (\<lambda>_. []),
    unpack_pfa = (\<lambda>_. Inr [])\<rparr>"
  let ?h = "\<lparr>timestamp = 1, producer = 2, confirmed = 0, previous = Digest (41 * 2 ^ 24) 0 0 0,
    transaction_mroot = digest_zero, action_mroot = digest_zero, schedule_version = 0,
    new_producers = None, header_extensions = []\<rparr>"
  show "endian_reverse_u32 ?env = bswap32" by simp
  show n: "num_from_id ?env (previous ?h) = 41"
    by (simp add: num_from_id_def bswap32_def)
  have "num_from_id ?env (header_id ?env ?h) = num_from_id ?env (previous ?h) + 1"
    by (rule header_id_carries_block_num) (simp add: bswap32_involutive)
  then show "num_from_id ?env (header_id ?env ?h) = 42" unfolding n by simp
qed

text \<open>
  Header extensions are accepted exactly when there are none, or when there is one, with the
  identifier of a protocol feature activation, whose payload unpacks to a non-empty list of distinct
  digests; the list extracted is then that one. Everything else is refused.
\<close>

lemma header_extensions_accepted:
  "validate_and_extract_header_extensions env h = Inr rs \<longleftrightarrow>
     header_extensions h = [] \<and> rs = [] \<or>
     (\<exists>data pfs. header_extensions h = [(pfa_extension_id, data)] \<and> unpack_pfa env data = Inr pfs \<and>
        pfs \<noteq> [] \<and> distinct pfs \<and> rs = [pfs])"
  unfolding validate_and_extract_header_extensions_def by (rule extensions_loop_Inr)

end
