(* ===== verification/Header_State.thy ===== *)
theory Header_State
  imports Block_Header
begin

text \<open>
  The header state machine (\<^verbatim>\<open>block_header_state.hpp\<close>, \<^verbatim>\<open>block_header_state.cpp\<close>): which producer may
  sign the next block, how confirmations make a block number proposed irreversible and then
  irreversible, and how a pending producer schedule becomes the active one.
\<close>

section \<open>Model\<close>

definition producer_repetitions :: nat where "producer_repetitions = 12"
definition max_producers :: nat where "max_producers = 125"
definition maximum_tracked_dpos_confirmations :: nat where
  "maximum_tracked_dpos_confirmations = 1024"

record schedule_info =
  schedule_lib_num :: u32
  schedule_hash :: digest
  schedule :: producer_schedule_type

record block_header_state_common =
  block_num :: u32
  dpos_proposed_irreversible_blocknum :: u32
  dpos_irreversible_blocknum :: u32
  active_schedule :: producer_schedule_type
  blockroot_merkle :: incremental_merkle
  producer_to_last_produced :: "(account_name, u32) flat_map"
  producer_to_last_implied_irb :: "(account_name, u32) flat_map"
  block_signing_key :: public_key_type
  confirm_count :: "u8 list"

record pending_block_header_state = block_header_state_common +
  prev_activated_protocol_features :: "digest list"
  prev_pending_schedule :: schedule_info
  was_pending_promoted :: bool
  p_previous :: block_id_type
  p_producer :: account_name
  p_timestamp :: block_timestamp_type
  active_schedule_version :: u32
  p_confirmed :: u16

record block_header_state = block_header_state_common +
  bhs_id :: block_id_type
  header :: signed_block_header
  pending_schedule :: schedule_info
  activated_protocol_features :: "digest list"
  header_exts :: "digest list list"

definition has_pending_producers :: "block_header_state \<Rightarrow> bool" where
  "has_pending_producers s \<longleftrightarrow> length (producers (schedule (pending_schedule s))) \<noteq> 0"

definition is_active_producer :: "block_header_state \<Rightarrow> account_name \<Rightarrow> bool" where
  "is_active_producer s n \<longleftrightarrow> fm_find (producer_to_last_produced s) n \<noteq> None"

definition get_scheduled_producer ::
  "block_header_state \<Rightarrow> block_timestamp_type \<Rightarrow> producer_key result" where
  "get_scheduled_producer s t =
     (let ps = producers (active_schedule s); m = length ps * producer_repetitions
      in eos_assert (m \<noteq> 0) Undefined_behaviour
           (Inr (ps ! (unat t mod m div producer_repetitions))))"

text \<open>The vector of block numbers that \<^verbatim>\<open>calc_dpos_last_irreversible\<close> selects from.\<close>

definition implied_irb_with ::
  "'a block_header_state_common_scheme \<Rightarrow> account_name \<Rightarrow> u32 list" where
  "implied_irb_with s p =
     map (\<lambda>(n, b). if n = p then dpos_proposed_irreversible_blocknum s else b)
       (producer_to_last_implied_irb s)"

definition calc_dpos_last_irreversible :: "block_header_state \<Rightarrow> account_name \<Rightarrow> u32" where
  "calc_dpos_last_irreversible s producer_of_next_block =
     (let blocknums = implied_irb_with s producer_of_next_block
      in if length blocknums = 0 then 0
         else sort blocknums ! ((length blocknums - 1) div 3))"

definition grow_confirm_count :: "u8 list \<Rightarrow> u32 \<Rightarrow> u8 list" where
  "grow_confirm_count cc required_confs =
     (if length cc < maximum_tracked_dpos_confirmations then cc @ [ucast required_confs]
      else tl cc @ [ucast required_confs])"

text \<open>The loop that confirms blocks from the newest down; the first argument is \<^verbatim>\<open>result.block_num\<close>, the
  second is \<^verbatim>\<open>i + 1\<close>. It ends with the confirmation counts and the proposed block number.\<close>

fun confirm_loop :: "u32 \<Rightarrow> nat \<Rightarrow> nat \<Rightarrow> u8 list \<Rightarrow> u32 \<Rightarrow> u8 list \<times> u32" where
  "confirm_loop bn 0 blocks_to_confirm cc proposed = (cc, proposed)"
| "confirm_loop bn (Suc i) 0 cc proposed = (cc, proposed)"
| "confirm_loop bn (Suc i) (Suc blocks_to_confirm) cc proposed =
     (let cc' = cc[i := cc ! i - 1]
      in if cc' ! i = 0 then (drop (i + 1) cc', bn - of_nat (length cc' - 1 - i))
         else confirm_loop bn i blocks_to_confirm cc' proposed)"

definition apply_confirmations :: "block_header_state \<Rightarrow> u16 \<Rightarrow> u8 list \<times> u32" where
  "apply_confirmations s num_prev_blocks_to_confirm =
     (let num_active_producers = length (producers (active_schedule s));
          required_confs = (of_nat (num_active_producers * 2 div 3) + 1 :: u32);
          cc = grow_confirm_count (confirm_count s) required_confs;
          blocks_to_confirm = unat num_prev_blocks_to_confirm + 1
      in confirm_loop (block_num s + 1) (length cc) blocks_to_confirm cc
           (dpos_proposed_irreversible_blocknum s))"

text \<open>The two maps of the branch that promotes the pending schedule.\<close>

definition promoted_last_produced ::
  "block_header_state \<Rightarrow> producer_schedule_type \<Rightarrow> account_name \<Rightarrow> u32 \<Rightarrow> u32 \<Rightarrow>
     (account_name, u32) flat_map" where
  "promoted_last_produced s sched p bn lib =
     fm_set
       (fold (\<lambda>pro m. fm_set m (producer_name pro)
          (if producer_name pro = p then bn
           else case fm_find (producer_to_last_produced s) (producer_name pro) of
                  Some b \<Rightarrow> b | None \<Rightarrow> lib)) (producers sched) [])
       p bn"

definition promoted_implied_irb ::
  "block_header_state \<Rightarrow> producer_schedule_type \<Rightarrow> account_name \<Rightarrow> u32 \<Rightarrow>
     (account_name, u32) flat_map" where
  "promoted_implied_irb s sched p lib =
     fold (\<lambda>pro m. fm_set m (producer_name pro)
        (if producer_name pro = p then dpos_proposed_irreversible_blocknum s
         else case fm_find (producer_to_last_implied_irb s) (producer_name pro) of
                Some b \<Rightarrow> b | None \<Rightarrow> lib)) (producers sched) []"

text \<open>\<^verbatim>\<open>block_header_state::next(when, num_prev_blocks_to_confirm)\<close>.\<close>

definition next_pending ::
  "header_env \<Rightarrow> block_header_state \<Rightarrow> block_timestamp_type \<Rightarrow> u16 \<Rightarrow>
     pending_block_header_state result" where
  "next_pending env s when0 num_prev_blocks_to_confirm =
     rbind (if when0 \<noteq> 0
            then eos_assert (timestamp (header s) < when0) Block_validate_exception (Inr when0)
            else Inr (timestamp (header s) + 1)) (\<lambda>when.
     rbind (get_scheduled_producer s when) (\<lambda>prokey.
     eos_assert
       (case fm_find (producer_to_last_produced s) (producer_name prokey) of
          Some b \<Rightarrow> b < (block_num s + 1) - ucast num_prev_blocks_to_confirm
        | None \<Rightarrow> True) Producer_double_confirm
     (rbind (merkle_append (sha_pair env) (blockroot_merkle s) (bhs_id s)) (\<lambda>merkle.
      let bn = block_num s + 1;
          (cc', proposed) = apply_confirmations s num_prev_blocks_to_confirm;
          lib = calc_dpos_last_irreversible s (producer_name prokey);
          promoted = (length (producers (schedule (pending_schedule s))) \<noteq> 0 \<and>
                      schedule_lib_num (pending_schedule s) \<le> lib)
      in Inr
       \<lparr>block_num = bn,
        dpos_proposed_irreversible_blocknum = proposed,
        dpos_irreversible_blocknum = lib,
        active_schedule = (if promoted then schedule (pending_schedule s) else active_schedule s),
        blockroot_merkle = merkle,
        producer_to_last_produced =
          (if promoted
           then promoted_last_produced s (schedule (pending_schedule s)) (producer_name prokey) bn lib
           else fm_set (producer_to_last_produced s) (producer_name prokey) bn),
        producer_to_last_implied_irb =
          (if promoted
           then promoted_implied_irb s (schedule (pending_schedule s)) (producer_name prokey) lib
           else fm_set (producer_to_last_implied_irb s) (producer_name prokey)
                  (dpos_proposed_irreversible_blocknum s)),
        block_signing_key = pk_signing_key prokey,
        confirm_count = cc',
        prev_activated_protocol_features = activated_protocol_features s,
        prev_pending_schedule = pending_schedule s,
        was_pending_promoted = promoted,
        p_previous = bhs_id s,
        p_producer = producer_name prokey,
        p_timestamp = when,
        active_schedule_version = sched_version (active_schedule s),
        p_confirmed = num_prev_blocks_to_confirm\<rparr>))))"

definition make_block_header ::
  "header_env \<Rightarrow> pending_block_header_state \<Rightarrow> digest \<Rightarrow> digest \<Rightarrow> producer_schedule_type option \<Rightarrow>
     digest list \<Rightarrow> signed_block_header" where
  "make_block_header env p tmroot amroot new_prods new_pf_activations =
     \<lparr>timestamp = p_timestamp p,
      producer = p_producer p,
      confirmed = p_confirmed p,
      previous = p_previous p,
      transaction_mroot = tmroot,
      action_mroot = amroot,
      schedule_version = active_schedule_version p,
      new_producers = new_prods,
      header_extensions =
        (if 0 < length new_pf_activations
         then [(pfa_extension_id, pack_pfa env new_pf_activations)] else []),
      producer_signature = []\<rparr>"

type_synonym pf_validator = "block_timestamp_type \<Rightarrow> digest list \<Rightarrow> digest list \<Rightarrow> unit result"

definition finish_next_unsigned ::
  "header_env \<Rightarrow> pf_validator \<Rightarrow> pending_block_header_state \<Rightarrow> signed_block_header \<Rightarrow>
     block_header_state result" where
  "finish_next_unsigned env validator p h =
     eos_assert (timestamp h = p_timestamp p) Block_validate_exception (
     eos_assert (previous h = p_previous p) Unlinkable_block_exception (
     eos_assert (confirmed h = p_confirmed p) Block_validate_exception (
     eos_assert (producer h = p_producer p) Wrong_producer (
     eos_assert (schedule_version h = active_schedule_version p) Producer_schedule_exception (
     rbind (case new_producers h of
              None \<Rightarrow> Inr ()
            | Some np \<Rightarrow>
                eos_assert (\<not> was_pending_promoted p) Producer_schedule_exception (
                eos_assert (sched_version np = sched_version (active_schedule p) + 1)
                  Producer_schedule_exception (
                eos_assert (length (producers (schedule (prev_pending_schedule p))) = 0)
                  Producer_schedule_exception (Inr ())))) (\<lambda>_.
     rbind (validate_and_extract_header_extensions env h) (\<lambda>exts.
     rbind (if 0 < length exts
            then rbind (validator (p_timestamp p) (prev_activated_protocol_features p) (hd exts)) (\<lambda>_.
                 protocol_feature_activation_set (prev_activated_protocol_features p) (hd exts) True)
            else Inr (prev_activated_protocol_features p)) (\<lambda>new_activated.
     Inr (block_header_state_common.extend (block_header_state_common.truncate p)
       (block_header_state.fields
          (header_id env h)
          h
          (case new_producers h of
             Some np \<Rightarrow>
               \<lparr>schedule_lib_num = block_num p, schedule_hash = hash_schedule env np, schedule = np\<rparr>
           | None \<Rightarrow>
               \<lparr>schedule_lib_num = schedule_lib_num (prev_pending_schedule p),
                schedule_hash = schedule_hash (prev_pending_schedule p),
                schedule =
                  (if was_pending_promoted p
                   then \<lparr>sched_version = sched_version (schedule (prev_pending_schedule p)),
                         producers = []\<rparr>
                   else schedule (prev_pending_schedule p))\<rparr>)
          new_activated
          exts))))))))))"

definition sig_digest :: "header_env \<Rightarrow> block_header_state \<Rightarrow> digest result" where
  "sig_digest env s =
     rbind (get_root (blockroot_merkle s)) (\<lambda>root.
     let header_bmroot = sha_pair env (header_digest env (header s), root)
     in Inr (sha_pair env (header_bmroot, schedule_hash (pending_schedule s))))"

definition sign ::
  "header_env \<Rightarrow> (digest \<Rightarrow> signature_type) \<Rightarrow> block_header_state \<Rightarrow> block_header_state result" where
  "sign env signer s =
     rbind (sig_digest env s) (\<lambda>d.
     let sig = signer d
     in rbind (recover_key env sig d (default_check_canonical env)) (\<lambda>k.
        eos_assert (block_signing_key s = k) Wrong_signing_key
          (Inr (s\<lparr>header := (header s)\<lparr>producer_signature := sig\<rparr>\<rparr>))))"

definition signee :: "header_env \<Rightarrow> block_header_state \<Rightarrow> public_key_type result" where
  "signee env s =
     rbind (sig_digest env s) (\<lambda>d. recover_key env (producer_signature (header s)) d True)"

definition verify_signee :: "block_header_state \<Rightarrow> public_key_type \<Rightarrow> unit result" where
  "verify_signee s k = eos_assert (block_signing_key s = k) Wrong_signing_key (Inr ())"

definition finish_next ::
  "header_env \<Rightarrow> pf_validator \<Rightarrow> pending_block_header_state \<Rightarrow> signed_block_header \<Rightarrow> bool \<Rightarrow>
     block_header_state result" where
  "finish_next env validator p h skip_validate_signee =
     rbind (finish_next_unsigned env validator p h) (\<lambda>r.
     if skip_validate_signee then Inr r
     else rbind (signee env r) (\<lambda>k. rbind (verify_signee r k) (\<lambda>_. Inr r)))"

definition finish_next_sign ::
  "header_env \<Rightarrow> pf_validator \<Rightarrow> pending_block_header_state \<Rightarrow> signed_block_header \<Rightarrow>
     (digest \<Rightarrow> signature_type) \<Rightarrow> (block_header_state \<times> signed_block_header) result" where
  "finish_next_sign env validator p h signer =
     rbind (finish_next_unsigned env validator p h) (\<lambda>r.
     rbind (sign env signer r) (\<lambda>r'.
     Inr (r', h\<lparr>producer_signature := producer_signature (header r')\<rparr>)))"

text \<open>\<^verbatim>\<open>block_header_state::next(h, validator, skip_validate_signee)\<close>.\<close>

definition next_header ::
  "header_env \<Rightarrow> pf_validator \<Rightarrow> block_header_state \<Rightarrow> signed_block_header \<Rightarrow> bool \<Rightarrow>
     block_header_state result" where
  "next_header env validator s h skip_validate_signee =
     rbind (next_pending env s (timestamp h) (confirmed h)) (\<lambda>p.
     finish_next env validator p h skip_validate_signee)"

definition get_new_protocol_feature_activations :: "block_header_state \<Rightarrow> digest list" where
  "get_new_protocol_feature_activations s = (if header_exts s = [] then [] else hd (header_exts s))"

text \<open>The state of the first block (\<^verbatim>\<open>controller_impl::initialize_blockchain_state\<close>); the chain identifier
  and the initial key and time come from the genesis configuration.\<close>

definition system_account_name :: account_name where
  "system_account_name = string_to_name ''eosio''"

definition genesis_header_state ::
  "header_env \<Rightarrow> public_key_type \<Rightarrow> block_timestamp_type \<Rightarrow> digest \<Rightarrow> block_header_state" where
  "genesis_header_state env initial_key initial_timestamp chain_id =
     (let initial_schedule =
            \<lparr>sched_version = 0,
             producers = [\<lparr>producer_name = system_account_name, pk_signing_key = initial_key\<rparr>]\<rparr>;
          hdr = \<lparr>timestamp = initial_timestamp, producer = 0, confirmed = 1, previous = digest_zero,
                 transaction_mroot = digest_zero, action_mroot = chain_id, schedule_version = 0,
                 new_producers = None, header_extensions = [], producer_signature = []\<rparr>
      in \<lparr>block_num = header_block_num env hdr,
          dpos_proposed_irreversible_blocknum = 0,
          dpos_irreversible_blocknum = 0,
          active_schedule = initial_schedule,
          blockroot_merkle = incremental_merkle_empty,
          producer_to_last_produced = [],
          producer_to_last_implied_irb = [],
          block_signing_key = [],
          confirm_count = [],
          bhs_id = header_id env hdr,
          header = hdr,
          pending_schedule = \<lparr>schedule_lib_num = 0,
                              schedule_hash = hash_schedule env initial_schedule,
                              schedule = initial_schedule\<rparr>,
          activated_protocol_features = [],
          header_exts = []\<rparr>)"

section \<open>Two thirds of the producers\<close>

lemma sorted_nth_ge_iff:
  fixes ys :: "'a::linorder list"
  assumes "sorted ys" "k < length ys"
  shows "m \<le> ys ! k \<longleftrightarrow> length ys - k \<le> length (filter (\<lambda>x. m \<le> x) ys)"
proof -
  have split: "length (filter (\<lambda>x. m \<le> x) ys) =
      length (filter (\<lambda>x. m \<le> x) (take j ys)) + length (filter (\<lambda>x. m \<le> x) (drop j ys))" for j
    by (simp flip: length_append filter_append)
  show ?thesis
  proof
    assume m: "m \<le> ys ! k"
    have "\<forall>x \<in> set (drop k ys). m \<le> x"
    proof
      fix x assume "x \<in> set (drop k ys)"
      then obtain j where "j < length (drop k ys)" "x = drop k ys ! j" by (metis in_set_conv_nth)
      then have "x = ys ! (k + j)" "k + j < length ys" by simp_all
      then show "m \<le> x" using m sorted_nth_mono [OF assms(1), of k "k + j"] by simp
    qed
    then have "filter (\<lambda>x. m \<le> x) (drop k ys) = drop k ys" by (simp add: filter_id_conv)
    then show "length ys - k \<le> length (filter (\<lambda>x. m \<le> x) ys)" using split [of k] by simp
  next
    assume le: "length ys - k \<le> length (filter (\<lambda>x. m \<le> x) ys)"
    show "m \<le> ys ! k"
    proof (rule ccontr)
      assume "\<not> m \<le> ys ! k"
      then have "\<forall>x \<in> set (take (Suc k) ys). \<not> m \<le> x"
      proof (intro ballI)
        fix x assume "x \<in> set (take (Suc k) ys)"
        then obtain j where "j < length (take (Suc k) ys)" "x = take (Suc k) ys ! j"
          by (metis in_set_conv_nth)
        then have "x = ys ! j" "j \<le> k" by simp_all
        then show "\<not> m \<le> x"
          using \<open>\<not> m \<le> ys ! k\<close> sorted_nth_mono [OF assms(1) _ assms(2), of j] by auto
      qed
      then have "filter (\<lambda>x. m \<le> x) (take (Suc k) ys) = []" by (simp add: filter_empty_conv)
      then have "length (filter (\<lambda>x. m \<le> x) ys) \<le> length ys - Suc k"
        using split [of "Suc k"] length_filter_le [of "\<lambda>x. m \<le> x" "drop (Suc k) ys"] by simp
      with le assms(2) show False by linarith
    qed
  qed
qed

lemma length_filter_sort: "length (filter P (sort xs)) = length (filter P xs)"
  by (metis filter_sort length_sort)

text \<open>Element \<open>(n - 1) div 3\<close> of the sorted list is reached by more than two thirds of its \<open>n\<close>
  elements.\<close>

lemma third_element_iff:
  fixes xs :: "'a::linorder list"
  assumes "xs \<noteq> []"
  shows "m \<le> sort xs ! ((length xs - 1) div 3) \<longleftrightarrow>
    2 * length xs < 3 * length (filter (\<lambda>x. m \<le> x) xs)"
proof -
  have "0 < length xs" using assms by simp
  then have "(length xs - 1) div 3 < length xs" by linarith
  then have "m \<le> sort xs ! ((length xs - 1) div 3) \<longleftrightarrow>
      length xs - (length xs - 1) div 3 \<le> length (filter (\<lambda>x. m \<le> x) xs)"
    using sorted_nth_ge_iff [of "sort xs" "(length xs - 1) div 3" m]
    by (simp add: length_filter_sort)
  also have "\<dots> \<longleftrightarrow> 2 * length xs < 3 * length (filter (\<lambda>x. m \<le> x) xs)"
    using \<open>0 < length xs\<close> by linarith
  finally show ?thesis .
qed

lemma third_element_mem:
  assumes "xs \<noteq> []"
  shows "sort xs ! ((length xs - 1) div 3) \<in> set xs"
proof -
  have "0 < length xs" using assms by simp
  then have "(length xs - 1) div 3 < length xs" by linarith
  then have "(length xs - 1) div 3 < length (sort xs)" by (simp only: length_sort)
  then show ?thesis by (metis nth_mem set_sort)
qed

text \<open>Raising elements, or adding one above all others, does not lower that element.\<close>

lemma third_element_mono:
  fixes xs ys :: "'a::linorder list"
  assumes "list_all2 (\<le>) xs ys" "xs \<noteq> []"
  shows "sort xs ! ((length xs - 1) div 3) \<le> sort ys ! ((length ys - 1) div 3)"
proof -
  let ?m = "sort xs ! ((length xs - 1) div 3)"
  have "length (filter (\<lambda>x. m \<le> x) xs) \<le> length (filter (\<lambda>x. m \<le> x) ys)" for m
    using assms(1) by (induction rule: list_all2_induct) auto
  moreover have ys: "ys \<noteq> []" "length xs = length ys" using assms by (auto dest: list_all2_lengthD)
  moreover have "2 * length xs < 3 * length (filter (\<lambda>x. ?m \<le> x) xs)"
    using third_element_iff [OF assms(2), of ?m] by blast
  ultimately have "2 * length ys < 3 * length (filter (\<lambda>x. ?m \<le> x) ys)"
    by (metis less_le_trans mult_le_mono2)
  then show ?thesis using third_element_iff [OF ys(1), of ?m] by blast
qed

section \<open>Confirmations\<close>

text \<open>One call of the loop keeps every remaining count positive, and either leaves the proposed block
  number alone or moves it up to a block whose count reached zero.\<close>

lemma confirm_loop_props:
  assumes "confirm_loop bn i k cc proposed = (cc', proposed')"
    and "i \<le> length cc" "0 \<notin> set cc" "length cc \<le> unat bn"
    and "unat proposed + length cc \<le> unat bn"
  shows "0 \<notin> set cc' \<and> length cc' \<le> length cc \<and> unat proposed' + length cc' \<le> unat bn \<and>
    proposed \<le> proposed'"
  using assms
proof (induction bn i k cc proposed rule: confirm_loop.induct)
  case (3 bn i k cc proposed)
  let ?c = "cc[i := cc ! i - 1]"
  have i: "i < length cc" using "3.prems"(2) by simp
  show ?case
  proof (cases "?c ! i = 0")
    case True
    then have r: "cc' = drop (i + 1) cc" "proposed' = bn - of_nat (length cc - 1 - i)"
      using "3.prems"(1) i by (auto simp: Let_def)
    have n: "unat (of_nat (length cc - 1 - i) :: u32) = length cc - 1 - i"
      using "3.prems"(4) unat_bound [of bn] by (intro unat_of_nat_small) simp
    then have "of_nat (length cc - 1 - i) \<le> bn"
      using "3.prems"(4) i by (simp add: word_le_nat_alt)
    then have p: "unat proposed' = unat bn - (length cc - 1 - i)"
      unfolding r by (simp only: unat_minus_small n)
    have "0 \<notin> set cc'" using "3.prems"(3) unfolding r by (meson in_set_dropD)
    moreover have "unat proposed \<le> unat proposed'"
      using p "3.prems"(5) i by linarith
    ultimately show ?thesis
      using p r i "3.prems"(4) by (auto simp: word_le_nat_alt)
  next
    case False
    have "0 \<notin> set ?c"
      using False i "3.prems"(3) set_update_subset_insert [of cc i "cc ! i - 1"] by fastforce
    then show ?thesis
      using 3 False by (simp add: Let_def)
  qed
qed auto

lemma required_confs_nonzero:
  assumes "n \<le> max_producers"
  shows "(ucast (of_nat (n * 2 div 3) + 1 :: u32) :: u8) \<noteq> 0"
proof -
  define k where "k = n * 2 div 3"
  have b: "k \<le> 83" using assms by (simp add: max_producers_def k_def)
  have "unat (of_nat (k + 1) :: u32) = k + 1"
    by (rule unat_of_nat_small) (use b in simp)
  then have "unat (ucast (of_nat (k + 1) :: u32) :: u8) = k + 1"
    using b by (simp add: unsigned_ucast_eq take_bit_nat_eq_self del: of_nat_Suc of_nat_add)
  then show ?thesis unfolding k_def [symmetric] by (auto simp: add.commute)
qed

lemma in_tl: "x \<in> set (tl xs) \<Longrightarrow> x \<in> set xs"
  by (cases xs) auto

lemma grow_confirm_count_props:
  assumes "0 \<notin> set cc" "length cc \<le> maximum_tracked_dpos_confirmations" "r \<noteq> 0"
    and "r = (ucast required_confs :: u8)"
  shows "0 \<notin> set (grow_confirm_count cc required_confs)"
    and "length (grow_confirm_count cc required_confs) \<le> maximum_tracked_dpos_confirmations"
    and "length (grow_confirm_count cc required_confs) \<le> length cc + 1"
  using assms
  by (auto simp: grow_confirm_count_def maximum_tracked_dpos_confirmations_def dest: in_tl)

section \<open>What a step does, field by field\<close>

lemma next_pending_fields:
  assumes "next_pending env s w n = Inr p"
  shows "block_num p = block_num s + 1"
    and "w \<noteq> 0 \<Longrightarrow> timestamp (header s) < w"
    and "p_timestamp p = (if w \<noteq> 0 then w else timestamp (header s) + 1)"
    and "merkle_append (sha_pair env) (blockroot_merkle s) (bhs_id s) = Inr (blockroot_merkle p)"
    and "(confirm_count p, dpos_proposed_irreversible_blocknum p) = apply_confirmations s n"
    and "dpos_irreversible_blocknum p = calc_dpos_last_irreversible s (p_producer p)"
    and "was_pending_promoted p \<longleftrightarrow> producers (schedule (pending_schedule s)) \<noteq> [] \<and>
      schedule_lib_num (pending_schedule s) \<le> dpos_irreversible_blocknum p"
    and "prev_pending_schedule p = pending_schedule s"
    and "p_previous p = bhs_id s"
    and "p_confirmed p = n"
    and "active_schedule_version p = sched_version (active_schedule s)"
    and "prev_activated_protocol_features p = activated_protocol_features s"
    and "active_schedule p =
      (if was_pending_promoted p then schedule (pending_schedule s) else active_schedule s)"
  using assms by (auto simp: next_pending_def result_simps Let_def case_prod_beta split: if_splits)

lemma next_pending_maps:
  assumes "next_pending env s w n = Inr p"
  shows "producer_to_last_produced p =
      (if was_pending_promoted p
       then promoted_last_produced s (schedule (pending_schedule s)) (p_producer p) (block_num p)
              (dpos_irreversible_blocknum p)
       else fm_set (producer_to_last_produced s) (p_producer p) (block_num p))"
    and "producer_to_last_implied_irb p =
      (if was_pending_promoted p
       then promoted_implied_irb s (schedule (pending_schedule s)) (p_producer p)
              (dpos_irreversible_blocknum p)
       else fm_set (producer_to_last_implied_irb s) (p_producer p)
              (dpos_proposed_irreversible_blocknum s))"
  using assms by (auto simp: next_pending_def result_simps Let_def case_prod_beta split: if_splits)

lemma next_pending_producer:
  assumes "next_pending env s w n = Inr p"
  obtains prokey where "get_scheduled_producer s (p_timestamp p) = Inr prokey"
    "p_producer p = producer_name prokey" "block_signing_key p = pk_signing_key prokey"
    "prokey \<in> set (producers (active_schedule s))"
    "\<And>b. fm_find (producer_to_last_produced s) (p_producer p) = Some b \<Longrightarrow>
       b < (block_num s + 1) - ucast n"
proof -
  obtain prokey where k: "get_scheduled_producer s (p_timestamp p) = Inr prokey"
      "p_producer p = producer_name prokey" "block_signing_key p = pk_signing_key prokey"
      "case fm_find (producer_to_last_produced s) (p_producer p) of
         Some b \<Rightarrow> b < (block_num s + 1) - ucast n | None \<Rightarrow> True"
    using assms by (auto simp: next_pending_def result_simps Let_def case_prod_beta split: if_splits)
  have d: "b < (block_num s + 1) - ucast n"
    if "fm_find (producer_to_last_produced s) (p_producer p) = Some b" for b
    using k(4) that by simp
  have "prokey \<in> set (producers (active_schedule s))"
    using k(1) by (auto simp: get_scheduled_producer_def Let_def result_simps producer_repetitions_def
        intro!: nth_mem less_mult_imp_div_less)
  then show ?thesis using d by (rule that [OF k(1-3)])
qed

text \<open>A finished state keeps the common part of the pending one; the header has passed the checks.\<close>

lemma finish_next_fields:
  assumes "finish_next_unsigned env validator p h = Inr t"
  shows "timestamp h = p_timestamp p" "previous h = p_previous p" "confirmed h = p_confirmed p"
    and "producer h = p_producer p" "schedule_version h = active_schedule_version p"
    and "block_num t = block_num p"
    and "dpos_proposed_irreversible_blocknum t = dpos_proposed_irreversible_blocknum p"
    and "dpos_irreversible_blocknum t = dpos_irreversible_blocknum p"
    and "active_schedule t = active_schedule p"
    and "blockroot_merkle t = blockroot_merkle p"
    and "producer_to_last_produced t = producer_to_last_produced p"
    and "producer_to_last_implied_irb t = producer_to_last_implied_irb p"
    and "block_signing_key t = block_signing_key p"
    and "confirm_count t = confirm_count p"
    and "header t = h" "bhs_id t = header_id env h"
  using assms
  by (auto simp: finish_next_unsigned_def result_simps block_header_state_common.defs
      block_header_state.defs)

lemma finish_next_pending_schedule:
  assumes "finish_next_unsigned env validator p h = Inr t"
  shows "\<And>np. new_producers h = Some np \<Longrightarrow> \<not> was_pending_promoted p \<and>
      sched_version np = sched_version (active_schedule p) + 1 \<and>
      producers (schedule (prev_pending_schedule p)) = [] \<and>
      schedule (pending_schedule t) = np \<and> schedule_lib_num (pending_schedule t) = block_num p"
    and "new_producers h = None \<Longrightarrow> was_pending_promoted p \<Longrightarrow>
      producers (schedule (pending_schedule t)) = []"
    and "new_producers h = None \<Longrightarrow> \<not> was_pending_promoted p \<Longrightarrow>
      schedule (pending_schedule t) = schedule (prev_pending_schedule p)"
  using assms
  by (auto simp: finish_next_unsigned_def result_simps block_header_state_common.defs
      block_header_state.defs)

lemma next_header_steps:
  assumes "next_header env validator s h skip = Inr t"
  obtains p where "next_pending env s (timestamp h) (confirmed h) = Inr p"
    "finish_next_unsigned env validator p h = Inr t"
    "\<not> skip \<Longrightarrow> signee env t = Inr (block_signing_key t)"
  using assms
  by (auto simp: next_header_def finish_next_def verify_signee_def result_simps split: if_splits)

section \<open>The invariant of header states\<close>

definition header_inv :: "block_header_state \<Rightarrow> bool" where
  "header_inv s \<longleftrightarrow>
     fm_wf (producer_to_last_produced s) \<and>
     fm_wf (producer_to_last_implied_irb s) \<and>
     fst ` set (producer_to_last_implied_irb s) \<subseteq> producer_name ` set (producers (active_schedule s)) \<and>
     (\<forall>b \<in> snd ` set (producer_to_last_implied_irb s). b \<le> dpos_proposed_irreversible_blocknum s) \<and>
     dpos_irreversible_blocknum s \<le> dpos_proposed_irreversible_blocknum s \<and>
     unat (dpos_proposed_irreversible_blocknum s) + length (confirm_count s) \<le> unat (block_num s) \<and>
     0 \<notin> set (confirm_count s) \<and>
     length (confirm_count s) \<le> maximum_tracked_dpos_confirmations \<and>
     producers (active_schedule s) \<noteq> [] \<and>
     (\<forall>b \<in> snd ` set (producer_to_last_produced s). b \<le> block_num s) \<and>
     length (producers (active_schedule s)) \<le> max_producers \<and>
     length (producers (schedule (pending_schedule s))) \<le> max_producers \<and>
     (producers (schedule (pending_schedule s)) \<noteq> [] \<longrightarrow>
        schedule (pending_schedule s) = active_schedule s \<or>
        sched_version (schedule (pending_schedule s)) = sched_version (active_schedule s) + 1)"

lemma header_inv_irb:
  "header_inv s \<Longrightarrow> (a, b) \<in> set (producer_to_last_implied_irb s) \<Longrightarrow>
     b \<le> dpos_proposed_irreversible_blocknum s"
  unfolding header_inv_def by force

lemma calc_le_proposed:
  assumes "header_inv s"
  shows "calc_dpos_last_irreversible s q \<le> dpos_proposed_irreversible_blocknum s"
proof (cases "implied_irb_with s q = []")
  case False
  then have "calc_dpos_last_irreversible s q \<in> set (implied_irb_with s q)"
    unfolding calc_dpos_last_irreversible_def Let_def using third_element_mem by simp
  then show ?thesis
    using header_inv_irb [OF assms] by (auto simp: implied_irb_with_def)
qed (simp add: calc_dpos_last_irreversible_def)

lemma apply_confirmations_inv:
  assumes "header_inv s" "unat (block_num s) + 1 < 2 ^ 32"
    and "(cc, proposed) = apply_confirmations s n"
  shows "0 \<notin> set cc \<and> length cc \<le> maximum_tracked_dpos_confirmations \<and>
    unat proposed + length cc \<le> unat (block_num s) + 1 \<and>
    dpos_proposed_irreversible_blocknum s \<le> proposed"
proof -
  let ?r = "of_nat (length (producers (active_schedule s)) * 2 div 3) + 1 :: u32"
  let ?cc = "grow_confirm_count (confirm_count s) ?r"
  have r: "(ucast ?r :: u8) \<noteq> 0"
    using assms(1) by (intro required_confs_nonzero) (simp add: header_inv_def)
  have g: "0 \<notin> set ?cc" "length ?cc \<le> maximum_tracked_dpos_confirmations"
      "length ?cc \<le> length (confirm_count s) + 1"
    using assms(1) r grow_confirm_count_props [of "confirm_count s" "ucast ?r" ?r]
    by (auto simp: header_inv_def)
  have bn: "unat (block_num s + 1) = unat (block_num s) + 1"
    using assms(2) unat_plus_small [of "block_num s" 1] by simp
  have "unat (dpos_proposed_irreversible_blocknum s) + length (confirm_count s) \<le> unat (block_num s)"
    using assms(1) by (simp add: header_inv_def)
  then show ?thesis
    using confirm_loop_props [of "block_num s + 1" "length ?cc" "unat n + 1" ?cc
        "dpos_proposed_irreversible_blocknum s" cc proposed] assms(3) g bn
    by (auto simp: apply_confirmations_def Let_def)
qed

lemma promoted_implied_irb_find:
  "fm_find (promoted_implied_irb s sched q lib) k =
     (if k \<in> producer_name ` set (producers sched)
      then Some (if k = q then dpos_proposed_irreversible_blocknum s
                 else case fm_find (producer_to_last_implied_irb s) k of Some b \<Rightarrow> b | None \<Rightarrow> lib)
      else None)"
  unfolding promoted_implied_irb_def
  by (subst fm.find_build [where key = producer_name and
      g = "\<lambda>k. if k = q then dpos_proposed_irreversible_blocknum s
        else case fm_find (producer_to_last_implied_irb s) k of Some b \<Rightarrow> b | None \<Rightarrow> lib"]) simp_all

lemma promoted_last_produced_find:
  "fm_find (promoted_last_produced s sched q bn lib) k =
     (if k = q then Some bn
      else if k \<in> producer_name ` set (producers sched)
      then Some (case fm_find (producer_to_last_produced s) k of Some b \<Rightarrow> b | None \<Rightarrow> lib)
      else None)"
  unfolding promoted_last_produced_def fm_find_set
  by (subst fm.find_build [where key = producer_name and
      g = "\<lambda>k. if k = q then bn
        else case fm_find (producer_to_last_produced s) k of Some b \<Rightarrow> b | None \<Rightarrow> lib"]) simp_all

lemma promoted_maps_wf:
  "fm_wf (promoted_implied_irb s sched q lib)" "fm_wf (promoted_last_produced s sched q bn lib)"
  unfolding promoted_implied_irb_def promoted_last_produced_def
  using fm.wf_build [of "[]" producer_name
      "\<lambda>k. if k = q then dpos_proposed_irreversible_blocknum s
        else case fm_find (producer_to_last_implied_irb s) k of Some b \<Rightarrow> b | None \<Rightarrow> lib" "producers sched"]
    fm.wf_build [of "[]" producer_name
      "\<lambda>k. if k = q then bn
        else case fm_find (producer_to_last_produced s) k of Some b \<Rightarrow> b | None \<Rightarrow> lib" "producers sched"]
  by (simp_all add: fm_wf_set)

lemma next_pending_irb:
  assumes "header_inv s" "next_pending env s w n = Inr p"
    and "fm_find (producer_to_last_implied_irb p) k = Some b"
  shows "b \<le> dpos_proposed_irreversible_blocknum s \<and>
    k \<in> producer_name ` set (producers (active_schedule p))"
proof -
  obtain prokey where q: "p_producer p = producer_name prokey"
      "prokey \<in> set (producers (active_schedule s))"
    using assms(2) by (rule next_pending_producer)
  have old: "fm_find (producer_to_last_implied_irb s) k = Some c \<Longrightarrow>
      c \<le> dpos_proposed_irreversible_blocknum s" for c
    using header_inv_irb [OF assms(1)] by (blast dest: fm_find_SomeD)
  have lib: "dpos_irreversible_blocknum p \<le> dpos_proposed_irreversible_blocknum s"
    using calc_le_proposed [OF assms(1)] next_pending_fields(6) [OF assms(2)] by simp
  have keys: "fm_find (producer_to_last_implied_irb s) k = Some c \<Longrightarrow>
      k \<in> producer_name ` set (producers (active_schedule s))" for c
    using assms(1) by (auto simp: header_inv_def dest!: fm_find_SomeD)
  show ?thesis
    using assms(3) old lib keys q next_pending_maps(2) [OF assms(2)]
      next_pending_fields(13) [OF assms(2)]
    by (cases "was_pending_promoted p")
      (auto simp: promoted_implied_irb_find split: if_splits option.splits)
qed

lemma next_pending_maps_wf:
  assumes "header_inv s" "next_pending env s w n = Inr p"
  shows "fm_wf (producer_to_last_produced p)" "fm_wf (producer_to_last_implied_irb p)"
  using assms(1) next_pending_maps [OF assms(2)] promoted_maps_wf
  by (auto simp: header_inv_def fm_wf_set)

lemma next_pending_last_produced:
  assumes inv: "header_inv s" and bn: "unat (block_num s) + 1 < 2 ^ 32"
    and p: "next_pending env s w n = Inr p"
    and "fm_find (producer_to_last_produced p) k = Some b"
  shows "b \<le> block_num p"
proof -
  have num: "unat (block_num p) = unat (block_num s) + 1"
    using bn unat_plus_small [of "block_num s" 1] next_pending_fields(1) [OF p] by simp
  have "unat (dpos_proposed_irreversible_blocknum s) \<le> unat (block_num s)"
    using inv by (simp add: header_inv_def)
  then have lib: "dpos_irreversible_blocknum p \<le> block_num p"
    using calc_le_proposed [OF inv, of "p_producer p"] next_pending_fields(6) [OF p] num
    by (simp add: word_le_nat_alt)
  have old: "c \<le> block_num p" if "fm_find (producer_to_last_produced s) k = Some c" for c
  proof -
    have "\<forall>b \<in> snd ` set (producer_to_last_produced s). b \<le> block_num s"
      using inv by (simp add: header_inv_def)
    then have "c \<le> block_num s" using that by (force dest: fm_find_SomeD)
    then show ?thesis using num by (simp add: word_le_nat_alt)
  qed
  show ?thesis
  proof (cases "was_pending_promoted p")
    case True
    then have "fm_find (promoted_last_produced s (schedule (pending_schedule s)) (p_producer p)
        (block_num p) (dpos_irreversible_blocknum p)) k = Some b"
      using assms(4) next_pending_maps(1) [OF p] by simp
    then show ?thesis
      using old lib by (auto simp: promoted_last_produced_find split: if_splits option.splits)
  next
    case False
    then show ?thesis
      using assms(4) next_pending_maps(1) [OF p] old by (auto split: if_splits)
  qed
qed

lemma next_pending_active_nonempty:
  assumes "header_inv s" "next_pending env s w n = Inr p"
  shows "producers (active_schedule p) \<noteq> []"
  using assms(1) next_pending_fields(7,13) [OF assms(2)] by (simp add: header_inv_def)

lemma next_header_inv:
  assumes "header_inv s" "unat (block_num s) + 1 < 2 ^ 32"
    and "\<And>np. new_producers h = Some np \<Longrightarrow> length (producers np) \<le> max_producers"
    and "next_header env validator s h skip = Inr t"
  shows "header_inv t"
proof -
  obtain p where p: "next_pending env s (timestamp h) (confirmed h) = Inr p"
      and f: "finish_next_unsigned env validator p h = Inr t"
    using assms(4) by (rule next_header_steps)
  note P = next_pending_fields [OF p] and F = finish_next_fields [OF f]
  have wf: "fm_wf (producer_to_last_produced t)" "fm_wf (producer_to_last_implied_irb t)"
    using next_pending_maps_wf [OF assms(1) p] F by simp_all
  have cc: "0 \<notin> set (confirm_count p) \<and>
      length (confirm_count p) \<le> maximum_tracked_dpos_confirmations \<and>
      unat (dpos_proposed_irreversible_blocknum p) + length (confirm_count p) \<le> unat (block_num s) + 1 \<and>
      dpos_proposed_irreversible_blocknum s \<le> dpos_proposed_irreversible_blocknum p"
    using apply_confirmations_inv [OF assms(1,2) P(5)] .
  have bn: "unat (block_num t) = unat (block_num s) + 1"
    using assms(2) unat_plus_small [of "block_num s" 1] P(1) F by simp
  have irb: "b \<le> dpos_proposed_irreversible_blocknum p \<and>
      k \<in> producer_name ` set (producers (active_schedule p))"
    if "(k, b) \<in> set (producer_to_last_implied_irb t)" for k b
    using next_pending_irb [OF assms(1) p, of k b] that cc wf(2) F
    by (simp add: fm_find_Some_iff) (blast intro: order_trans)
  have lib: "dpos_irreversible_blocknum p \<le> dpos_proposed_irreversible_blocknum p"
    using calc_le_proposed [OF assms(1), of "p_producer p"] P(6) cc by (simp add: order_trans)
  have len: "length (producers (active_schedule t)) \<le> max_producers"
    using assms(1) P(13) F by (simp add: header_inv_def)
  have act: "producers (active_schedule t) \<noteq> []"
    using next_pending_active_nonempty [OF assms(1) p] F(9) by simp
  have last: "\<forall>b \<in> snd ` set (producer_to_last_produced t). b \<le> block_num t"
    using next_pending_last_produced [OF assms(1,2) p] wf(1) F(6,11)
    by (auto simp: fm_find_Some_iff [symmetric])
  have pend: "length (producers (schedule (pending_schedule t))) \<le> max_producers \<and>
     (producers (schedule (pending_schedule t)) \<noteq> [] \<longrightarrow>
        schedule (pending_schedule t) = active_schedule t \<or>
        sched_version (schedule (pending_schedule t)) = sched_version (active_schedule t) + 1)"
  proof (cases "new_producers h")
    case None
    have inv: "length (producers (schedule (pending_schedule s))) \<le> max_producers"
        "producers (schedule (pending_schedule s)) \<noteq> [] \<longrightarrow>
          schedule (pending_schedule s) = active_schedule s \<or>
          sched_version (schedule (pending_schedule s)) = sched_version (active_schedule s) + 1"
      using assms(1) by (simp_all add: header_inv_def)
    show ?thesis
    proof (cases "was_pending_promoted p")
      case True
      then show ?thesis using finish_next_pending_schedule(2) [OF f None] by simp
    next
      case False
      have "schedule (pending_schedule t) = schedule (pending_schedule s)"
        using finish_next_pending_schedule(3) [OF f None False] P(8) by simp
      moreover have "active_schedule t = active_schedule s" using False P(13) F(9) by simp
      ultimately show ?thesis using inv by simp
    qed
  next
    case (Some np)
    then show ?thesis
      using finish_next_pending_schedule(1) [OF f Some] assms(3) [OF Some] F(9) by simp
  qed
  have keys: "fst ` set (producer_to_last_implied_irb t) \<subseteq>
      producer_name ` set (producers (active_schedule t))"
    using irb F by fastforce
  have vals: "\<forall>b \<in> snd ` set (producer_to_last_implied_irb t).
      b \<le> dpos_proposed_irreversible_blocknum t"
    using irb F by fastforce
  show ?thesis
    unfolding header_inv_def using wf keys vals lib cc bn len pend act last F by simp
qed

end
