(* ===== verification/Header_Chain.thy ===== *)
theory Header_Chain
  imports Header_State
begin

text \<open>
  Chains of header states from the genesis state on, and the correctness of the irreversibility,
  schedule and signature rules along them.
\<close>

section \<open>Chains\<close>

text \<open>\<open>header_chain env validator g ids s\<close>: the state \<open>s\<close> is reached from \<open>g\<close> by valid headers; \<open>ids\<close> are the
  identifiers of the blocks before \<open>s\<close>, oldest first. Block numbers stay below \<open>2\<^sup>3\<^sup>2\<close>, and a header proposes
  at most \<^verbatim>\<open>config::max_producers\<close> producers, the bound the intrinsic \<^verbatim>\<open>set_proposed_producers\<close> enforces.\<close>

inductive header_chain ::
  "header_env \<Rightarrow> pf_validator \<Rightarrow> block_header_state \<Rightarrow> digest list \<Rightarrow> block_header_state \<Rightarrow> bool"
  for env validator g where
  header_chain_genesis: "header_chain env validator g [] g"
| header_chain_next:
    "header_chain env validator g ids s \<Longrightarrow> unat (block_num s) + 1 < 2 ^ 32 \<Longrightarrow>
     (\<And>np. new_producers h = Some np \<Longrightarrow> length (producers np) \<le> max_producers) \<Longrightarrow>
     next_header env validator s h skip = Inr t \<Longrightarrow>
     header_chain env validator g (ids @ [bhs_id s]) t"

lemma genesis_inv: "header_inv (genesis_header_state env k ts cid)"
  by (simp add: header_inv_def genesis_header_state_def Let_def max_producers_def
      maximum_tracked_dpos_confirmations_def)

lemma header_chain_inv: "header_chain env validator g ids s \<Longrightarrow> header_inv g \<Longrightarrow> header_inv s"
proof (induction rule: header_chain.induct)
  case (header_chain_next ids s h skip t)
  show ?case
    by (rule next_header_inv [OF _ header_chain_next.hyps(2) _ header_chain_next.hyps(4)])
      (use header_chain_next in auto)
qed

lemma next_header_block_num:
  assumes "next_header env validator s h skip = Inr t" "unat (block_num s) + 1 < 2 ^ 32"
  shows "unat (block_num t) = unat (block_num s) + 1"
proof -
  obtain p where p: "next_pending env s (timestamp h) (confirmed h) = Inr p"
      and f: "finish_next_unsigned env validator p h = Inr t"
    using assms(1) by (rule next_header_steps)
  then show ?thesis
    using next_pending_fields(1) [OF p] finish_next_fields(6) [OF f] assms(2)
      unat_plus_small [of "block_num s" 1] by simp
qed

lemma header_chain_length:
  "header_chain env validator g ids s \<Longrightarrow> unat (block_num s) = unat (block_num g) + length ids"
  by (induction rule: header_chain.induct) (simp_all add: next_header_block_num)

lemma header_chain_blockroot:
  assumes "header_chain env validator g ids s" "merkle_rep (sha_pair env) (blockroot_merkle g) []"
  shows "merkle_rep (sha_pair env) (blockroot_merkle s) ids"
  using assms
proof (induction rule: header_chain.induct)
  case (header_chain_next ids s h skip t)
  obtain p where p: "next_pending env s (timestamp h) (confirmed h) = Inr p"
      and f: "finish_next_unsigned env validator p h = Inr t"
    using header_chain_next.hyps(4) by (rule next_header_steps)
  have "length ids + 1 < 2 ^ 64"
    using header_chain_length [OF header_chain_next.hyps(1)] header_chain_next.hyps(2) by simp
  then obtain m where "merkle_append (sha_pair env) (blockroot_merkle s) (bhs_id s) = Inr m"
      "merkle_rep (sha_pair env) m (ids @ [bhs_id s])"
    using merkle_acc.rep_app [of "sha_pair env" "blockroot_merkle s" ids "bhs_id s"]
      header_chain_next.IH header_chain_next.prems by auto
  then show ?case
    using next_pending_fields(4) [OF p] finish_next_fields(10) [OF f] by simp
qed

section \<open>The last irreversible block does not move back\<close>

lemma map_if_other:
  "k \<notin> fst ` set m \<Longrightarrow> map (\<lambda>(n, b). if n = k then v else b) m = map snd m"
  by (induction m) auto

lemma fm_set_values_key:
  "fm_wf m \<Longrightarrow> k \<in> fst ` set m \<Longrightarrow>
     map snd (fm_set m k v) = map (\<lambda>(n, b). if n = k then v else b) m"
  by (induction m k v rule: fm_set.induct) (auto simp: fm_wf_Cons map_if_other)

lemma fm_set_values_new:
  "k \<notin> fst ` set m \<Longrightarrow>
     length (filter P (map snd (fm_set m k v))) = length (filter P (map snd m)) + (if P v then 1 else 0)"
  by (induction m k v rule: fm_set.induct) auto

abbreviation third :: "u32 list \<Rightarrow> u32" where
  "third xs \<equiv> sort xs ! ((length xs - 1) div 3)"

lemma third_fm_set:
  assumes "fm_wf m" "m \<noteq> []" "\<And>b. b \<in> snd ` set m \<Longrightarrow> b \<le> v"
  shows "third (map (\<lambda>(n, b). if n = k then v else b) m) \<le> third (map snd (fm_set m k v))"
proof (cases "k \<in> fst ` set m")
  case True
  then show ?thesis using fm_set_values_key [OF assms(1) True] by simp
next
  case False
  then have same: "map (\<lambda>(n, b). if n = k then v else b) m = map snd m"
    by (rule map_if_other)
  let ?xs = "map snd m" and ?ys = "map snd (fm_set m k v)"
  have "third ?xs \<in> set ?xs" using assms(2) by (intro third_element_mem) simp
  then have v: "third ?xs \<le> v" using assms(3) by auto
  define P where "P = (\<lambda>x. third ?xs \<le> x)"
  have "2 * length ?xs < 3 * length (filter P ?xs)"
    using third_element_iff [of ?xs "third ?xs"] assms(2) unfolding P_def by blast
  moreover have "length (filter P ?ys) = length (filter P ?xs) + 1"
    using fm_set_values_new [OF False, of P v] v by (simp only: P_def if_True)
  moreover have "length ?ys = length ?xs + 1" using length_fm_set_new [OF False, of v] by simp
  ultimately have "2 * length ?ys < 3 * length (filter P ?ys)" by linarith
  moreover have "?ys \<noteq> []" using \<open>length ?ys = length ?xs + 1\<close> by auto
  ultimately show ?thesis
    unfolding same P_def using third_element_iff [of ?ys "third ?xs"] by blast
qed

lemma calc_dpos_ge_third:
  assumes "header_inv t" "producer_to_last_implied_irb t \<noteq> []"
  shows "third (map snd (producer_to_last_implied_irb t)) \<le> calc_dpos_last_irreversible t q"
proof -
  have "list_all2 (\<le>) (map snd (producer_to_last_implied_irb t)) (implied_irb_with t q)"
    using header_inv_irb [OF assms(1)]
    by (auto simp: implied_irb_with_def list_all2_conv_all_nth split_beta)
      (metis nth_mem surjective_pairing)
  then have "third (map snd (producer_to_last_implied_irb t)) \<le> third (implied_irb_with t q)"
    using assms(2) by (intro third_element_mono) simp_all
  moreover have "implied_irb_with t q \<noteq> []" using assms(2) by (simp add: implied_irb_with_def)
  ultimately show ?thesis by (simp add: calc_dpos_last_irreversible_def Let_def)
qed

lemma lib_not_back:
  assumes inv: "header_inv s" "header_inv t"
    and p: "next_pending env s w n = Inr p" "\<not> was_pending_promoted p"
    and f: "finish_next_unsigned env validator p h = Inr t"
    and q: "next_pending env t w' n' = Inr q"
  shows "dpos_irreversible_blocknum p \<le> dpos_irreversible_blocknum q"
proof (cases "producer_to_last_implied_irb s = []")
  case True
  then show ?thesis
    using next_pending_fields(6) [OF p(1)]
    by (simp add: calc_dpos_last_irreversible_def implied_irb_with_def)
next
  case False
  let ?m = "producer_to_last_implied_irb s" and ?v = "dpos_proposed_irreversible_blocknum s"
  have t: "producer_to_last_implied_irb t = fm_set ?m (p_producer p) ?v"
    using next_pending_maps(2) [OF p(1)] p(2) finish_next_fields(12) [OF f] by simp
  then have "producer_to_last_implied_irb t \<noteq> []"
    using fm_set_keys [of ?m "p_producer p" ?v] by auto
  then have "third (map snd (producer_to_last_implied_irb t)) \<le> dpos_irreversible_blocknum q"
    using calc_dpos_ge_third [OF inv(2)] next_pending_fields(6) [OF q] by simp
  moreover have "third (map (\<lambda>(n, b). if n = p_producer p then ?v else b) ?m) \<le>
      third (map snd (producer_to_last_implied_irb t))"
    unfolding t using inv(1) False header_inv_irb [OF inv(1)]
    by (intro third_fm_set) (auto simp: header_inv_def)
  moreover have "dpos_irreversible_blocknum p = third (map (\<lambda>(n, b). if n = p_producer p then ?v else b) ?m)"
    using next_pending_fields(6) [OF p(1)] False
    by (simp add: calc_dpos_last_irreversible_def implied_irb_with_def Let_def)
  ultimately show ?thesis by simp
qed

section \<open>The signature is not part of what is signed\<close>

lemma header_id_signature [simp]: "header_id env (h\<lparr>producer_signature := x\<rparr>) = header_id env h"
  by (simp add: header_id_def header_digest_def header_block_num_def block_header.defs)

lemma header_digest_signature [simp]:
  "header_digest env (h\<lparr>producer_signature := x\<rparr>) = header_digest env h"
  by (simp add: header_digest_def block_header.defs)

lemma extensions_signature [simp]:
  "validate_and_extract_header_extensions env (h\<lparr>producer_signature := x\<rparr>) =
     validate_and_extract_header_extensions env h"
  by (simp add: validate_and_extract_header_extensions_def)

lemma finish_next_unsigned_signature:
  "finish_next_unsigned env validator p (h\<lparr>producer_signature := x\<rparr>) =
     rbind (finish_next_unsigned env validator p h)
       (\<lambda>r. Inr (r\<lparr>header := h\<lparr>producer_signature := x\<rparr>\<rparr>))"
  by (simp add: finish_next_unsigned_def rbind_eos_assert rbind_assoc
      block_header_state_common.defs block_header_state.defs)

lemma signed_header_accepted:
  assumes "next_pending env s (timestamp h) (confirmed h) = Inr p"
    and "finish_next_sign env validator p (make_block_header env p tmroot amroot np pfs) signer = Inr (r, h)"
    and "\<And>d. recover_key env (signer d) d True = recover_key env (signer d) d False"
  shows "finish_next env validator p h False = Inr r"
proof -
  let ?h = "make_block_header env p tmroot amroot np pfs"
  obtain r0 where r0: "finish_next_unsigned env validator p ?h = Inr r0"
      and r: "sign env signer r0 = Inr r"
      and h: "h = ?h\<lparr>producer_signature := producer_signature (header r)\<rparr>"
    using assms(2) by (auto simp: finish_next_sign_def result_simps)
  obtain d where d: "sig_digest env r0 = Inr d"
      and k: "recover_key env (signer d) d (default_check_canonical env) = Inr (block_signing_key r0)"
      and r': "r = r0\<lparr>header := (header r0)\<lparr>producer_signature := signer d\<rparr>\<rparr>"
    using r by (auto simp: sign_def result_simps Let_def)
  have sig: "producer_signature (header r) = signer d" by (simp add: r')
  have "finish_next_unsigned env validator p h = Inr r"
    unfolding h finish_next_unsigned_signature r0 sig using finish_next_fields(15) [OF r0]
    by (simp add: r')
  moreover have "sig_digest env r = Inr d"
    using d unfolding r' by (simp add: sig_digest_def)
  then have "signee env r = Inr (block_signing_key r)"
    using k assms(3) [of d] unfolding signee_def sig
    by (cases "default_check_canonical env") (simp_all add: r')
  ultimately show ?thesis by (simp add: finish_next_def verify_signee_def)
qed

section \<open>There is always a next block\<close>

lemma next_pending_exists:
  assumes inv: "header_inv s" and bn: "unat (block_num s) + 1 < 2 ^ 32"
    and rep: "merkle_rep (sha_pair env) (blockroot_merkle s) ids" "length ids + 1 < 2 ^ 64"
    and slot: "timestamp (header s) < slot"
  shows "\<exists>p. next_pending env s slot 0 = Inr p"
proof -
  have "slot \<noteq> 0" using slot by auto
  have act: "producers (active_schedule s) \<noteq> []" using inv by (simp add: header_inv_def)
  then obtain k where k: "get_scheduled_producer s slot = Inr k"
    by (simp add: get_scheduled_producer_def Let_def producer_repetitions_def)
  have last: "b < block_num s + 1"
    if "fm_find (producer_to_last_produced s) (producer_name k) = Some b" for b
  proof -
    have "\<forall>b \<in> snd ` set (producer_to_last_produced s). b \<le> block_num s"
      using inv by (simp add: header_inv_def)
    then have "b \<le> block_num s" using that by (force dest: fm_find_SomeD)
    moreover have "unat (block_num s + 1) = unat (block_num s) + 1"
      using bn unat_plus_small [of "block_num s" 1] by simp
    ultimately show ?thesis by (simp add: word_le_nat_alt word_less_nat_alt)
  qed
  obtain m where "merkle_append (sha_pair env) (blockroot_merkle s) (bhs_id s) = Inr m"
    using merkle_acc.rep_app [OF rep] by blast
  then show ?thesis
    using \<open>slot \<noteq> 0\<close> slot k last
    by (auto simp: next_pending_def Let_def case_prod_beta eos_assert_def split: option.splits)
qed

lemma own_header_finishes:
  "\<exists>r. finish_next_unsigned env validator p (make_block_header env p tmroot amroot None []) = Inr r"
  by (simp add: finish_next_unsigned_def make_block_header_def
      validate_and_extract_header_extensions_def)

lemma extend_once:
  assumes inv: "header_inv s" "unat (block_num s) + 1 < 2 ^ 32"
    and rep: "merkle_rep (sha_pair env) (blockroot_merkle s) ids" "length ids + 1 < 2 ^ 64"
    and slot: "timestamp (header s) < slot"
    and key: "get_scheduled_producer s slot = Inr k"
      "\<And>d c. recover_key env (signer d) d c = Inr (pk_signing_key k)"
  obtains p h t where "next_pending env s slot 0 = Inr p" "timestamp h = slot" "confirmed h = 0"
    "new_producers h = None" "producer h = producer_name k"
    "finish_next env validator p h False = Inr t"
    "merkle_rep (sha_pair env) (blockroot_merkle t) (ids @ [bhs_id s])"
proof -
  obtain p where p: "next_pending env s slot 0 = Inr p"
    using next_pending_exists [OF inv rep slot] by blast
  have "slot \<noteq> 0" using slot by auto
  have ts: "p_timestamp p = slot" and cf: "p_confirmed p = 0"
    using next_pending_fields(3,10) [OF p] \<open>slot \<noteq> 0\<close> by simp_all
  have kp: "p_producer p = producer_name k" "block_signing_key p = pk_signing_key k"
    using p by (rule next_pending_producer; use key(1) ts in simp)+
  let ?h = "make_block_header env p digest_zero digest_zero None []"
  obtain r0 where r0: "finish_next_unsigned env validator p ?h = Inr r0"
    using own_header_finishes by blast
  have rep': "merkle_rep (sha_pair env) (blockroot_merkle r0) (ids @ [bhs_id s])"
    using merkle_acc.rep_app [OF rep, of "bhs_id s"] next_pending_fields(4) [OF p]
      finish_next_fields(10) [OF r0] by auto
  obtain d where d: "sig_digest env r0 = Inr d"
    using merkle_acc.rep_root [OF rep'] by (simp add: sig_digest_def Let_def)
  let ?r = "r0\<lparr>header := (header r0)\<lparr>producer_signature := signer d\<rparr>\<rparr>"
  let ?g = "?h\<lparr>producer_signature := signer d\<rparr>"
  have "sign env signer r0 = Inr ?r"
    using d key(2) kp(2) finish_next_fields(13) [OF r0] by (simp add: sign_def Let_def)
  then have "finish_next_sign env validator p ?h signer = Inr (?r, ?g)"
    using r0 by (simp add: finish_next_sign_def)
  moreover have "timestamp ?g = slot" "confirmed ?g = 0"
    by (simp_all add: make_block_header_def ts cf)
  ultimately have "finish_next env validator p ?g False = Inr ?r"
    using signed_header_accepted [of env s ?g p validator digest_zero digest_zero None "[]" signer ?r]
      p key(2) by simp
  moreover have "new_producers ?g = None" "producer ?g = producer_name k"
    by (simp_all add: make_block_header_def kp)
  ultimately show ?thesis
    using p \<open>timestamp ?g = slot\<close> \<open>confirmed ?g = 0\<close> rep' that [of p ?g ?r] by simp
qed

section \<open>A small chain\<close>

text \<open>An instance of the fc functions, and the block after the genesis block, for the instances of the
  properties below.\<close>

definition demo_env :: header_env where
  "demo_env = \<lparr>sha_pair = (\<lambda>(a, b). Digest (hash0 a + 2 * hash0 b) 1 2 3),
     hash_header = (\<lambda>h. Digest (hash0 (previous h)) (ucast (timestamp h)) 9 10),
     hash_schedule = (\<lambda>_. digest_zero), endian_reverse_u32 = bswap32,
     recover_key = (\<lambda>sig _ _. Inr sig), default_check_canonical = True, pack_pfa = (\<lambda>_. []), unpack_pfa = (\<lambda>_. Inr [])\<rparr>"

definition demo_genesis :: block_header_state where
  "demo_genesis = genesis_header_state demo_env [1] 100 (Digest 9 9 9 9)"

definition demo_header :: signed_block_header where
  "demo_header =
     \<lparr>timestamp = 101, producer = system_account_name, confirmed = 0, previous = bhs_id demo_genesis,
      transaction_mroot = digest_zero, action_mroot = digest_zero, schedule_version = 0,
      new_producers = None, header_extensions = [], producer_signature = [1]\<rparr>"

lemma bswap32_0 [simp]: "bswap32 0 = 0"
  by (simp add: bswap32_def)

lemma demo_genesis_num: "block_num demo_genesis = 1"
  by (simp add: demo_genesis_def genesis_header_state_def Let_def header_block_num_def num_from_id_def
      digest_zero_def demo_env_def)

lemma demo_pending:
  "\<exists>p. next_pending demo_env demo_genesis 101 0 = Inr p \<and> p_producer p = system_account_name \<and>
     p_timestamp p = 101 \<and> p_previous p = bhs_id demo_genesis \<and> active_schedule_version p = 0 \<and>
     p_confirmed p = 0 \<and> block_signing_key p = [1]"
  by (simp add: next_pending_def get_scheduled_producer_def producer_repetitions_def Let_def
      case_prod_beta merkle_append_def calcluate_max_depth_def next_power_of_2_def clz_power_2_def
      incremental_merkle_empty_def demo_genesis_def genesis_header_state_def)

lemma demo_finish:
  assumes "p_producer p = system_account_name" "p_timestamp p = 101"
    "p_previous p = bhs_id demo_genesis" "active_schedule_version p = 0" "p_confirmed p = 0"
  shows "\<exists>t. finish_next_unsigned demo_env (\<lambda>_ _ _. Inr ()) p demo_header = Inr t"
  using assms
  by (simp add: finish_next_unsigned_def demo_header_def validate_and_extract_header_extensions_def)

lemma demo_signee:
  assumes "header t = demo_header" "get_root (blockroot_merkle t) = Inr r"
  shows "signee demo_env t = Inr [1]"
  using assms by (simp add: signee_def sig_digest_def Let_def) (simp add: demo_env_def demo_header_def)

lemma demo_step:
  "\<exists>t. next_header demo_env (\<lambda>_ _ _. Inr ()) demo_genesis demo_header False = Inr t"
proof -
  obtain p where p: "next_pending demo_env demo_genesis 101 0 = Inr p"
      "p_producer p = system_account_name" "p_timestamp p = 101" "p_previous p = bhs_id demo_genesis"
      "active_schedule_version p = 0" "p_confirmed p = 0" "block_signing_key p = [1]"
    using demo_pending by blast
  obtain t where t: "finish_next_unsigned demo_env (\<lambda>_ _ _. Inr ()) p demo_header = Inr t"
    using demo_finish [OF p(2-6)] by blast
  have "merkle_rep (sha_pair demo_env) (blockroot_merkle demo_genesis) []"
    by (simp add: demo_genesis_def genesis_header_state_def Let_def merkle_rep_empty)
  then have "merkle_rep (sha_pair demo_env) (blockroot_merkle p) [bhs_id demo_genesis]"
    using merkle_acc.rep_app [of "sha_pair demo_env" "blockroot_merkle demo_genesis" "[]"
        "bhs_id demo_genesis"] next_pending_fields(4) [OF p(1)] by auto
  then have "signee demo_env t = Inr (block_signing_key t)"
    using demo_signee [of t] finish_next_fields(10,13,15) [OF t] p(7)
      merkle_acc.rep_root [of "sha_pair demo_env" "blockroot_merkle p"] by simp
  moreover have "timestamp demo_header = 101" "confirmed demo_header = 0"
    by (simp_all add: demo_header_def)
  ultimately show ?thesis
    using p(1) t by (simp add: next_header_def finish_next_def verify_signee_def)
qed

lemma demo_chain:
  "\<exists>t. header_chain demo_env (\<lambda>_ _ _. Inr ()) demo_genesis [bhs_id demo_genesis] t"
proof -
  obtain t where t: "next_header demo_env (\<lambda>_ _ _. Inr ()) demo_genesis demo_header False = Inr t"
    using demo_step by blast
  have "header_chain demo_env (\<lambda>_ _ _. Inr ()) demo_genesis ([] @ [bhs_id demo_genesis]) t"
    by (rule header_chain_next [OF header_chain_genesis _ _ t])
      (simp_all add: demo_genesis_num demo_header_def)
  then show ?thesis by auto
qed

text \<open>The genesis state with no schedule pending.\<close>

definition demo_settled :: block_header_state where
  "demo_settled = demo_genesis\<lparr>pending_schedule := (pending_schedule demo_genesis)
     \<lparr>schedule := \<lparr>sched_version = 0, producers = []\<rparr>\<rparr>\<rparr>"

lemma demo_settled_fields:
  "block_num demo_settled = 1" "timestamp (header demo_settled) = 100"
  "merkle_rep (sha_pair demo_env) (blockroot_merkle demo_settled) []"
  "producers (schedule (pending_schedule demo_settled)) = []"
  "producers (active_schedule demo_settled) =
     [\<lparr>producer_name = system_account_name, pk_signing_key = [1]\<rparr>]"
  using demo_genesis_num
  by (simp_all add: demo_settled_def demo_genesis_def genesis_header_state_def Let_def merkle_rep_empty)

lemma demo_settled_inv: "header_inv demo_settled"
  by (simp add: header_inv_def demo_settled_def demo_genesis_def genesis_header_state_def Let_def
      max_producers_def maximum_tracked_dpos_confirmations_def)

lemma single_producer_scheduled:
  "producers (active_schedule s) = [k] \<Longrightarrow> get_scheduled_producer s t = Inr k"
  by (simp add: get_scheduled_producer_def producer_repetitions_def)

lemma demo_recover: "recover_key demo_env [1] d c = Inr [1]"
  by (simp add: demo_env_def)

lemma demo_two_steps:
  obtains p h t h' u where
    "next_pending demo_env demo_settled (timestamp h) (confirmed h) = Inr p" "\<not> was_pending_promoted p"
    "finish_next demo_env (\<lambda>_ _ _. Inr ()) p h False = Inr t" "new_producers h = None"
    "next_header demo_env (\<lambda>_ _ _. Inr ()) t h' False = Inr u"
proof -
  let ?k = "\<lparr>producer_name = system_account_name, pk_signing_key = [1]\<rparr>"
  note D = demo_settled_fields
  obtain p h t where 1: "next_pending demo_env demo_settled 101 0 = Inr p" "timestamp h = 101"
      "confirmed h = 0" "new_producers h = None" "finish_next demo_env (\<lambda>_ _ _. Inr ()) p h False = Inr t"
      "merkle_rep (sha_pair demo_env) (blockroot_merkle t) ([] @ [bhs_id demo_settled])"
    by (rule extend_once [OF demo_settled_inv _ D(3) _ _ single_producer_scheduled [OF D(5)],
        where slot = 101 and signer = "\<lambda>_. [1]" and validator = "\<lambda>_ _ _. Inr ()"])
      (use D(1,2) demo_recover in simp_all)
  have np: "\<not> was_pending_promoted p" using next_pending_fields(7) [OF 1(1)] D(4) by simp
  have st: "next_header demo_env (\<lambda>_ _ _. Inr ()) demo_settled h False = Inr t"
    using 1 by (simp add: next_header_def)
  have f: "finish_next_unsigned demo_env (\<lambda>_ _ _. Inr ()) p h = Inr t"
    using 1(5) by (auto simp: finish_next_def result_simps)
  have inv: "header_inv t"
    by (rule next_header_inv [OF demo_settled_inv _ _ st]) (use 1(4) D(1) in simp_all)
  have t: "block_num t = 2" "timestamp (header t) = 101" "producers (active_schedule t) = [?k]"
    using finish_next_fields(6,9,15) [OF f] next_pending_fields(1,13) [OF 1(1)] np D 1(2) by simp_all
  obtain q h' u where 2: "next_pending demo_env t 102 0 = Inr q" "timestamp h' = 102" "confirmed h' = 0"
      "finish_next demo_env (\<lambda>_ _ _. Inr ()) q h' False = Inr u"
    by (rule extend_once [OF inv _ 1(6) _ _ single_producer_scheduled [OF t(3)],
        where slot = 102 and signer = "\<lambda>_. [1]" and validator = "\<lambda>_ _ _. Inr ()"])
      (use t demo_recover in simp_all)
  then have "next_header demo_env (\<lambda>_ _ _. Inr ()) t h' False = Inr u" by (simp add: next_header_def)
  then show ?thesis using 1 np by (intro that [of h p t h' u]) simp_all
qed

section \<open>Properties\<close>

text \<open>
  C1. Irreversibility takes more than two thirds of the producers: a block number \<open>m > 0\<close> is at most the last
  irreversible block number computed for the next block exactly when, among the entries of
  \<^verbatim>\<open>producer_to_last_implied_irb\<close> with the next producer's own entry replaced by the proposed number,
  strictly more than two thirds are at least \<open>m\<close>.
\<close>

theorem dpos_irreversible_two_thirds:
  assumes "0 < m"
  shows "m \<le> calc_dpos_last_irreversible s q \<longleftrightarrow>
    2 * length (producer_to_last_implied_irb s) <
      3 * length (filter (\<lambda>b. m \<le> b) (implied_irb_with s q))"
proof (cases "implied_irb_with s q = []")
  case True
  then show ?thesis using assms by (simp add: calc_dpos_last_irreversible_def)
next
  case False
  moreover have "length (producer_to_last_implied_irb s) = length (implied_irb_with s q)"
    by (simp add: implied_irb_with_def)
  ultimately show ?thesis
    using third_element_iff [OF False, of m] by (simp add: calc_dpos_last_irreversible_def Let_def)
qed

theorem dpos_irreversible_two_thirds_witness:
  "2 \<le> calc_dpos_last_irreversible
     (demo_genesis\<lparr>dpos_proposed_irreversible_blocknum := 5,
        producer_to_last_implied_irb := [(1, 0), (2, 2), (3, 3), (4, 1)]\<rparr>) 4"
proof -
  let ?s = "demo_genesis\<lparr>dpos_proposed_irreversible_blocknum := 5,
        producer_to_last_implied_irb := [(1, 0), (2, 2), (3, 3), (4, 1)]\<rparr>"
  have "2 \<le> calc_dpos_last_irreversible ?s 4 \<longleftrightarrow>
      2 * length (producer_to_last_implied_irb ?s) <
        3 * length (filter (\<lambda>b. 2 \<le> b) (implied_irb_with ?s 4))"
    by (rule dpos_irreversible_two_thirds) simp
  then show ?thesis by (simp add: implied_irb_with_def)
qed

text \<open>
  C9. Every state reached from the genesis state by valid headers satisfies the header invariant: the
  producer maps are sorted and mention active producers only, implied and last irreversible block
  numbers do not exceed the proposed one, the tracked confirmation counts are positive, at most 1024,
  and lie between the proposed block and the current one, and a pending schedule carries the next
  version.
\<close>

theorem genesis_chain_invariant:
  assumes "header_chain env validator (genesis_header_state env key ts chain_id) ids s"
  shows "header_inv s"
  using header_chain_inv [OF assms] genesis_inv by blast

theorem genesis_chain_invariant_witness:
  "\<exists>t. header_chain demo_env (\<lambda>_ _ _. Inr ()) demo_genesis [bhs_id demo_genesis] t \<and> header_inv t"
  using demo_chain genesis_chain_invariant
    [of demo_env "\<lambda>_ _ _. Inr ()" "[1]" 100 "Digest 9 9 9 9" "[bhs_id demo_genesis]"]
  unfolding demo_genesis_def by blast

text \<open>
  C26. Along every chain from the genesis state the block root stored in the header state is the Merkle root
  of the identifiers of all earlier blocks, in order.
\<close>

theorem blockroot_commits_to_history:
  assumes "header_chain env validator (genesis_header_state env key ts chain_id) ids s"
  shows "get_root (blockroot_merkle s) = Inr (merkle (sha_pair env) ids)"
proof -
  have "merkle_rep (sha_pair env) (blockroot_merkle (genesis_header_state env key ts chain_id)) []"
    by (simp add: genesis_header_state_def Let_def merkle_rep_empty)
  with assms have "merkle_rep (sha_pair env) (blockroot_merkle s) ids"
    by (rule header_chain_blockroot)
  then show ?thesis by (rule merkle_acc.rep_root)
qed

theorem blockroot_commits_to_history_witness:
  "\<exists>t. header_chain demo_env (\<lambda>_ _ _. Inr ()) demo_genesis [bhs_id demo_genesis] t \<and>
     get_root (blockroot_merkle t) = Inr (merkle (sha_pair demo_env) [bhs_id demo_genesis])"
  using demo_chain blockroot_commits_to_history
    [of demo_env "\<lambda>_ _ _. Inr ()" "[1]" 100 "Digest 9 9 9 9" "[bhs_id demo_genesis]"]
  unfolding demo_genesis_def by blast

text \<open>
  C11. A header accepted with signature validation comes from the producer whose turn it is: it builds on
  the current block, is later than it, names the producer scheduled for its time slot in the active
  schedule and that schedule's version, and the key recovered from its signature is the signing key
  of that producer. (Time slots of 32 bits are assumed not to run out.)
\<close>

theorem next_header_authenticated:
  assumes "next_header env validator s h False = Inr t"
    and "timestamp (header s) \<noteq> 0xffffffff"
  shows "\<exists>k. k \<in> set (producers (active_schedule s)) \<and>
    get_scheduled_producer s (timestamp h) = Inr k \<and>
    producer h = producer_name k \<and> previous h = bhs_id s \<and>
    timestamp (header s) < timestamp h \<and>
    schedule_version h = sched_version (active_schedule s) \<and>
    signee env t = Inr (pk_signing_key k)"
proof -
  obtain p where p: "next_pending env s (timestamp h) (confirmed h) = Inr p"
      and f: "finish_next_unsigned env validator p h = Inr t"
      and sig: "signee env t = Inr (block_signing_key t)"
    using assms(1) by (blast elim: next_header_steps)
  note P = next_pending_fields [OF p] and F = finish_next_fields [OF f]
  obtain k where k: "get_scheduled_producer s (p_timestamp p) = Inr k"
      "p_producer p = producer_name k" "block_signing_key p = pk_signing_key k"
      "k \<in> set (producers (active_schedule s))"
    using p by (rule next_pending_producer)
  have "timestamp h \<noteq> 0"
  proof
    assume "timestamp h = 0"
    then have "timestamp (header s) + 1 = 0" using P(3) F(1) by argo
    then have "timestamp (header s) = 0 - 1" by (simp only: eq_diff_eq)
    then show False using assms(2) by simp
  qed
  then have "timestamp (header s) < timestamp h" by (rule P(2))
  moreover have "p_timestamp p = timestamp h" using F(1) by (rule sym)
  ultimately show ?thesis
    using k sig P(9,11) F(2,4,5,13) by (intro exI [of _ k]) simp
qed

theorem next_header_authenticated_witness:
  "\<exists>t k. next_header demo_env (\<lambda>_ _ _. Inr ()) demo_genesis demo_header False = Inr t \<and>
     k \<in> set (producers (active_schedule demo_genesis)) \<and> signee demo_env t = Inr (pk_signing_key k)"
proof -
  obtain t where t: "next_header demo_env (\<lambda>_ _ _. Inr ()) demo_genesis demo_header False = Inr t"
    using demo_step by blast
  have "timestamp (header demo_genesis) \<noteq> 0xffffffff"
    by (simp add: demo_genesis_def genesis_header_state_def Let_def)
  from next_header_authenticated [OF t this] t show ?thesis by blast
qed

text \<open>
  C16. Neither the proposed nor the last irreversible block number moves back: after a block that does not
  promote a pending schedule, every valid successor has a proposed and a last irreversible block number
  at least as high, and no last irreversible block number exceeds the number proposed one block earlier.
\<close>

theorem irreversible_numbers_monotone:
  assumes "header_inv s" "unat (block_num s) + 2 < 2 ^ 32"
    and "\<And>np. new_producers h = Some np \<Longrightarrow> length (producers np) \<le> max_producers"
    and "next_pending env s (timestamp h) (confirmed h) = Inr p" "\<not> was_pending_promoted p"
    and "finish_next env validator p h skip = Inr t"
    and "next_header env validator t h' skip' = Inr u"
  shows "dpos_irreversible_blocknum t \<le> dpos_irreversible_blocknum u \<and>
    dpos_proposed_irreversible_blocknum t \<le> dpos_proposed_irreversible_blocknum u \<and>
    dpos_irreversible_blocknum u \<le> dpos_proposed_irreversible_blocknum t"
proof -
  have st: "next_header env validator s h skip = Inr t"
    using assms(4,6) by (simp add: next_header_def)
  have f: "finish_next_unsigned env validator p h = Inr t"
    using assms(6) by (auto simp: finish_next_def result_simps split: if_splits)
  have inv: "header_inv t"
    by (rule next_header_inv [OF assms(1) _ assms(3) st]) (use assms(2) in simp_all)
  obtain q where q: "next_pending env t (timestamp h') (confirmed h') = Inr q"
      and g: "finish_next_unsigned env validator q h' = Inr u"
    using assms(7) by (rule next_header_steps)
  have "unat (block_num t) + 1 < 2 ^ 32"
    using next_header_block_num [OF st] assms(2) by simp
  then have "dpos_proposed_irreversible_blocknum t \<le> dpos_proposed_irreversible_blocknum q"
    using apply_confirmations_inv [OF inv _ next_pending_fields(5) [OF q]] by blast
  moreover have "dpos_irreversible_blocknum p \<le> dpos_irreversible_blocknum q"
    by (rule lib_not_back [OF assms(1) inv assms(4,5) f q])
  moreover have "dpos_irreversible_blocknum q \<le> dpos_proposed_irreversible_blocknum t"
    using calc_le_proposed [OF inv] next_pending_fields(6) [OF q] by simp
  ultimately show ?thesis
    using finish_next_fields(7,8) [OF f] finish_next_fields(7,8) [OF g] by simp
qed

theorem irreversible_numbers_monotone_witness:
  "\<exists>h p t h' u. next_pending demo_env demo_settled (timestamp h) (confirmed h) = Inr p \<and>
     finish_next demo_env (\<lambda>_ _ _. Inr ()) p h False = Inr t \<and>
     next_header demo_env (\<lambda>_ _ _. Inr ()) t h' False = Inr u \<and>
     dpos_irreversible_blocknum t \<le> dpos_irreversible_blocknum u"
proof -
  obtain p h t h' u where c:
      "next_pending demo_env demo_settled (timestamp h) (confirmed h) = Inr p" "\<not> was_pending_promoted p"
      "finish_next demo_env (\<lambda>_ _ _. Inr ()) p h False = Inr t" "new_producers h = None"
      "next_header demo_env (\<lambda>_ _ _. Inr ()) t h' False = Inr u"
    by (rule demo_two_steps)
  have "unat (block_num demo_settled) + 2 < 2 ^ 32" using demo_settled_fields(1) by simp
  then have "dpos_irreversible_blocknum t \<le> dpos_irreversible_blocknum u"
    using irreversible_numbers_monotone [OF demo_settled_inv _ _ c(1,2,3,5)] c(4) by simp
  with c show ?thesis by blast
qed

text \<open>
  C27. A producer schedule takes effect only through the pending one: the active schedule changes exactly when
  a non-empty pending schedule was set at a block that is irreversible now, and becomes that schedule. A
  header that proposes new producers is accepted only when no schedule is pending or being promoted; the
  proposal then is the pending schedule, with the version after the active one.
\<close>

theorem schedule_changes_through_pending:
  assumes "next_header env validator s h skip = Inr t"
  shows "(if producers (schedule (pending_schedule s)) \<noteq> [] \<and>
        schedule_lib_num (pending_schedule s) \<le> dpos_irreversible_blocknum t
     then active_schedule t = schedule (pending_schedule s) \<and> new_producers h = None \<and>
        producers (schedule (pending_schedule t)) = []
     else active_schedule t = active_schedule s \<and>
        (case new_producers h of
           None \<Rightarrow> schedule (pending_schedule t) = schedule (pending_schedule s)
         | Some np \<Rightarrow> producers (schedule (pending_schedule s)) = [] \<and>
             schedule (pending_schedule t) = np \<and>
             sched_version np = sched_version (active_schedule t) + 1 \<and>
             schedule_lib_num (pending_schedule t) = block_num t))"
proof -
  obtain p where p: "next_pending env s (timestamp h) (confirmed h) = Inr p"
      and f: "finish_next_unsigned env validator p h = Inr t"
    using assms(1) by (rule next_header_steps)
  have "was_pending_promoted p \<longleftrightarrow> producers (schedule (pending_schedule s)) \<noteq> [] \<and>
      schedule_lib_num (pending_schedule s) \<le> dpos_irreversible_blocknum t"
    using next_pending_fields(7) [OF p] finish_next_fields(8) [OF f] by simp
  note promoted = this
  have act: "active_schedule t =
      (if was_pending_promoted p then schedule (pending_schedule s) else active_schedule s)"
    using next_pending_fields(13) [OF p] finish_next_fields(9) [OF f] by (simp only:)
  have pend: "schedule (prev_pending_schedule p) = schedule (pending_schedule s)"
    using next_pending_fields(8) [OF p] by (simp only:)
  show ?thesis
  proof (cases "new_producers h")
    case None
    then show ?thesis
      using promoted act pend finish_next_pending_schedule(2,3) [OF f None]
      by (cases "was_pending_promoted p") simp_all
  next
    case (Some np)
    then show ?thesis
      using promoted act pend finish_next_pending_schedule(1) [OF f Some]
        finish_next_fields(6,9) [OF f]
      by simp
  qed
qed

theorem schedule_changes_through_pending_witness:
  "\<exists>t. next_header demo_env (\<lambda>_ _ _. Inr ()) demo_genesis demo_header False = Inr t \<and>
     active_schedule t = schedule (pending_schedule demo_genesis) \<and>
     producers (schedule (pending_schedule t)) = []"
proof -
  obtain t where t: "next_header demo_env (\<lambda>_ _ _. Inr ()) demo_genesis demo_header False = Inr t"
    using demo_step by blast
  have "producers (schedule (pending_schedule demo_genesis)) \<noteq> [] \<and>
      schedule_lib_num (pending_schedule demo_genesis) = 0"
    by (simp add: demo_genesis_def genesis_header_state_def Let_def)
  then show ?thesis using schedule_changes_through_pending [OF t] t by auto
qed

text \<open>
  C28. What a producer builds, every other node accepts: if a pending state is turned into a header by
  \<^verbatim>\<open>make_block_header\<close> and finished with the producer's signature, then a node in the same state that
  validates the signed header reaches the same header state. The signatures are assumed canonical, so
  that key recovery with and without the canonical check agree.
\<close>

theorem produced_header_accepted:
  assumes "next_pending env s (timestamp h) (confirmed h) = Inr p"
    and "finish_next_sign env validator p (make_block_header env p tmroot amroot np pfs) signer = Inr (r, h)"
    and "\<And>d. recover_key env (signer d) d True = recover_key env (signer d) d False"
  shows "next_header env validator s h False = Inr r"
  using signed_header_accepted [OF assms] assms(1) by (simp add: next_header_def)

theorem produced_header_accepted_witness:
  "\<exists>p r h. next_pending demo_env demo_genesis (timestamp h) (confirmed h) = Inr p \<and>
     finish_next_sign demo_env (\<lambda>_ _ _. Inr ()) p
       (make_block_header demo_env p digest_zero digest_zero None []) (\<lambda>_. [1]) = Inr (r, h) \<and>
     next_header demo_env (\<lambda>_ _ _. Inr ()) demo_genesis h False = Inr r"
proof -
  obtain p where p: "next_pending demo_env demo_genesis 101 0 = Inr p" "p_timestamp p = 101"
      "p_confirmed p = 0" "block_signing_key p = [1]"
    using demo_pending by blast
  let ?h = "make_block_header demo_env p digest_zero digest_zero None []"
  obtain r0 where r0: "finish_next_unsigned demo_env (\<lambda>_ _ _. Inr ()) p ?h = Inr r0"
    using own_header_finishes by blast
  have "merkle_rep (sha_pair demo_env) (blockroot_merkle demo_genesis) []"
    by (simp add: demo_genesis_def genesis_header_state_def Let_def merkle_rep_empty)
  then have "merkle_rep (sha_pair demo_env) (blockroot_merkle r0) [bhs_id demo_genesis]"
    using merkle_acc.rep_app [of "sha_pair demo_env" "blockroot_merkle demo_genesis" "[]"
        "bhs_id demo_genesis"] next_pending_fields(4) [OF p(1)] finish_next_fields(10) [OF r0] by auto
  then obtain d where d: "sig_digest demo_env r0 = Inr d"
    using merkle_acc.rep_root by (fastforce simp: sig_digest_def Let_def)
  then obtain r where r: "sign demo_env (\<lambda>_. [1]) r0 = Inr r" "producer_signature (header r) = [1]"
    using p(4) finish_next_fields(13) [OF r0] by (simp add: sign_def Let_def demo_recover)
  let ?g = "?h\<lparr>producer_signature := [1]\<rparr>"
  have s: "finish_next_sign demo_env (\<lambda>_ _ _. Inr ()) p ?h (\<lambda>_. [1]) = Inr (r, ?g)"
    using r0 r by (simp add: finish_next_sign_def)
  have n: "next_pending demo_env demo_genesis (timestamp ?g) (confirmed ?g) = Inr p"
    using p by (simp add: make_block_header_def)
  have "next_header demo_env (\<lambda>_ _ _. Inr ()) demo_genesis ?g False = Inr r"
    by (rule produced_header_accepted [OF n s]) (simp add: demo_recover)
  with s n show ?thesis by blast
qed

text \<open>
  C19. The chain never gets stuck: from every state reached from the genesis state, for every later time slot,
  the producer scheduled for that slot can build and sign a header that full validation accepts. The key
  recovered from this producer's signatures is assumed to be its signing key.
\<close>

theorem chain_can_be_extended:
  assumes "header_chain env validator (genesis_header_state env key ts chain_id) ids s"
    and "unat (block_num s) + 1 < 2 ^ 32" "timestamp (header s) < slot"
    and "get_scheduled_producer s slot = Inr k"
    and "\<And>d c. recover_key env (signer d) d c = Inr (pk_signing_key k)"
  shows "\<exists>h t. timestamp h = slot \<and> producer h = producer_name k \<and>
    next_header env validator s h False = Inr t"
proof -
  have inv: "header_inv s" using header_chain_inv [OF assms(1)] genesis_inv by blast
  have "merkle_rep (sha_pair env) (blockroot_merkle (genesis_header_state env key ts chain_id)) []"
    by (simp add: genesis_header_state_def Let_def merkle_rep_empty)
  then have rep: "merkle_rep (sha_pair env) (blockroot_merkle s) ids"
    by (rule header_chain_blockroot [OF assms(1)])
  have len: "length ids + 1 < 2 ^ 64"
    using header_chain_length [OF assms(1)] assms(2) by simp
  obtain p h t where "next_pending env s slot 0 = Inr p" "timestamp h = slot" "confirmed h = 0"
      "producer h = producer_name k" "finish_next env validator p h False = Inr t"
    by (rule extend_once [OF inv assms(2) rep len assms(3,4), of signer validator])
      (use assms(5) in simp_all)
  then show ?thesis by (intro exI [of _ h] exI [of _ t]) (simp add: next_header_def)
qed

theorem chain_can_be_extended_witness:
  "\<exists>h t. timestamp h = 150 \<and> next_header demo_env (\<lambda>_ _ _. Inr ()) demo_genesis h False = Inr t"
proof -
  let ?k = "\<lparr>producer_name = system_account_name, pk_signing_key = [1]\<rparr>"
  have k: "get_scheduled_producer demo_genesis 150 = Inr ?k"
    by (rule single_producer_scheduled) (simp add: demo_genesis_def genesis_header_state_def Let_def)
  have c: "header_chain demo_env (\<lambda>_ _ _. Inr ())
      (genesis_header_state demo_env [1] 100 (Digest 9 9 9 9)) [] demo_genesis"
    unfolding demo_genesis_def by (rule header_chain_genesis)
  have "unat (block_num demo_genesis) + 1 < 2 ^ 32" "timestamp (header demo_genesis) < 150"
    using demo_genesis_num
    by (simp_all add: demo_genesis_def genesis_header_state_def Let_def)
  then have "\<exists>h t. timestamp h = 150 \<and> producer h = producer_name ?k \<and>
      next_header demo_env (\<lambda>_ _ _. Inr ()) demo_genesis h False = Inr t"
    by (rule chain_can_be_extended [OF c _ _ k, where signer = "\<lambda>_. [1]"])
      (simp add: demo_recover)
  then show ?thesis by blast
qed

end
