(* ===== verification/Fork_Database.thy ===== *)
theory Fork_Database
  imports Header_Chain "HOL-Library.Product_Lexorder"
begin

text \<open>
  The fork database (\<^verbatim>\<open>fork_database.cpp\<close>, \<^verbatim>\<open>block_state.hpp\<close>): the tree of all blocks above the last
  irreversible one. The multi-index container is the list of its blocks in the order of the index
  \<^verbatim>\<open>by_lib_block_num\<close>. A pointer to a block state that the database holds is the identifier of the
  block, so that a change of the shared object is seen through every pointer. The block body and its
  transactions, which the database only carries, are left out.
\<close>

section \<open>Model\<close>

record block_state = block_header_state +
  validated :: bool

text \<open>The three constructors of a block state; \<^verbatim>\<open>validated\<close> starts as false.\<close>

definition block_state_next ::
  "header_env \<Rightarrow> pf_validator \<Rightarrow> block_header_state \<Rightarrow> signed_block_header \<Rightarrow> bool \<Rightarrow> block_state result" where
  "block_state_next env validator prev b skip_validate_signee =
     rbind (next_header env validator prev b skip_validate_signee) (\<lambda>s.
     Inr (block_header_state.extend s (block_state.fields False)))"

definition block_state_produced ::
  "header_env \<Rightarrow> pf_validator \<Rightarrow> pending_block_header_state \<Rightarrow> signed_block_header \<Rightarrow>
     (digest \<Rightarrow> signature_type) \<Rightarrow> block_state result" where
  "block_state_produced env validator cur b signer =
     rbind (finish_next_sign env validator cur b signer) (\<lambda>(s, b').
     Inr (block_header_state.extend s (block_state.fields False)))"

definition block_state_finished ::
  "header_env \<Rightarrow> pf_validator \<Rightarrow> pending_block_header_state \<Rightarrow> signed_block_header \<Rightarrow> bool \<Rightarrow>
     block_state result" where
  "block_state_finished env validator cur b skip_validate_signee =
     rbind (finish_next env validator cur b skip_validate_signee) (\<lambda>s.
     Inr (block_header_state.extend s (block_state.fields False)))"

definition is_valid :: "block_state \<Rightarrow> bool" where
  "is_valid b = validated b"

definition first_preferred ::
  "'a block_header_state_common_scheme \<Rightarrow> 'b block_header_state_common_scheme \<Rightarrow> bool" where
  "first_preferred lhs rhs \<longleftrightarrow>
     dpos_irreversible_blocknum rhs < dpos_irreversible_blocknum lhs \<or>
     dpos_irreversible_blocknum lhs = dpos_irreversible_blocknum rhs \<and> block_num rhs < block_num lhs"

text \<open>The composite key of \<^verbatim>\<open>by_lib_block_num\<close>: validated blocks first, then the higher last irreversible
  block, then the higher block number, then the smaller identifier. An ascending order on naturals is
  used, so the two descending components are subtracted from \<open>2\<^sup>3\<^sup>2\<close>.\<close>

definition fork_key :: "block_state \<Rightarrow> nat \<times> nat \<times> nat \<times> digest" where
  "fork_key b =
     (if validated b then 0 else 1, 2 ^ 32 - unat (dpos_irreversible_blocknum b),
      2 ^ 32 - unat (block_num b), bhs_id b)"

abbreviation prev_id :: "block_state \<Rightarrow> block_id_type" where
  "prev_id b \<equiv> previous (header b)"

record fork_database =
  fdb_index :: "block_state list"
  fdb_root :: "block_state option"
  fdb_head :: "block_id_type option"

definition fork_database_init :: fork_database where
  "fork_database_init = \<lparr>fdb_index = [], fdb_root = None, fdb_head = None\<rparr>"

definition index_find :: "block_state list \<Rightarrow> block_id_type \<Rightarrow> block_state option" where
  "index_find idx i = find (\<lambda>b. bhs_id b = i) idx"

definition get_block :: "fork_database \<Rightarrow> block_id_type \<Rightarrow> block_state option" where
  "get_block s i = index_find (fdb_index s) i"

definition get_block_header :: "fork_database \<Rightarrow> block_id_type \<Rightarrow> block_state option result" where
  "get_block_header s i =
     (case fdb_root s of
        None \<Rightarrow> Inl Undefined_behaviour
      | Some r \<Rightarrow> Inr (if bhs_id r = i then Some r else get_block s i))"

text \<open>The block state the head pointer refers to.\<close>

definition fork_head :: "fork_database \<Rightarrow> block_state result" where
  "fork_head s =
     (case (fdb_head s, fdb_root s) of
        (Some i, Some r) \<Rightarrow>
          if bhs_id r = i then Inr r
          else (case get_block s i of Some b \<Rightarrow> Inr b | None \<Rightarrow> Inl Undefined_behaviour)
      | _ \<Rightarrow> Inl Undefined_behaviour)"

definition fork_reset :: "block_header_state \<Rightarrow> fork_database" where
  "fork_reset root_bhs =
     \<lparr>fdb_index = [],
      fdb_root = Some (block_header_state.extend root_bhs (block_state.fields True)),
      fdb_head = Some (bhs_id root_bhs)\<rparr>"

definition rollback_head_to_root :: "fork_database \<Rightarrow> fork_database" where
  "rollback_head_to_root s =
     s\<lparr>fdb_index := sort_key fork_key (map (\<lambda>b. b\<lparr>validated := False\<rparr>) (fdb_index s)),
       fdb_head := map_option bhs_id (fdb_root s)\<rparr>"

definition fork_add_impl ::
  "pf_validator \<Rightarrow> fork_database \<Rightarrow> block_state \<Rightarrow> bool \<Rightarrow> bool \<Rightarrow> fork_database result" where
  "fork_add_impl validator s n ignore_duplicate validate =
     eos_assert (fdb_root s \<noteq> None) Fork_database_exception (
     rbind (get_block_header s (prev_id n)) (\<lambda>prev_bh.
     case prev_bh of
       None \<Rightarrow> Inl Unlinkable_block_exception
     | Some prev \<Rightarrow>
         rbind (if validate \<and> 0 < length (header_exts n)
                then (case validator (timestamp (header n)) (activated_protocol_features prev)
                             (hd (header_exts n)) of
                        Inl e \<Rightarrow> Inl Fork_database_exception
                      | Inr u \<Rightarrow> Inr u)
                else Inr ()) (\<lambda>_.
         if index_find (fdb_index s) (bhs_id n) \<noteq> None
         then (if ignore_duplicate then Inr s else Inl Fork_database_exception)
         else let idx = insort_key fork_key n (fdb_index s); candidate = hd idx
              in Inr (s\<lparr>fdb_index := idx,
                        fdb_head := (if is_valid candidate then Some (bhs_id candidate)
                                     else fdb_head s)\<rparr>))))"

definition fork_add :: "fork_database \<Rightarrow> block_state \<Rightarrow> bool \<Rightarrow> fork_database result" where
  "fork_add s n ignore_duplicate =
     fork_add_impl (\<lambda>_ _ _. Inr ()) s n ignore_duplicate False"

definition pending_head :: "fork_database \<Rightarrow> block_state result" where
  "pending_head s =
     (case dropWhile is_valid (fdb_index s) of
        [] \<Rightarrow> fork_head s
      | b # _ \<Rightarrow> rbind (fork_head s) (\<lambda>h. if first_preferred b h then Inr b else Inr h))"

text \<open>The two \<^verbatim>\<open>for\<close> loops that follow \<^verbatim>\<open>previous\<close>; the fuel bounds the number of blocks visited.\<close>

fun fetch_branch_loop ::
  "nat \<Rightarrow> block_state list \<Rightarrow> block_state option \<Rightarrow> u32 \<Rightarrow> block_state list result" where
  "fetch_branch_loop fuel idx None trim = Inr []"
| "fetch_branch_loop 0 idx (Some b) trim = Inl Does_not_return"
| "fetch_branch_loop (Suc fuel) idx (Some b) trim =
     rbind (fetch_branch_loop fuel idx (index_find idx (prev_id b)) trim) (\<lambda>rest.
     Inr (if block_num b \<le> trim then b # rest else rest))"

definition fetch_branch :: "fork_database \<Rightarrow> block_id_type \<Rightarrow> u32 \<Rightarrow> block_state list result" where
  "fetch_branch s h trim_after_block_num =
     fetch_branch_loop (length (fdb_index s)) (fdb_index s) (get_block s h) trim_after_block_num"

fun search_on_branch_loop ::
  "nat \<Rightarrow> block_state list \<Rightarrow> block_state option \<Rightarrow> u32 \<Rightarrow> block_state option result" where
  "search_on_branch_loop fuel idx None n = Inr None"
| "search_on_branch_loop 0 idx (Some b) n = Inl Does_not_return"
| "search_on_branch_loop (Suc fuel) idx (Some b) n =
     (if block_num b = n then Inr (Some b)
      else search_on_branch_loop fuel idx (index_find idx (prev_id b)) n)"

definition search_on_branch ::
  "fork_database \<Rightarrow> block_id_type \<Rightarrow> u32 \<Rightarrow> block_state option result" where
  "search_on_branch s h n =
     search_on_branch_loop (length (fdb_index s)) (fdb_index s) (get_block s h) n"

text \<open>\<open>root_or_block\<close> is \<^verbatim>\<open>(i == my->root->id) ? my->root : get_block(i)\<close>.\<close>

definition root_or_block :: "fork_database \<Rightarrow> block_id_type \<Rightarrow> block_state option result" where
  "root_or_block s i = get_block_header s i"

text \<open>The first two \<^verbatim>\<open>while\<close> loops of \<^verbatim>\<open>fetch_branch_from\<close>: go back from \<open>b\<close> until its number is at most \<open>n\<close>.\<close>

fun back_to_num ::
  "nat \<Rightarrow> fork_database \<Rightarrow> block_state \<Rightarrow> u32 \<Rightarrow> block_state list \<Rightarrow>
     (block_state \<times> block_state list) result" where
  "back_to_num fuel s b n acc =
     (if n < block_num b
      then (case fuel of
              0 \<Rightarrow> Inl Does_not_return
            | Suc fuel' \<Rightarrow>
                rbind (root_or_block s (prev_id b)) (\<lambda>p.
                case p of
                  None \<Rightarrow> Inl Fork_db_block_not_found
                | Some b' \<Rightarrow> back_to_num fuel' s b' n (acc @ [b])))
      else Inr (b, acc))"

declare back_to_num.simps [simp del]

fun back_to_common ::
  "nat \<Rightarrow> fork_database \<Rightarrow> block_state \<Rightarrow> block_state \<Rightarrow> block_state list \<Rightarrow> block_state list \<Rightarrow>
     (block_state list \<times> block_state list) result" where
  "back_to_common fuel s a b acc1 acc2 =
     (if prev_id a \<noteq> prev_id b
      then (case fuel of
              0 \<Rightarrow> Inl Does_not_return
            | Suc fuel' \<Rightarrow>
                (case (get_block s (prev_id a), get_block s (prev_id b)) of
                   (Some a', Some b') \<Rightarrow> back_to_common fuel' s a' b' (acc1 @ [a]) (acc2 @ [b])
                 | _ \<Rightarrow> Inl Fork_db_block_not_found))
      else Inr (acc1 @ [a], acc2 @ [b]))"

declare back_to_common.simps [simp del]

definition fetch_branch_from ::
  "fork_database \<Rightarrow> block_id_type \<Rightarrow> block_id_type \<Rightarrow> (block_state list \<times> block_state list) result" where
  "fetch_branch_from s first second =
     (let fuel = length (fdb_index s)
      in rbind (root_or_block s first) (\<lambda>f.
         rbind (root_or_block s second) (\<lambda>g.
         case f of
           None \<Rightarrow> Inl Fork_db_block_not_found
         | Some first_branch \<Rightarrow>
             (case g of
                None \<Rightarrow> Inl Fork_db_block_not_found
              | Some second_branch \<Rightarrow>
                  rbind (back_to_num fuel s first_branch (block_num second_branch) []) (\<lambda>(a, acc1).
                  rbind (back_to_num fuel s second_branch (block_num a) []) (\<lambda>(b, acc2).
                  if bhs_id a = bhs_id b then Inr (acc1, acc2)
                  else back_to_common fuel s a b acc1 acc2))))))"

text \<open>The growing queue of \<^verbatim>\<open>remove\<close>: \<open>done\<close> are the elements before position \<^verbatim>\<open>i\<close>, \<open>todo\<close> the others.\<close>

definition children :: "block_state list \<Rightarrow> block_id_type \<Rightarrow> block_id_type list" where
  "children idx i = map bhs_id (filter (\<lambda>b. prev_id b = i) idx)"

fun remove_loop ::
  "nat \<Rightarrow> block_state list \<Rightarrow> block_id_type \<Rightarrow> block_id_type list \<Rightarrow> block_id_type list \<Rightarrow>
     block_id_type list result" where
  "remove_loop fuel idx head_id done [] = Inr done"
| "remove_loop 0 idx head_id done (x # todo) = Inl Does_not_return"
| "remove_loop (Suc fuel) idx head_id done (x # todo) =
     eos_assert (x \<noteq> head_id) Fork_database_exception
       (remove_loop fuel idx head_id (done @ [x]) (todo @ children idx x))"

definition index_erase :: "block_state list \<Rightarrow> block_id_type \<Rightarrow> block_state list" where
  "index_erase idx i = filter (\<lambda>b. bhs_id b \<noteq> i) idx"

definition fork_remove :: "fork_database \<Rightarrow> block_id_type \<Rightarrow> fork_database result" where
  "fork_remove s i =
     (case fdb_head s of
        None \<Rightarrow> Inl Undefined_behaviour
      | Some head_id \<Rightarrow>
          rbind (remove_loop (length (fdb_index s) + 1) (fdb_index s) head_id [] [i]) (\<lambda>queue.
          Inr (s\<lparr>fdb_index := fold (\<lambda>x idx. index_erase idx x) queue (fdb_index s)\<rparr>)))"

text \<open>The loop of \<^verbatim>\<open>advance_root\<close> that collects the ancestors of the new root.\<close>

fun ancestors_loop ::
  "nat \<Rightarrow> block_state list \<Rightarrow> block_id_type \<Rightarrow> block_state \<Rightarrow> block_id_type list result" where
  "ancestors_loop fuel idx root_id b =
     (case index_find idx (prev_id b) of
        None \<Rightarrow> eos_assert (prev_id b = root_id) Fork_database_exception (Inr [prev_id b])
      | Some b' \<Rightarrow>
          (case fuel of
             0 \<Rightarrow> Inl Does_not_return
           | Suc fuel' \<Rightarrow>
               rbind (ancestors_loop fuel' idx root_id b') (\<lambda>rest. Inr (prev_id b # rest))))"

declare ancestors_loop.simps [simp del]

text \<open>\<^verbatim>\<open>advance_root\<close> with the state it leaves. The new root is erased from the index before the branches off
  its ancestors are removed; where a \<^verbatim>\<open>remove\<close> throws, what is erased so far is not put back.\<close>

definition advance_root_run ::
  "fork_database \<Rightarrow> block_id_type \<Rightarrow> fork_database \<times> chain_exception option" where
  "advance_root_run s i =
     (case fdb_root s of
        None \<Rightarrow> (s, Some Fork_database_exception)
      | Some r \<Rightarrow>
          (case get_block s i of
             None \<Rightarrow> (s, Some Fork_database_exception)
           | Some new_root \<Rightarrow>
               if \<not> is_valid new_root then (s, Some Fork_database_exception)
               else
                 (case ancestors_loop (length (fdb_index s)) (fdb_index s) (bhs_id r) new_root of
                    Inl e \<Rightarrow> (s, Some e)
                  | Inr blocks_to_remove \<Rightarrow>
                      (case rfold_run (\<lambda>x s. fork_remove s x) blocks_to_remove
                              (s\<lparr>fdb_index := index_erase (fdb_index s) i\<rparr>) of
                         (s', None) \<Rightarrow> (s'\<lparr>fdb_root := Some new_root\<rparr>, None)
                       | (s', Some e) \<Rightarrow> (s', Some e)))))"

definition advance_root :: "fork_database \<Rightarrow> block_id_type \<Rightarrow> fork_database result" where
  "advance_root s i = outcome (advance_root_run s i)"

definition mark_valid :: "fork_database \<Rightarrow> block_state \<Rightarrow> fork_database result" where
  "mark_valid s h =
     (if validated h then Inr s
      else
        (case index_find (fdb_index s) (bhs_id h) of
           None \<Rightarrow> Inl Fork_database_exception
         | Some b \<Rightarrow>
             (let idx = insort_key fork_key (b\<lparr>validated := True\<rparr>) (index_erase (fdb_index s) (bhs_id h));
                  s' = s\<lparr>fdb_index := idx\<rparr>;
                  candidate = hd idx
              in rbind (fork_head s') (\<lambda>hd_state.
                 Inr (if first_preferred candidate hd_state
                      then s'\<lparr>fdb_head := Some (bhs_id candidate)\<rparr> else s')))))"

end
