(* ===== verification/Fork_Tree.thy ===== *)
theory Fork_Tree
  imports Fork_Database
begin

text \<open>
  The block tree of the fork database: descendants, the tree invariant, and what removal and the
  walks along \<^verbatim>\<open>previous\<close> compute.
\<close>

section \<open>Looking up blocks\<close>

lemma index_find_SomeD: "index_find idx i = Some b \<Longrightarrow> b \<in> set idx \<and> bhs_id b = i"
  unfolding index_find_def by (auto simp: find_Some_iff)

lemma index_find_None: "index_find idx i = None \<longleftrightarrow> i \<notin> bhs_id ` set idx"
  unfolding index_find_def by (auto simp: find_None_iff)

lemma index_find_member:
  "distinct (map bhs_id idx) \<Longrightarrow> b \<in> set idx \<Longrightarrow> index_find idx (bhs_id b) = Some b"
proof (cases "index_find idx (bhs_id b)")
  case (Some c)
  assume "distinct (map bhs_id idx)" "b \<in> set idx"
  then show ?thesis
    using Some index_find_SomeD [OF Some] by (metis distinct_map inj_onD)
qed (auto simp: index_find_None)

lemma distinct_idsD:
  "distinct (map bhs_id idx) \<Longrightarrow> a \<in> set idx \<Longrightarrow> b \<in> set idx \<Longrightarrow> bhs_id a = bhs_id b \<Longrightarrow> a = b"
  by (metis distinct_map inj_onD)

lemma set_index_erase: "set (index_erase idx i) = {b \<in> set idx. bhs_id b \<noteq> i}"
  by (auto simp: index_erase_def)

lemma filter_index_erase: "filter Q (index_erase idx i) = filter (\<lambda>b. bhs_id b \<noteq> i \<and> Q b) idx"
  by (simp add: index_erase_def)

lemma distinct_ids_filter: "distinct (map bhs_id idx) \<Longrightarrow> distinct (map bhs_id (filter P idx))"
  by (simp add: distinct_map_filter)

section \<open>Descendants\<close>

inductive descends :: "block_state list \<Rightarrow> block_id_type \<Rightarrow> block_id_type \<Rightarrow> bool" for idx a where
  descends_refl: "descends idx a a"
| descends_child: "descends idx a (prev_id b) \<Longrightarrow> b \<in> set idx \<Longrightarrow> descends idx a (bhs_id b)"

inductive_cases descendsE: "descends idx a x"

lemma descends_trans: "descends idx b c \<Longrightarrow> descends idx a b \<Longrightarrow> descends idx a c"
  by (induction rule: descends.induct) (auto intro: descends.intros)

lemma descends_mono: "descends idx a x \<Longrightarrow> set idx \<subseteq> set idx' \<Longrightarrow> descends idx' a x"
  by (induction rule: descends.induct) (auto intro: descends.intros)

lemma descends_parent:
  assumes "distinct (map bhs_id idx)" "b \<in> set idx" "descends idx a (bhs_id b)" "bhs_id b \<noteq> a"
  shows "descends idx a (prev_id b)"
  using assms(3)
proof (cases rule: descends.cases)
  case (descends_child c)
  then have "b = c" using distinct_idsD [OF assms(1,2)] by simp
  with descends_child show ?thesis by simp
qed (use assms in simp)

lemma descends_outside: "descends idx a x \<Longrightarrow> x \<noteq> a \<Longrightarrow> x \<in> bhs_id ` set idx"
  by (auto elim: descendsE)

lemma descends_absent: "index_find idx z = None \<Longrightarrow> descends idx x z \<longleftrightarrow> x = z"
  by (auto simp: index_find_None intro: descends_refl elim: descendsE)

text \<open>Taking away everything below \<open>x\<close> does not change the descendants outside of it.\<close>

lemma descends_filter:
  assumes "\<not> descends idx x z"
  shows "descends (filter (\<lambda>b. \<not> descends idx x (bhs_id b)) idx) y z \<longleftrightarrow> descends idx y z"
proof
  assume "descends idx y z"
  then show "descends (filter (\<lambda>b. \<not> descends idx x (bhs_id b)) idx) y z"
    using assms
  proof (induction rule: descends.induct)
    case (descends_child b)
    then have "\<not> descends idx x (prev_id b)" by (auto intro: descends.intros)
    then show ?case using descends_child by (auto intro: descends.intros)
  qed (rule descends_refl)
qed (auto intro: descends_mono)

section \<open>Removing a subtree\<close>

text \<open>A forest: identifiers are unique and the number of a block is one more than that of its parent,
  where the parent is present.\<close>

definition forest :: "block_state list \<Rightarrow> bool" where
  "forest idx \<longleftrightarrow> distinct (map bhs_id idx) \<and>
     (\<forall>b \<in> set idx. \<forall>p \<in> set idx. bhs_id p = prev_id b \<longrightarrow>
        unat (block_num b) = unat (block_num p) + 1)"

lemma forest_filter: "forest idx \<Longrightarrow> forest (filter P idx)"
  by (auto simp: forest_def distinct_map_filter)

lemma forest_descends_num:
  assumes "forest idx" "p \<in> set idx" "descends idx (bhs_id p) x" "x \<noteq> bhs_id p"
  shows "\<exists>b \<in> set idx. bhs_id b = x \<and> unat (block_num p) < unat (block_num b)"
  using assms(3,4)
proof (induction rule: descends.induct)
  case (descends_child b)
  show ?case
  proof (cases "prev_id b = bhs_id p")
    case True
    then show ?thesis using assms(1,2) descends_child.hyps(2) by (auto simp: forest_def)
  next
    case False
    then obtain c where c: "c \<in> set idx" "bhs_id c = prev_id b"
        "unat (block_num p) < unat (block_num c)"
      using descends_child.IH by blast
    then have "unat (block_num b) = unat (block_num c) + 1"
      using assms(1) descends_child.hyps(2) by (simp add: forest_def)
    then show ?thesis using c descends_child.hyps(2) by auto
  qed
qed simp

lemma forest_acyclic:
  assumes "forest idx" "b \<in> set idx"
  shows "\<not> descends idx (bhs_id b) (prev_id b)"
proof
  assume d: "descends idx (bhs_id b) (prev_id b)"
  show False
  proof (cases "prev_id b = bhs_id b")
    case True
    then have "unat (block_num b) = unat (block_num b) + 1"
      using assms unfolding forest_def by (metis (no_types))
    then show ?thesis by simp
  next
    case False
    then obtain c where "c \<in> set idx" "bhs_id c = prev_id b" "unat (block_num b) < unat (block_num c)"
      using forest_descends_num [OF assms d] by blast
    then show ?thesis using assms by (auto simp: forest_def)
  qed
qed

text \<open>The queue of \<^verbatim>\<open>remove\<close> holds no identifier twice, so that it never gets longer than the index.\<close>

definition queue_inv ::
  "block_state list \<Rightarrow> block_id_type \<Rightarrow> block_id_type list \<Rightarrow> block_id_type list \<Rightarrow> bool" where
  "queue_inv idx i done todo \<longleftrightarrow>
     distinct (done @ todo) \<and> i \<in> set (done @ todo) \<and>
     (\<forall>x \<in> set (done @ todo). descends idx i x) \<and>
     (\<forall>x \<in> set (done @ todo). x \<noteq> i \<longrightarrow> (\<exists>b \<in> set idx. bhs_id b = x \<and> prev_id b \<in> set done)) \<and>
     (\<forall>b \<in> set idx. prev_id b \<in> set done \<longrightarrow> bhs_id b \<in> set (done @ todo))"

lemma set_children: "set (children idx x) = bhs_id ` {b \<in> set idx. prev_id b = x}"
  by (auto simp: children_def)

lemma queue_inv_step:
  assumes f: "forest idx" and q: "queue_inv idx i done (x # todo)"
  shows "queue_inv idx i (done @ [x]) (todo @ children idx x)"
proof -
  have x: "x \<notin> set done" "descends idx i x" using q by (auto simp: queue_inv_def)
  have fresh: "bhs_id b \<notin> set (done @ x # todo)" if b: "b \<in> set idx" "prev_id b = x" for b
  proof
    assume m: "bhs_id b \<in> set (done @ x # todo)"
    show False
    proof (cases "bhs_id b = i")
      case True
      then show False using forest_acyclic [OF f b(1)] b(2) x(2) by simp
    next
      case False
      then obtain c where c: "c \<in> set idx" "bhs_id c = bhs_id b" "prev_id c \<in> set done"
        using q m unfolding queue_inv_def by blast
      then have "c = b" using f b distinct_idsD [of idx c b] by (simp add: forest_def)
      then show False using c b x by simp
    qed
  qed
  have dist: "distinct (children idx x)"
    using f by (simp add: children_def forest_def distinct_map_filter)
  have disj: "set (children idx x) \<inter> set (done @ x # todo) = {}"
    using fresh by (auto simp: set_children)
  have desc: "descends idx i y" if "y \<in> set (children idx x)" for y
    using that x(2) by (auto simp: set_children intro: descends_child)
  have Q: "distinct (done @ x # todo)" "i \<in> set (done @ x # todo)"
      "\<And>y. y \<in> set (done @ x # todo) \<Longrightarrow> descends idx i y"
      "\<And>y. y \<in> set (done @ x # todo) \<Longrightarrow> y \<noteq> i \<Longrightarrow>
         \<exists>b \<in> set idx. bhs_id b = y \<and> prev_id b \<in> set done"
      "\<And>b. b \<in> set idx \<Longrightarrow> prev_id b \<in> set done \<Longrightarrow> bhs_id b \<in> set (done @ x # todo)"
    using q unfolding queue_inv_def by blast+
  have split: "set ((done @ [x]) @ todo @ children idx x) = set (done @ x # todo) \<union> set (children idx x)"
    by auto
  have "distinct ((done @ [x]) @ todo @ children idx x)"
    using Q(1) dist disj by auto
  moreover have "\<exists>b \<in> set idx. bhs_id b = y \<and> prev_id b \<in> set (done @ [x])"
    if "y \<in> set (done @ x # todo) \<union> set (children idx x)" "y \<noteq> i" for y
    using that Q(4) [of y] by (auto simp: set_children)
  moreover have "bhs_id b \<in> set (done @ x # todo) \<union> set (children idx x)"
    if "b \<in> set idx" "prev_id b \<in> set (done @ [x])" for b
    using that Q(5) [of b] by (auto simp: set_children)
  ultimately show ?thesis
    unfolding queue_inv_def split using Q(2,3) desc by blast
qed

lemma queue_inv_length:
  assumes "queue_inv idx i done todo"
  shows "length (done @ todo) \<le> length idx + 1"
proof -
  have "set (done @ todo) \<subseteq> insert i (bhs_id ` set idx)"
    using assms by (auto simp: queue_inv_def)
  then have "card (set (done @ todo)) \<le> card (insert i (bhs_id ` set idx))"
    by (intro card_mono) auto
  also have "\<dots> \<le> card (bhs_id ` set idx) + 1" by (simp add: card_insert_if)
  also have "\<dots> \<le> length idx + 1"
    by (meson add_le_mono1 card_image_le card_length finite_set le_trans)
  finally have "card (set (done @ todo)) \<le> length idx + 1" .
  moreover have "card (set (done @ todo)) = length (done @ todo)"
    by (rule distinct_card) (use assms in \<open>simp only: queue_inv_def\<close>)
  ultimately show ?thesis by simp
qed

lemma queue_inv_done:
  assumes "queue_inv idx i done []"
  shows "set done = {x. descends idx i x}"
proof
  show "{x. descends idx i x} \<subseteq> set done"
  proof
    fix x assume "x \<in> {x. descends idx i x}"
    then have "descends idx i x" by simp
    then show "x \<in> set done"
      using assms by (induction rule: descends.induct) (auto simp: queue_inv_def)
  qed
qed (use assms in \<open>auto simp: queue_inv_def\<close>)

lemma remove_loop_spec:
  assumes "forest idx" "queue_inv idx i done todo" "head_id \<notin> set done"
    and "length idx + 1 \<le> fuel + length done"
  shows "if descends idx i head_id
    then remove_loop fuel idx head_id done todo = Inl Fork_database_exception
    else \<exists>q. remove_loop fuel idx head_id done todo = Inr q \<and> set q = {x. descends idx i x}"
  using assms
proof (induction fuel idx head_id "done" todo rule: remove_loop.induct)
  case (1 fuel idx head_id "done")
  then show ?case using queue_inv_done [OF "1.prems"(2)] by simp
next
  case (2 idx head_id "done" x todo)
  then show ?case using queue_inv_length [OF "2.prems"(2)] by simp
next
  case (3 fuel idx head_id "done" x todo)
  show ?case
  proof (cases "x = head_id")
    case True
    then show ?thesis using "3.prems"(2) by (simp add: queue_inv_def)
  next
    case False
    then show ?thesis
      using "3.IH" "3.prems" queue_inv_step [OF "3.prems"(1,2)] by simp
  qed
qed

lemma fold_index_erase:
  "fold (\<lambda>x idx. index_erase idx x) q idx = filter (\<lambda>b. bhs_id b \<notin> set q) idx"
  by (induction q arbitrary: idx) (auto simp: index_erase_def intro: filter_cong)

lemma fork_remove_spec:
  assumes "forest (fdb_index s)" "fdb_head s = Some head_id"
  shows "fork_remove s i =
    (if descends (fdb_index s) i head_id then Inl Fork_database_exception
     else Inr (s\<lparr>fdb_index := filter (\<lambda>b. \<not> descends (fdb_index s) i (bhs_id b)) (fdb_index s)\<rparr>))"
proof -
  have q: "queue_inv (fdb_index s) i [] [i]"
    by (auto simp: queue_inv_def intro: descends_refl)
  note spec = remove_loop_spec [OF assms(1) q, of head_id "length (fdb_index s) + 1"]
  show ?thesis
  proof (cases "descends (fdb_index s) i head_id")
    case True
    then show ?thesis using spec assms(2) by (simp add: fork_remove_def)
  next
    case False
    then obtain q where "remove_loop (length (fdb_index s) + 1) (fdb_index s) head_id [] [i] = Inr q"
        "set q = {x. descends (fdb_index s) i x}"
      using spec by auto
    then show ?thesis using False assms(2) by (simp add: fork_remove_def fold_index_erase)
  qed
qed

text \<open>The removals of a list of blocks stop at the first one the head descends from.\<close>

lemma rfold_run_remove_spec:
  assumes "forest (fdb_index s)" "fdb_head s = Some head_id"
  defines "idx \<equiv> fdb_index s"
  shows "rfold_run (\<lambda>x s. fork_remove s x) xs s =
    (s\<lparr>fdb_index := filter (\<lambda>b. \<forall>x \<in> set (takeWhile (\<lambda>x. \<not> descends idx x head_id) xs).
         \<not> descends idx x (bhs_id b)) idx\<rparr>,
     if \<exists>x \<in> set xs. descends idx x head_id then Some Fork_database_exception else None)"
  using assms(1,2) unfolding idx_def
proof (induction xs arbitrary: s)
  case (Cons x xs)
  let ?idx = "fdb_index s"
  let ?idx' = "filter (\<lambda>b. \<not> descends ?idx x (bhs_id b)) ?idx"
  show ?case
  proof (cases "descends ?idx x head_id")
    case True
    then show ?thesis using fork_remove_spec [OF Cons.prems] by simp
  next
    case False
    then have r: "fork_remove s x = Inr (s\<lparr>fdb_index := ?idx'\<rparr>)"
      using fork_remove_spec [OF Cons.prems] by simp
    have h: "descends ?idx' y head_id \<longleftrightarrow> descends ?idx y head_id" for y
      using descends_filter [OF False] .
    have b: "filter (\<lambda>b. \<forall>y \<in> set ys. \<not> descends ?idx' y (bhs_id b)) ?idx' =
        filter (\<lambda>b. \<forall>y \<in> set (x # ys). \<not> descends ?idx y (bhs_id b)) ?idx" for ys
      by (auto simp: descends_filter intro!: filter_cong)
    have "rfold_run (\<lambda>x s. fork_remove s x) xs (s\<lparr>fdb_index := ?idx'\<rparr>) =
        (s\<lparr>fdb_index := filter (\<lambda>b. \<forall>y \<in> set (takeWhile (\<lambda>y. \<not> descends ?idx' y head_id) xs).
           \<not> descends ?idx' y (bhs_id b)) ?idx'\<rparr>,
         if \<exists>y \<in> set xs. descends ?idx' y head_id then Some Fork_database_exception else None)"
      using Cons.IH [of "s\<lparr>fdb_index := ?idx'\<rparr>"] Cons.prems forest_filter
      by (simp del: filter_filter)
    then show ?thesis using False unfolding h b by (simp add: r)
  qed
qed simp

lemma rfold_remove_spec:
  assumes "forest (fdb_index s)" "fdb_head s = Some head_id"
  shows "rfold (\<lambda>x s. fork_remove s x) xs s =
    (if \<exists>x \<in> set xs. descends (fdb_index s) x head_id then Inl Fork_database_exception
     else Inr (s\<lparr>fdb_index :=
       filter (\<lambda>b. \<forall>x \<in> set xs. \<not> descends (fdb_index s) x (bhs_id b)) (fdb_index s)\<rparr>))"
proof (cases "\<exists>x \<in> set xs. descends (fdb_index s) x head_id")
  case False
  then have all: "takeWhile (\<lambda>x. \<not> descends (fdb_index s) x head_id) xs = xs" by simp
  show ?thesis
    using False rfold_run_remove_spec [OF assms, of xs] unfolding all by (simp flip: outcome_rfold_run)
qed (use rfold_run_remove_spec [OF assms, of xs] in \<open>simp flip: outcome_rfold_run\<close>)

section \<open>The tree above the root\<close>

definition block_tree :: "block_state \<Rightarrow> block_state list \<Rightarrow> bool" where
  "block_tree r idx \<longleftrightarrow> distinct (map bhs_id idx) \<and> bhs_id r \<notin> bhs_id ` set idx \<and>
     (\<forall>b \<in> set idx. \<exists>p \<in> insert r (set idx). bhs_id p = prev_id b \<and>
        unat (block_num b) = unat (block_num p) + 1)"

lemma block_tree_parent:
  assumes "block_tree r idx" "b \<in> set idx"
  obtains p where "p \<in> insert r (set idx)" "bhs_id p = prev_id b"
    "unat (block_num b) = unat (block_num p) + 1"
  using assms unfolding block_tree_def by blast

lemma block_tree_unique:
  assumes "block_tree r idx" "a \<in> insert r (set idx)" "b \<in> insert r (set idx)" "bhs_id a = bhs_id b"
  shows "a = b"
proof -
  have "distinct (map bhs_id idx)" "bhs_id r \<notin> bhs_id ` set idx"
    using assms(1) by (simp_all add: block_tree_def)
  then show ?thesis
    using assms(2-4) distinct_idsD [of idx a b] by (metis image_eqI insertE)
qed

lemma block_tree_forest:
  assumes "block_tree r idx"
  shows "forest idx"
  unfolding forest_def
proof (intro conjI ballI impI)
  show "distinct (map bhs_id idx)" using assms by (simp add: block_tree_def)
  fix b p assume bp: "b \<in> set idx" "p \<in> set idx" "bhs_id p = prev_id b"
  obtain q where q: "q \<in> insert r (set idx)" "bhs_id q = prev_id b"
      "unat (block_num b) = unat (block_num q) + 1"
    using assms bp(1) by (rule block_tree_parent)
  have "bhs_id q = bhs_id p" using q(2) bp(3) by (rule trans [OF _ sym])
  then have "q = p" using block_tree_unique [OF assms q(1)] bp(2) by blast
  with q show "unat (block_num b) = unat (block_num p) + 1" by simp
qed

lemma block_tree_above_root:
  assumes "block_tree r idx"
  shows "b \<in> set idx \<Longrightarrow> unat (block_num r) < unat (block_num b) \<and> descends idx (bhs_id r) (bhs_id b)"
proof (induction "unat (block_num b)" arbitrary: b rule: less_induct)
  case less
  obtain p where p: "p \<in> insert r (set idx)" "bhs_id p = prev_id b"
      "unat (block_num b) = unat (block_num p) + 1"
    using assms less.prems by (rule block_tree_parent)
  have "unat (block_num r) \<le> unat (block_num p) \<and> descends idx (bhs_id r) (bhs_id p)"
  proof (cases "p = r")
    case True
    then show ?thesis by (simp add: descends_refl)
  next
    case False
    then have "p \<in> set idx" using p(1) by simp
    then show ?thesis using less.hyps [of p] p(3) by simp
  qed
  then have "unat (block_num r) < unat (block_num b)" "descends idx (bhs_id r) (prev_id b)"
    using p(3) unfolding p(2) by simp_all
  then show ?case using less.prems by (blast intro: descends_child)
qed

lemma block_tree_height:
  assumes "block_tree r idx"
  shows "b \<in> set idx \<Longrightarrow> {unat (block_num r) + 1..unat (block_num b)} \<subseteq> (unat \<circ> block_num) ` set idx"
proof (induction "unat (block_num b)" arbitrary: b rule: less_induct)
  case less
  obtain p where p: "p \<in> insert r (set idx)" "unat (block_num b) = unat (block_num p) + 1"
    using assms less.prems by (rule block_tree_parent)
  have "{unat (block_num r) + 1..unat (block_num p)} \<subseteq> (unat \<circ> block_num) ` set idx"
    using less.hyps [of p] p by auto
  moreover have "{unat (block_num r) + 1..unat (block_num b)} \<subseteq>
      insert (unat (block_num b)) {unat (block_num r) + 1..unat (block_num p)}"
    using p(2) by auto
  ultimately show ?case using less.prems by auto
qed

text \<open>No walk from a block to the root is longer than the index: the fuel of the loops is enough.\<close>

lemma block_tree_fuel:
  assumes "block_tree r idx" "b \<in> insert r (set idx)"
  shows "unat (block_num b) - unat (block_num r) \<le> length idx"
proof (cases "b = r")
  case False
  then have "card {unat (block_num r) + 1..unat (block_num b)} \<le> card ((unat \<circ> block_num) ` set idx)"
    using block_tree_height [OF assms(1), of b] assms(2) by (intro card_mono) auto
  also have "\<dots> \<le> length idx" by (meson card_image_le card_length finite_set le_trans)
  finally show ?thesis by simp
qed simp

section \<open>Advancing the root\<close>

lemma ancestors_loop_spec:
  assumes "block_tree r idx"
  shows "b \<in> set idx \<Longrightarrow> unat (block_num b) - unat (block_num r) \<le> fuel + 1 \<Longrightarrow>
    \<exists>xs. ancestors_loop fuel idx (bhs_id r) b = Inr xs \<and> bhs_id r \<in> set xs \<and>
      (\<forall>x. x \<in> set xs \<longleftrightarrow> descends idx x (prev_id b)) \<and> sorted_wrt (\<lambda>x y. descends idx y x) xs"
proof (induction fuel arbitrary: b)
  case 0
  obtain p where p: "p \<in> insert r (set idx)" "bhs_id p = prev_id b"
      "unat (block_num b) = unat (block_num p) + 1"
    using assms "0.prems"(1) by (rule block_tree_parent)
  have "p = r" using p block_tree_above_root [OF assms, of p] "0.prems"(2) by auto
  then have "index_find idx (prev_id b) = None" "prev_id b = bhs_id r"
    using assms p by (auto simp: index_find_None block_tree_def)
  then show ?case by (simp add: ancestors_loop.simps descends_absent)
next
  case (Suc fuel)
  obtain p where p: "p \<in> insert r (set idx)" "bhs_id p = prev_id b"
      "unat (block_num b) = unat (block_num p) + 1"
    using assms Suc.prems(1) by (rule block_tree_parent)
  show ?case
  proof (cases "p = r")
    case True
    then have "index_find idx (prev_id b) = None" "prev_id b = bhs_id r"
      using assms p by (auto simp: index_find_None block_tree_def)
    then show ?thesis by (simp add: ancestors_loop.simps descends_absent)
  next
    case False
    then have pi: "p \<in> set idx" using p by simp
    then have "index_find idx (prev_id b) = Some p"
      using assms p(2) index_find_member [of idx p] by (simp add: block_tree_def)
    moreover have "unat (block_num p) - unat (block_num r) \<le> fuel + 1"
      using Suc.prems(2) p(3) by linarith
    then obtain xs where xs: "ancestors_loop fuel idx (bhs_id r) p = Inr xs" "bhs_id r \<in> set xs"
        "\<forall>x. x \<in> set xs \<longleftrightarrow> descends idx x (prev_id p)" "sorted_wrt (\<lambda>x y. descends idx y x) xs"
      using Suc.IH [OF pi] by blast
    moreover have d: "distinct (map bhs_id idx)" using assms by (simp add: block_tree_def)
    have "descends idx x (prev_id b) \<longleftrightarrow> x = prev_id b \<or> descends idx x (prev_id p)" for x
      using descends_parent [OF d pi, of x] descends_child [OF _ pi, of x] descends_refl
      by (auto simp flip: p(2))
    ultimately show ?thesis
      by (intro exI [of _ "prev_id b # xs"]) (auto simp: ancestors_loop.simps [of "Suc fuel"])
  qed
qed

lemma ancestors_of_block:
  assumes "block_tree r idx" "b \<in> set idx"
  obtains xs where "ancestors_loop (length idx) idx (bhs_id r) b = Inr xs" "bhs_id r \<in> set xs"
    "\<forall>x. x \<in> set xs \<longleftrightarrow> descends idx x (prev_id b)" "sorted_wrt (\<lambda>x y. descends idx y x) xs"
proof -
  have "unat (block_num b) - unat (block_num r) \<le> length idx + 1"
    using block_tree_fuel [OF assms(1), of b] assms(2) by simp
  then show thesis using ancestors_loop_spec [OF assms, of "length idx"] that by blast
qed

text \<open>Without the new root in the index, its proper ancestors reach exactly the blocks that are not above
  it.\<close>

lemma descends_cut:
  assumes t: "block_tree r idx" and n: "n \<in> set idx" and x: "descends idx x (prev_id n)"
    and z: "descends idx (bhs_id n) z"
  shows "\<not> descends (index_erase idx (bhs_id n)) x z"
  using z
proof (induction rule: descends.induct)
  case descends_refl
  have "\<not> descends idx (bhs_id n) (prev_id n)"
    using forest_acyclic [OF block_tree_forest [OF t] n] .
  then have "x \<noteq> bhs_id n" using x by auto
  then show ?case by (auto simp: set_index_erase dest!: descends_outside)
next
  case (descends_child b)
  show ?case
  proof
    assume d: "descends (index_erase idx (bhs_id n)) x (bhs_id b)"
    show False
    proof (cases "bhs_id b = x")
      case True
      then have "descends idx (bhs_id n) (prev_id n)"
        using x descends_child descends.descends_child descends_trans by metis
      then show ?thesis using forest_acyclic [OF block_tree_forest [OF t] n] by blast
    next
      case False
      then obtain c where "c \<in> set (index_erase idx (bhs_id n))" "bhs_id c = bhs_id b"
          "descends (index_erase idx (bhs_id n)) x (prev_id c)"
        using d by (auto elim: descendsE)
      moreover from this have "c = b"
        using t descends_child.hyps(2) distinct_idsD [of idx c b]
        by (simp add: set_index_erase block_tree_def)
      ultimately show ?thesis using descends_child.IH by simp
    qed
  qed
qed

lemma descends_cut_other:
  assumes "descends idx x z" "\<not> descends idx i z"
  shows "descends (index_erase idx i) x z"
  using assms
proof (induction rule: descends.induct)
  case (descends_child b)
  then have "\<not> descends idx i (prev_id b)" "bhs_id b \<noteq> i"
    by (auto intro: descends.intros)
  then show ?case using descends_child by (auto simp: set_index_erase intro: descends.intros)
qed (rule descends_refl)

lemma advance_root_eq:
  "advance_root s i =
     (case fdb_root s of
        None \<Rightarrow> Inl Fork_database_exception
      | Some r \<Rightarrow>
          (case get_block s i of
             None \<Rightarrow> Inl Fork_database_exception
           | Some n \<Rightarrow>
               eos_assert (is_valid n) Fork_database_exception (
               rbind (ancestors_loop (length (fdb_index s)) (fdb_index s) (bhs_id r) n) (\<lambda>xs.
               rbind (rfold (\<lambda>x s. fork_remove s x) xs (s\<lparr>fdb_index := index_erase (fdb_index s) i\<rparr>)) (\<lambda>s'.
               Inr (s'\<lparr>fdb_root := Some n\<rparr>))))))"
  by (auto simp: advance_root_def advance_root_run_def eos_assert_def outcome_rfold_run [symmetric]
      split: option.split sum.split prod.split)

lemma advance_root_spec:
  assumes t: "block_tree r (fdb_index s)" and root: "fdb_root s = Some r"
    and head: "fdb_head s = Some head_id" "head_id \<in> bhs_id ` insert r (set (fdb_index s))"
    and n: "n \<in> set (fdb_index s)" "is_valid n"
  shows "advance_root s (bhs_id n) =
    (if descends (fdb_index s) (bhs_id n) head_id
     then Inr (s\<lparr>fdb_index := filter (\<lambda>b. bhs_id b \<noteq> bhs_id n \<and>
                   descends (fdb_index s) (bhs_id n) (bhs_id b)) (fdb_index s),
                 fdb_root := Some n\<rparr>)
     else Inl Fork_database_exception)"
proof -
  define idx i idx1 where "idx = fdb_index s" and "i = bhs_id n" and "idx1 = index_erase idx i"
  note D = idx_def [symmetric] i_def [symmetric]
  note t = t [unfolded D] and n = n [unfolded D] and head = head [unfolded D]
  have find: "get_block s i = Some n"
    using t n(1) index_find_member [of idx n] by (simp add: get_block_def block_tree_def D)
  obtain xs where xs: "ancestors_loop (length idx) idx (bhs_id r) n = Inr xs" "bhs_id r \<in> set xs"
      "\<forall>x. x \<in> set xs \<longleftrightarrow> descends idx x (prev_id n)"
    using t n(1) by (rule ancestors_of_block)
  have above: "\<not> descends idx1 x z" if "x \<in> set xs" "descends idx i z" for x z
    using descends_cut [OF t n(1), of x z] that xs(3) by (simp add: idx1_def D)
  have below: "descends idx1 (bhs_id r) z"
    if "z \<in> bhs_id ` insert r (set idx)" "\<not> descends idx i z" for z
  proof -
    have "descends idx (bhs_id r) z"
      using that(1) block_tree_above_root [OF t] by (auto intro: descends_refl)
    then show ?thesis using descends_cut_other [OF _ that(2)] by (simp add: idx1_def)
  qed
  have key: "(\<forall>x \<in> set xs. \<not> descends idx1 x z) \<longleftrightarrow> descends idx i z"
    if "z \<in> bhs_id ` insert r (set idx)" for z
    using above below [OF that] xs(2) by blast
  have f: "filter (\<lambda>b. \<forall>x \<in> set xs. \<not> descends idx1 x (bhs_id b)) idx1 =
      filter (\<lambda>b. bhs_id b \<noteq> i \<and> descends idx i (bhs_id b)) idx"
    unfolding idx1_def [unfolded index_erase_def] filter_filter
    unfolding idx1_def [unfolded index_erase_def, symmetric]
    by (rule filter_cong [OF refl]) (simp add: key)
  have "forest idx1"
    using forest_filter [OF block_tree_forest [OF t]] by (simp add: idx1_def index_erase_def)
  then have "rfold (\<lambda>x s. fork_remove s x) xs (s\<lparr>fdb_index := idx1\<rparr>) =
      (if \<exists>x \<in> set xs. descends idx1 x head_id then Inl Fork_database_exception
       else Inr (s\<lparr>fdb_index := filter (\<lambda>b. bhs_id b \<noteq> i \<and> descends idx i (bhs_id b)) idx\<rparr>))"
    using rfold_remove_spec [of "s\<lparr>fdb_index := idx1\<rparr>" head_id xs] head(1) f by simp
  moreover have "(\<exists>x \<in> set xs. descends idx1 x head_id) \<longleftrightarrow> \<not> descends idx i head_id"
    using key [OF head(2)] by blast
  ultimately show ?thesis
    using n(2) unfolding D by (simp add: advance_root_eq root find xs(1) D idx1_def [symmetric])
qed

text \<open>Where the head is not above the new root, the call stops at the first ancestor that the head descends
  from. The new root and the branches off the earlier ancestors are gone; the descendants of the new root stay.\<close>

lemma takeWhile_filter_down:
  assumes "sorted_wrt R xs" "\<And>x y. x \<in> set xs \<Longrightarrow> y \<in> set xs \<Longrightarrow> R x y \<Longrightarrow> P y \<Longrightarrow> P x"
  shows "takeWhile P xs = filter P xs"
  using assms
proof (induction xs)
  case (Cons x xs)
  show ?case
  proof (cases "P x")
    case True
    then show ?thesis using Cons by auto
  next
    case False
    then have "\<not> P y" if "y \<in> set xs" for y using Cons.prems that by auto
    then show ?thesis using False by (simp add: filter_empty_conv)
  qed
qed simp

lemma advance_root_run_interrupted:
  assumes t: "block_tree r (fdb_index s)" and root: "fdb_root s = Some r"
    and head: "fdb_head s = Some head_id" "head_id \<in> bhs_id ` insert r (set (fdb_index s))"
    and n: "n \<in> set (fdb_index s)" "is_valid n"
    and off: "\<not> descends (fdb_index s) (bhs_id n) head_id"
  shows "advance_root_run s (bhs_id n) =
    (s\<lparr>fdb_index := filter (\<lambda>b. bhs_id b \<noteq> bhs_id n \<and>
        (descends (fdb_index s) (bhs_id n) (bhs_id b) \<or>
         (\<forall>a. descends (fdb_index s) a (prev_id n) \<and> \<not> descends (fdb_index s) a head_id \<longrightarrow>
            \<not> descends (fdb_index s) a (bhs_id b)))) (fdb_index s)\<rparr>, Some Fork_database_exception)"
proof -
  define idx i idx1 where "idx = fdb_index s" and "i = bhs_id n" and "idx1 = index_erase idx i"
  note D = idx_def [symmetric] i_def [symmetric]
  note t = t [unfolded D] and n = n [unfolded D] and head = head [unfolded D] and off = off [unfolded D]
  have find: "get_block s i = Some n"
    using t n(1) index_find_member [of idx n] by (simp add: get_block_def block_tree_def D)
  obtain xs where xs: "ancestors_loop (length idx) idx (bhs_id r) n = Inr xs" "bhs_id r \<in> set xs"
      "\<forall>x. x \<in> set xs \<longleftrightarrow> descends idx x (prev_id n)" "sorted_wrt (\<lambda>x y. descends idx y x) xs"
    using t n(1) by (rule ancestors_of_block)
  have cut: "descends idx1 x z \<longleftrightarrow> descends idx x z \<and> \<not> descends idx i z" if "x \<in> set xs" for x z
  proof
    show "descends idx1 x z" if "descends idx x z \<and> \<not> descends idx i z"
      using that descends_cut_other by (auto simp: idx1_def)
    assume "descends idx1 x z"
    moreover have "descends idx x z"
      using \<open>descends idx1 x z\<close> by (rule descends_mono) (auto simp: idx1_def set_index_erase)
    ultimately show "descends idx x z \<and> \<not> descends idx i z"
      using descends_cut [OF t n(1), of x z] that xs(3) by (auto simp: idx1_def D)
  qed
  have hd: "descends idx1 x head_id \<longleftrightarrow> descends idx x head_id" if "x \<in> set xs" for x
    using cut [OF that] off by simp
  have "takeWhile (\<lambda>x. \<not> descends idx1 x head_id) xs = filter (\<lambda>x. \<not> descends idx1 x head_id) xs"
    by (rule takeWhile_filter_down [OF xs(4)]) (use hd descends_trans in blast)
  then have tw: "set (takeWhile (\<lambda>x. \<not> descends idx1 x head_id) xs) =
      {a. descends idx a (prev_id n) \<and> \<not> descends idx a head_id}"
    using hd xs(3) by auto
  have top: "\<exists>x \<in> set xs. descends idx1 x head_id"
  proof (rule bexI [OF _ xs(2)])
    obtain b where "head_id = bhs_id b" "b = r \<or> b \<in> set idx" using head(2) by blast
    then have "descends idx (bhs_id r) head_id"
      using block_tree_above_root [OF t, of b] by (auto intro: descends_refl)
    then show "descends idx1 (bhs_id r) head_id" using hd [OF xs(2)] by simp
  qed
  have "filter (\<lambda>b. \<forall>a \<in> {a. descends idx a (prev_id n) \<and> \<not> descends idx a head_id}.
        \<not> descends idx1 a (bhs_id b)) idx1 =
      filter (\<lambda>b. bhs_id b \<noteq> i \<and> (descends idx i (bhs_id b) \<or>
        (\<forall>a. descends idx a (prev_id n) \<and> \<not> descends idx a head_id \<longrightarrow> \<not> descends idx a (bhs_id b)))) idx"
    unfolding idx1_def [unfolded index_erase_def] filter_filter
    unfolding idx1_def [unfolded index_erase_def, symmetric]
    by (rule filter_cong [OF refl]) (use cut xs(3) in blast)
  moreover have "forest idx1"
    using forest_filter [OF block_tree_forest [OF t]] by (simp add: idx1_def index_erase_def)
  ultimately have "rfold_run (\<lambda>x s. fork_remove s x) xs (s\<lparr>fdb_index := idx1\<rparr>) =
      (s\<lparr>fdb_index := filter (\<lambda>b. bhs_id b \<noteq> i \<and> (descends idx i (bhs_id b) \<or>
        (\<forall>a. descends idx a (prev_id n) \<and> \<not> descends idx a head_id \<longrightarrow> \<not> descends idx a (bhs_id b)))) idx\<rparr>,
       Some Fork_database_exception)"
    using rfold_run_remove_spec [of "s\<lparr>fdb_index := idx1\<rparr>" head_id xs] head(1) top tw by simp
  then show ?thesis
    using n(2) unfolding D by (simp add: advance_root_run_def root find xs(1) D idx1_def [symmetric])
qed

section \<open>Walking back to the root\<close>

text \<open>\<open>branch_path r idx b bs\<close>: \<open>bs\<close> are the blocks from \<open>b\<close> back to the root \<open>r\<close>, which is left out.\<close>

inductive branch_path :: "block_state \<Rightarrow> block_state list \<Rightarrow> block_state \<Rightarrow> block_state list \<Rightarrow> bool"
  for r idx where
  branch_root: "branch_path r idx r []"
| branch_block: "b \<in> set idx \<Longrightarrow> p \<in> insert r (set idx) \<Longrightarrow> bhs_id p = prev_id b \<Longrightarrow>
    branch_path r idx p bs \<Longrightarrow> branch_path r idx b (b # bs)"

lemma branch_path_exists:
  assumes "block_tree r idx"
  shows "b \<in> insert r (set idx) \<Longrightarrow> \<exists>bs. branch_path r idx b bs"
proof (induction "unat (block_num b)" arbitrary: b rule: less_induct)
  case less
  show ?case
  proof (cases "b = r")
    case True
    then show ?thesis using branch_root by blast
  next
    case False
    then have b: "b \<in> set idx" using less.prems by simp
    obtain p where p: "p \<in> insert r (set idx)" "bhs_id p = prev_id b"
        "unat (block_num b) = unat (block_num p) + 1"
      using assms b by (rule block_tree_parent)
    then obtain bs where "branch_path r idx p bs" using less.hyps [of p] by auto
    then show ?thesis using branch_block [OF b p(1,2)] by blast
  qed
qed

lemma block_tree_parent_find:
  assumes "block_tree r idx" "p \<in> insert r (set idx)"
  shows "index_find idx (bhs_id p) = (if p = r then None else Some p)"
  using assms index_find_member [of idx p] by (auto simp: block_tree_def index_find_None)

lemma branch_step:
  assumes "block_tree r idx" "b \<in> set idx" "p \<in> insert r (set idx)" "bhs_id p = prev_id b"
  shows "index_find idx (prev_id b) = (if p = r then None else Some p)"
    and "unat (block_num b) = unat (block_num p) + 1"
    and "unat (block_num b) - unat (block_num r) \<le> fuel \<Longrightarrow> \<exists>fuel'. fuel = Suc fuel'"
proof -
  show "index_find idx (prev_id b) = (if p = r then None else Some p)"
    using block_tree_parent_find [OF assms(1,3)] assms(4) by simp
  show "unat (block_num b) = unat (block_num p) + 1"
    using assms(1,2) by (rule block_tree_parent) (use block_tree_unique [OF assms(1)] assms in metis)
  show "unat (block_num b) - unat (block_num r) \<le> fuel \<Longrightarrow> \<exists>fuel'. fuel = Suc fuel'"
    using block_tree_above_root [OF assms(1,2)] by (cases fuel) auto
qed

lemma branch_path_root: "block_tree r idx \<Longrightarrow> branch_path r idx r bs \<Longrightarrow> bs = []"
  by (auto elim: branch_path.cases simp: block_tree_def)

lemma fetch_branch_loop_spec:
  assumes "block_tree r idx"
  shows "branch_path r idx b bs \<Longrightarrow> b \<in> set idx \<Longrightarrow> unat (block_num b) - unat (block_num r) \<le> fuel \<Longrightarrow>
    fetch_branch_loop fuel idx (Some b) trim = Inr (filter (\<lambda>c. block_num c \<le> trim) bs)"
proof (induction arbitrary: fuel rule: branch_path.induct)
  case branch_root
  then show ?case using assms by (auto simp: block_tree_def)
next
  case (branch_block b p bs)
  note step = branch_step [OF assms branch_block.hyps(1-3)]
  obtain fuel' where fuel: "fuel = Suc fuel'" using step(3) branch_block.prems(2) by blast
  show ?case
    using branch_block.IH [of fuel'] branch_block.hyps(2,4) branch_block.prems(2) step(1,2) fuel
    by (cases "p = r") (auto dest: branch_path_root [OF assms])
qed

lemma search_on_branch_loop_spec:
  assumes "block_tree r idx"
  shows "branch_path r idx b bs \<Longrightarrow> b \<in> set idx \<Longrightarrow> unat (block_num b) - unat (block_num r) \<le> fuel \<Longrightarrow>
    search_on_branch_loop fuel idx (Some b) n = Inr (find (\<lambda>c. block_num c = n) bs)"
proof (induction arbitrary: fuel rule: branch_path.induct)
  case branch_root
  then show ?case using assms by (auto simp: block_tree_def)
next
  case (branch_block b p bs)
  note step = branch_step [OF assms branch_block.hyps(1-3)]
  obtain fuel' where fuel: "fuel = Suc fuel'" using step(3) branch_block.prems(2) by blast
  show ?case
    using branch_block.IH [of fuel'] branch_block.hyps(2,4) branch_block.prems(2) step(1,2) fuel
    by (cases "p = r") (auto dest: branch_path_root [OF assms])
qed

lemma branch_path_block:
  "branch_path r idx b bs \<Longrightarrow> b \<noteq> r \<Longrightarrow>
     \<exists>q bs'. b \<in> set idx \<and> q \<in> insert r (set idx) \<and> bhs_id q = prev_id b \<and>
       branch_path r idx q bs' \<and> bs = b # bs'"
  by (erule branch_path.cases) blast+

lemma branch_path_unique:
  assumes "block_tree r idx"
  shows "branch_path r idx b bs \<Longrightarrow> branch_path r idx b cs \<Longrightarrow> bs = cs"
proof (induction arbitrary: cs rule: branch_path.induct)
  case branch_root
  then show ?case using branch_path_root [OF assms, of cs] by simp
next
  case (branch_block b p bs)
  have "b \<noteq> r" using assms branch_block.hyps(1) by (auto simp: block_tree_def)
  then obtain q cs' where q: "q \<in> insert r (set idx)" "bhs_id q = prev_id b"
      "branch_path r idx q cs'" "cs = b # cs'"
    using branch_path_block [OF branch_block.prems] by blast
  then have "q = p" using block_tree_unique [OF assms q(1) branch_block.hyps(2)] branch_block.hyps(3) by simp
  then show ?case using branch_block.IH q by simp
qed

lemma get_block_header_member:
  assumes "block_tree r (fdb_index s)" "fdb_root s = Some r" "b \<in> insert r (set (fdb_index s))"
  shows "get_block_header s (bhs_id b) = Inr (Some b)"
  using assms block_tree_unique [OF assms(1), of r b] block_tree_parent_find [OF assms(1,3)]
  by (auto simp: get_block_header_def get_block_def)

lemma back_to_num_spec:
  assumes t: "block_tree r (fdb_index s)" and root: "fdb_root s = Some r"
    and n: "unat (block_num r) \<le> unat n"
  shows "branch_path r (fdb_index s) b bs \<Longrightarrow> b \<in> insert r (set (fdb_index s)) \<Longrightarrow>
    unat (block_num b) - unat (block_num r) \<le> fuel \<Longrightarrow>
    \<exists>c us cs. back_to_num fuel s b n acc = Inr (c, acc @ us) \<and> bs = us @ cs \<and>
      branch_path r (fdb_index s) c cs \<and> c \<in> insert r (set (fdb_index s)) \<and>
      block_num c = (if n < block_num b then n else block_num b)"
proof (induction arbitrary: fuel acc rule: branch_path.induct)
  case branch_root
  then have "\<not> n < block_num r" using n by (simp add: word_less_nat_alt)
  then show ?case by (auto simp: back_to_num.simps [of fuel] intro: branch_path.branch_root)
next
  case (branch_block b p bs)
  note step = branch_step [OF t branch_block.hyps(1-3)]
  show ?case
  proof (cases "n < block_num b")
    case False
    then show ?thesis
      using branch_path.branch_block [OF branch_block.hyps] branch_block.prems(1)
      by (auto simp: back_to_num.simps [of fuel])
  next
    case True
    obtain fuel' where fuel: "fuel = Suc fuel'" using step(3) branch_block.prems(2) by blast
    have "get_block_header s (prev_id b) = Inr (Some p)"
      using get_block_header_member [OF t root branch_block.hyps(2)] branch_block.hyps(3) by simp
    then have eq: "back_to_num fuel s b n acc = back_to_num fuel' s p n (acc @ [b])"
      using True by (simp add: back_to_num.simps [of "Suc fuel'"] fuel root_or_block_def)
    have "unat (block_num p) - unat (block_num r) \<le> fuel'"
      using branch_block.prems(2) step(2) fuel by simp
    then obtain c us cs where c: "back_to_num fuel' s p n (acc @ [b]) = Inr (c, (acc @ [b]) @ us)"
        "bs = us @ cs" "branch_path r (fdb_index s) c cs" "c \<in> insert r (set (fdb_index s))"
        "block_num c = (if n < block_num p then n else block_num p)"
      using branch_block.IH [OF branch_block.hyps(2), of fuel' "acc @ [b]"] by auto
    have "block_num c = n"
      using c(5) True step(2) by (auto simp: word_less_nat_alt word_unat_eq_iff)
    with c eq True show ?thesis by (intro exI [of _ c] exI [of _ "b # us"] exI [of _ cs]) simp
  qed
qed

lemma back_to_common_spec:
  assumes t: "block_tree r (fdb_index s)" and root: "fdb_root s = Some r"
  shows "branch_path r (fdb_index s) a as \<Longrightarrow> branch_path r (fdb_index s) b bs \<Longrightarrow>
    a \<in> insert r (set (fdb_index s)) \<Longrightarrow> b \<in> insert r (set (fdb_index s)) \<Longrightarrow> a \<noteq> b \<Longrightarrow>
    block_num a = block_num b \<Longrightarrow> unat (block_num a) - unat (block_num r) \<le> fuel \<Longrightarrow>
    \<exists>us vs zs. back_to_common fuel s a b acc1 acc2 = Inr (acc1 @ us, acc2 @ vs) \<and>
      as = us @ zs \<and> bs = vs @ zs \<and> us \<noteq> [] \<and> vs \<noteq> [] \<and>
      last us \<noteq> last vs \<and> prev_id (last us) = prev_id (last vs)"
proof (induction arbitrary: fuel b bs acc1 acc2 rule: branch_path.induct)
  case branch_root
  then show ?case using block_tree_above_root [OF t, of b] by auto
next
  case (branch_block a p as)
  note step = branch_step [OF t branch_block.hyps(1-3)]
  have "b \<noteq> r"
    using branch_block.prems(5) block_tree_above_root [OF t branch_block.hyps(1)] by auto
  then obtain q bs' where q: "b \<in> set (fdb_index s)" "q \<in> insert r (set (fdb_index s))"
      "bhs_id q = prev_id b" "branch_path r (fdb_index s) q bs'" "bs = b # bs'"
    using branch_path_block [OF branch_block.prems(1)] by blast
  note step' = branch_step [OF t q(1-3)]
  show ?case
  proof (cases "prev_id a = prev_id b")
    case True
    then have "p = q"
      using block_tree_unique [OF t branch_block.hyps(2) q(2)] branch_block.hyps(3) q(3) by simp
    then have "as = bs'" using branch_path_unique [OF t] branch_block.hyps(4) q(4) by blast
    then show ?thesis
      using True q(5) branch_block.prems(4)
      by (intro exI [of _ "[a]"] exI [of _ "[b]"] exI [of _ as]) (simp add: back_to_common.simps)
  next
    case False
    then have pq: "p \<noteq> q" using branch_block.hyps(3) q(3) by auto
    have num: "block_num p = block_num q"
      using step(2) step'(2) branch_block.prems(5) by (simp add: word_unat_eq_iff)
    have "p \<noteq> r" "q \<noteq> r"
      using pq num block_tree_above_root [OF t, of p] block_tree_above_root [OF t, of q]
        branch_block.hyps(2) q(2) by auto
    then have g: "get_block s (prev_id a) = Some p" "get_block s (prev_id b) = Some q"
      using step(1) step'(1) by (simp_all add: get_block_def)
    obtain fuel' where fuel: "fuel = Suc fuel'" using step(3) branch_block.prems(6) by blast
    have "unat (block_num p) - unat (block_num r) \<le> fuel'"
      using branch_block.prems(6) step(2) fuel by simp
    then obtain us vs zs where
        "back_to_common fuel' s p q (acc1 @ [a]) (acc2 @ [b]) = Inr ((acc1 @ [a]) @ us, (acc2 @ [b]) @ vs)"
        "as = us @ zs" "bs' = vs @ zs" "us \<noteq> []" "vs \<noteq> []" "last us \<noteq> last vs"
        "prev_id (last us) = prev_id (last vs)"
      using branch_block.IH [OF q(4) branch_block.hyps(2) q(2) pq num, of fuel' "acc1 @ [a]" "acc2 @ [b]"]
      by auto
    then show ?thesis
      using False g fuel q(5)
      by (intro exI [of _ "a # us"] exI [of _ "b # vs"] exI [of _ zs])
        (simp add: back_to_common.simps [of "Suc fuel'"])
  qed
qed

lemma fetch_branch_from_spec:
  assumes t: "block_tree r (fdb_index s)" and root: "fdb_root s = Some r"
    and a: "a \<in> insert r (set (fdb_index s))" "branch_path r (fdb_index s) a as"
    and b: "b \<in> insert r (set (fdb_index s))" "branch_path r (fdb_index s) b bs"
  shows "\<exists>us vs zs. fetch_branch_from s (bhs_id a) (bhs_id b) = Inr (us, vs) \<and>
    as = us @ zs \<and> bs = vs @ zs \<and>
    (us = [] \<or> vs = [] \<or> last us \<noteq> last vs \<and> prev_id (last us) = prev_id (last vs))"
proof -
  let ?idx = "fdb_index s"
  have ge: "unat (block_num r) \<le> unat (block_num c)" if "c \<in> insert r (set ?idx)" for c
    using that block_tree_above_root [OF t, of c] by auto
  obtain a' us cs where A: "back_to_num (length ?idx) s a (block_num b) [] = Inr (a', us)"
      "as = us @ cs" "branch_path r ?idx a' cs" "a' \<in> insert r (set ?idx)"
      "block_num a' = (if block_num b < block_num a then block_num b else block_num a)"
    using back_to_num_spec [OF t root ge [OF b(1)] a(2,1) block_tree_fuel [OF t a(1)], of "[]"] by auto
  obtain b' vs ds where B: "back_to_num (length ?idx) s b (block_num a') [] = Inr (b', vs)"
      "bs = vs @ ds" "branch_path r ?idx b' ds" "b' \<in> insert r (set ?idx)"
      "block_num b' = (if block_num a' < block_num b then block_num a' else block_num b)"
    using back_to_num_spec [OF t root ge [OF A(4)] b(2,1) block_tree_fuel [OF t b(1)], of "[]"] by auto
  have num: "block_num a' = block_num b'" using A(5) B(5) by (auto split: if_splits)
  have one: "us = [] \<or> vs = []"
  proof (cases "block_num b < block_num a")
    case True
    then have "back_to_num (length ?idx) s b (block_num a') [] = Inr (b, [])"
      using A(5) by (simp add: back_to_num.simps)
    then show ?thesis using B(1) by simp
  next
    case False
    then have "back_to_num (length ?idx) s a (block_num b) [] = Inr (a, [])"
      by (simp add: back_to_num.simps)
    then show ?thesis using A(1) by simp
  qed
  have start: "fetch_branch_from s (bhs_id a) (bhs_id b) =
      (if bhs_id a' = bhs_id b' then Inr (us, vs) else back_to_common (length ?idx) s a' b' us vs)"
    using get_block_header_member [OF t root a(1)] get_block_header_member [OF t root b(1)] A(1) B(1)
    by (simp add: fetch_branch_from_def root_or_block_def)
  show ?thesis
  proof (cases "bhs_id a' = bhs_id b'")
    case True
    then have "a' = b'" using block_tree_unique [OF t A(4) B(4)] by blast
    then have "cs = ds" using branch_path_unique [OF t A(3)] B(3) by simp
    then have "fetch_branch_from s (bhs_id a) (bhs_id b) = Inr (us, vs) \<and> as = us @ cs \<and> bs = vs @ cs"
      using start True A(2) B(2) by simp
    then show ?thesis using one by blast
  next
    case False
    then have "a' \<noteq> b'" by auto
    then obtain us' vs' zs where
        "back_to_common (length ?idx) s a' b' us vs = Inr (us @ us', vs @ vs')"
        "cs = us' @ zs" "ds = vs' @ zs" "us' \<noteq> []" "vs' \<noteq> []"
        "last us' \<noteq> last vs'" "prev_id (last us') = prev_id (last vs')"
      using back_to_common_spec [OF t root A(3) B(3) A(4) B(4) _ num block_tree_fuel [OF t A(4)]] by blast
    then show ?thesis
      using start False A(2) B(2)
      by (intro exI [of _ "us @ us'"] exI [of _ "vs @ vs'"] exI [of _ zs]) simp
  qed
qed

end
