(* ===== verification/Fork_Choice.thy ===== *)
theory Fork_Choice
  imports Fork_Tree
begin

text \<open>
  The invariant of the fork database over all its operations, the choice of the best head, and the
  effect of removing branches, advancing the root and comparing branches.
\<close>

section \<open>The order of the index\<close>

lemma fork_key_le_preferred:
  assumes "fork_key a \<le> fork_key b"
  shows "validated b \<Longrightarrow> validated a"
    and "validated a = validated b \<Longrightarrow> \<not> first_preferred b a"
proof -
  have "unat (dpos_irreversible_blocknum a) < 2 ^ 32" "unat (dpos_irreversible_blocknum b) < 2 ^ 32"
      "unat (block_num a) < 2 ^ 32" "unat (block_num b) < 2 ^ 32"
    using unat_bound [where 'a = 32] by simp_all
  then show "validated b \<Longrightarrow> validated a" "validated a = validated b \<Longrightarrow> \<not> first_preferred b a"
    using assms
    by (auto simp: fork_key_def first_preferred_def less_eq_prod_def word_less_nat_alt
        word_unat_eq_iff split: if_splits)
qed

lemma first_preferred_trans_neg:
  "\<not> first_preferred a b \<Longrightarrow> \<not> first_preferred b c \<Longrightarrow> \<not> first_preferred a c"
  unfolding first_preferred_def by auto

lemma first_preferred_irrefl [simp]: "\<not> first_preferred a a"
  by (simp add: first_preferred_def)

abbreviation key_sorted :: "block_state list \<Rightarrow> bool" where
  "key_sorted idx \<equiv> sorted (map fork_key idx)"

lemma key_sorted_hd:
  assumes "key_sorted idx" "b \<in> set idx"
  shows "fork_key (hd idx) \<le> fork_key b"
  using assms by (cases idx) auto

lemma key_sorted_candidate:
  assumes "key_sorted idx" "b \<in> set idx" "validated b"
  shows "validated (hd idx) \<and> \<not> first_preferred b (hd idx)"
  using fork_key_le_preferred [OF key_sorted_hd [OF assms(1,2)]] assms(3) by auto

lemma hd_insort_mem: "hd (insort_key f x xs) \<in> insert x (set xs)"
  by (metis hd_in_set insort_not_Nil set_insort_key)

section \<open>The invariant\<close>

definition fork_inv :: "header_env \<Rightarrow> fork_database \<Rightarrow> bool" where
  "fork_inv env s \<longleftrightarrow>
     (\<exists>r h. fdb_root s = Some r \<and> validated r \<and> block_tree r (fdb_index s) \<and>
        key_sorted (fdb_index s) \<and>
        (\<forall>b \<in> insert r (set (fdb_index s)). num_from_id env (bhs_id b) = block_num b) \<and>
        h \<in> insert r (set (fdb_index s)) \<and> fdb_head s = Some (bhs_id h) \<and> validated h \<and>
        (\<forall>b \<in> set (fdb_index s). validated b \<longrightarrow> \<not> first_preferred b h))"

lemma fork_invE:
  assumes "fork_inv env s"
  obtains r h where "fdb_root s = Some r" "validated r" "block_tree r (fdb_index s)"
    "key_sorted (fdb_index s)"
    "\<And>b. b \<in> insert r (set (fdb_index s)) \<Longrightarrow> num_from_id env (bhs_id b) = block_num b"
    "h \<in> insert r (set (fdb_index s))" "fdb_head s = Some (bhs_id h)" "validated h"
    "\<And>b. b \<in> set (fdb_index s) \<Longrightarrow> validated b \<Longrightarrow> \<not> first_preferred b h"
  using assms unfolding fork_inv_def by blast

lemma fork_invI:
  assumes "fdb_root s = Some r" "validated r" "block_tree r (fdb_index s)" "key_sorted (fdb_index s)"
    "\<And>b. b \<in> insert r (set (fdb_index s)) \<Longrightarrow> num_from_id env (bhs_id b) = block_num b"
    "h \<in> insert r (set (fdb_index s))" "fdb_head s = Some (bhs_id h)" "validated h"
    "\<And>b. b \<in> set (fdb_index s) \<Longrightarrow> validated b \<Longrightarrow> \<not> first_preferred b h"
  shows "fork_inv env s"
  using assms unfolding fork_inv_def by blast

lemma fork_head_member:
  assumes "fdb_root s = Some r" "block_tree r (fdb_index s)" "h \<in> insert r (set (fdb_index s))"
    "fdb_head s = Some (bhs_id h)"
  shows "fork_head s = Inr h"
  using assms block_tree_unique [OF assms(2), of r h] block_tree_parent_find [OF assms(2,3)]
  by (auto simp: fork_head_def get_block_def)

lemma fork_reset_inv:
  assumes "num_from_id env (bhs_id bhs) = block_num bhs"
  shows "fork_inv env (fork_reset bhs)"
  using assms
  by (intro fork_invI [where r = "block_header_state.extend bhs (block_state.fields True)" and
        h = "block_header_state.extend bhs (block_state.fields True)"])
    (auto simp: fork_reset_def block_header_state.defs block_state.defs block_tree_def)

text \<open>Blocks that only differ in \<^verbatim>\<open>validated\<close> form the same tree.\<close>

lemma block_tree_cong:
  assumes "block_tree r idx" "distinct (map bhs_id idx')"
    and "\<And>b. b \<in> set idx' \<Longrightarrow> \<exists>c \<in> set idx. bhs_id b = bhs_id c \<and> header b = header c \<and> block_num b = block_num c"
    and "\<And>c. c \<in> set idx \<Longrightarrow> \<exists>b \<in> set idx'. bhs_id b = bhs_id c \<and> header b = header c \<and> block_num b = block_num c"
  shows "block_tree r idx'"
  unfolding block_tree_def
proof (intro conjI ballI)
  show "distinct (map bhs_id idx')" by fact
  show "bhs_id r \<notin> bhs_id ` set idx'"
    using assms(1,3) by (force simp: block_tree_def)
  fix b assume "b \<in> set idx'"
  then obtain c where c: "c \<in> set idx" "bhs_id b = bhs_id c" "header b = header c" "block_num b = block_num c"
    using assms(3) by blast
  obtain p where p: "p \<in> insert r (set idx)" "bhs_id p = prev_id c"
      "unat (block_num c) = unat (block_num p) + 1"
    using assms(1) c(1) by (rule block_tree_parent)
  show "\<exists>p \<in> insert r (set idx'). bhs_id p = prev_id b \<and> unat (block_num b) = unat (block_num p) + 1"
  proof (cases "p = r")
    case True
    then show ?thesis using p c by simp
  next
    case False
    then obtain q where "q \<in> set idx'" "bhs_id q = bhs_id p" "block_num q = block_num p"
      using assms(4) [of p] p(1) by auto
    then show ?thesis using p(2,3) c by auto
  qed
qed

lemma rollback_inv:
  assumes "fork_inv env s"
  shows "fork_inv env (rollback_head_to_root s)"
  using assms
proof (rule fork_invE)
  fix r h
  assume r: "fdb_root s = Some r" "validated r" and t: "block_tree r (fdb_index s)"
    and num: "\<And>b. b \<in> insert r (set (fdb_index s)) \<Longrightarrow> num_from_id env (bhs_id b) = block_num b"
  let ?f = "\<lambda>b :: block_state. b\<lparr>validated := False\<rparr>"
  have "distinct (map bhs_id (map ?f (fdb_index s)))"
    using t by (simp add: block_tree_def comp_def)
  then have d: "distinct (map bhs_id (sort_key fork_key (map ?f (fdb_index s))))"
    by (metis (no_types, lifting) distinct_map distinct_sort set_sort)
  have "block_tree r (sort_key fork_key (map ?f (fdb_index s)))"
    by (rule block_tree_cong [OF t d]) force+
  then show ?thesis
    using r num
    by (intro fork_invI [where r = r and h = r]) (auto simp: rollback_head_to_root_def)
qed

lemma get_block_header_SomeD:
  assumes "fdb_root s = Some r" "get_block_header s i = Inr (Some p)"
  shows "p \<in> insert r (set (fdb_index s)) \<and> bhs_id p = i"
  using assms by (auto simp: get_block_header_def get_block_def split: if_splits dest: index_find_SomeD)

lemma block_tree_insort:
  assumes t: "block_tree r idx" and p: "p \<in> insert r (set idx)" "bhs_id p = prev_id n"
    and num: "unat (block_num n) = unat (block_num p) + 1"
    and fresh: "bhs_id n \<notin> bhs_id ` insert r (set idx)"
  shows "block_tree r (insort_key f n idx)"
proof -
  have T: "distinct idx" "inj_on bhs_id (set idx)" "bhs_id r \<notin> bhs_id ` set idx"
    using t by (simp_all add: block_tree_def distinct_map)
  have n: "n \<notin> set idx" "bhs_id n \<notin> bhs_id ` set idx" "bhs_id n \<noteq> bhs_id r" using fresh by auto
  have d: "distinct (map bhs_id (insort_key f n idx))"
    using T n by (auto simp: distinct_map distinct_insort set_insort_key inj_on_insert)
  show ?thesis
    unfolding block_tree_def set_insort_key
  proof (intro conjI ballI)
    show "distinct (map bhs_id (insort_key f n idx))" by (rule d)
    show "bhs_id r \<notin> bhs_id ` insert n (set idx)" using T(3) n(3) by auto
    fix b assume "b \<in> insert n (set idx)"
    then show "\<exists>q \<in> insert r (insert n (set idx)). bhs_id q = prev_id b \<and>
        unat (block_num b) = unat (block_num q) + 1"
    proof
      assume "b = n"
      then show ?thesis using p num by blast
    next
      assume "b \<in> set idx"
      then show ?thesis by (rule block_tree_parent [OF t]) blast
    qed
  qed
qed

lemma fork_add_inv:
  assumes inv: "fork_inv env s"
    and p: "get_block_header s (prev_id n) = Inr (Some p)" "unat (block_num n) = unat (block_num p) + 1"
    and num: "num_from_id env (bhs_id n) = block_num n"
    and add: "fork_add_impl validator s n dup val = Inr s'"
  shows "fork_inv env s'"
  using inv
proof (rule fork_invE)
  fix r h
  assume r: "fdb_root s = Some r" "validated r" and t: "block_tree r (fdb_index s)"
    and sorted: "key_sorted (fdb_index s)"
    and nums: "\<And>b. b \<in> insert r (set (fdb_index s)) \<Longrightarrow> num_from_id env (bhs_id b) = block_num b"
    and h: "h \<in> insert r (set (fdb_index s))" "fdb_head s = Some (bhs_id h)" "validated h"
  let ?idx = "insort_key fork_key n (fdb_index s)"
  consider "s' = s" | "index_find (fdb_index s) (bhs_id n) = None"
      "s' = s\<lparr>fdb_index := ?idx, fdb_head := (if is_valid (hd ?idx) then Some (bhs_id (hd ?idx)) else fdb_head s)\<rparr>"
    using add p(1) r(1) by (auto simp: fork_add_impl_def result_simps Let_def split: if_splits)
  then show ?thesis
  proof cases
    case 1
    then show ?thesis using inv by simp
  next
    case 2
    have pp: "p \<in> insert r (set (fdb_index s))" "bhs_id p = prev_id n"
      using get_block_header_SomeD [OF r(1) p(1)] by simp_all
    have "bhs_id n \<noteq> bhs_id r"
    proof
      assume "bhs_id n = bhs_id r"
      then have "block_num n = block_num r" using num nums [of r] by simp
      then show False using p(2) pp(1) block_tree_above_root [OF t, of p] by auto
    qed
    then have "bhs_id n \<notin> bhs_id ` insert r (set (fdb_index s))"
      using 2(1) by (auto simp: index_find_None)
    then have t': "block_tree r ?idx" by (rule block_tree_insort [OF t pp p(2)])
    have sorted': "key_sorted ?idx" using sorted by (simp add: sorted_insort_key)
    show ?thesis
    proof (cases "validated (hd ?idx)")
      case True
      then show ?thesis
        using r t' sorted' nums num 2(2) key_sorted_candidate [OF sorted']
          hd_insort_mem [of fork_key n "fdb_index s"]
        by (intro fork_invI [where r = r and h = "hd ?idx"]) (auto simp: is_valid_def set_insort_key)
    next
      case False
      then have "\<not> validated b" if "b \<in> set ?idx" for b
        using key_sorted_candidate [OF sorted' that] by blast
      then show ?thesis
        using r t' sorted' nums num 2(2) h False
        by (intro fork_invI [where r = r and h = h]) (auto simp: is_valid_def set_insort_key)
    qed
  qed
qed

lemma mark_valid_inv:
  assumes inv: "fork_inv env s" and mark: "mark_valid s x = Inr s'"
  shows "fork_inv env s'"
  using inv
proof (rule fork_invE)
  fix r h
  assume r: "fdb_root s = Some r" "validated r" and t: "block_tree r (fdb_index s)"
    and sorted: "key_sorted (fdb_index s)"
    and nums: "\<And>b. b \<in> insert r (set (fdb_index s)) \<Longrightarrow> num_from_id env (bhs_id b) = block_num b"
    and h: "h \<in> insert r (set (fdb_index s))" "fdb_head s = Some (bhs_id h)" "validated h"
  show ?thesis
  proof (cases "validated x")
    case True
    then show ?thesis using mark inv by (simp add: mark_valid_def)
  next
    case False
    then obtain b where find: "index_find (fdb_index s) (bhs_id x) = Some b"
      using mark by (auto simp: mark_valid_def split: option.splits)
    then have b: "b \<in> set (fdb_index s)" "bhs_id b = bhs_id x" by (auto dest: index_find_SomeD)
    define b' where "b' = b\<lparr>validated := True\<rparr>"
    define idx where "idx = insort_key fork_key b' (index_erase (fdb_index s) (bhs_id x))"
    have b'_id: "bhs_id b' = bhs_id x" by (simp add: b'_def b(2))
    have set_idx: "set idx = insert b' {c \<in> set (fdb_index s). bhs_id c \<noteq> bhs_id x}"
      by (simp add: idx_def set_insort_key set_index_erase)
    have d: "distinct (map bhs_id idx)"
    proof -
      have "distinct (map bhs_id (index_erase (fdb_index s) (bhs_id x)))"
        using t by (simp add: block_tree_def index_erase_def distinct_map_filter)
      then show ?thesis
        using b'_id by (auto simp: idx_def distinct_map distinct_insort set_insort_key
            set_index_erase inj_on_def)
    qed
    have t': "block_tree r idx"
    proof (rule block_tree_cong [OF t d])
      fix c assume "c \<in> set idx"
      then consider "c = b'" | "c \<in> set (fdb_index s)" by (auto simp: set_idx)
      then show "\<exists>e \<in> set (fdb_index s). bhs_id c = bhs_id e \<and> header c = header e \<and> block_num c = block_num e"
      proof cases
        case 1
        then show ?thesis by (intro bexI [of _ b] b(1)) (simp add: b'_def)
      qed blast
    next
      fix c assume c: "c \<in> set (fdb_index s)"
      show "\<exists>e \<in> set idx. bhs_id e = bhs_id c \<and> header e = header c \<and> block_num e = block_num c"
      proof (cases "bhs_id c = bhs_id x")
        case True
        then have "c = b" using t b c distinct_idsD [of "fdb_index s" c b] by (simp add: block_tree_def)
        then show ?thesis by (auto simp: set_idx b'_def)
      qed (use c in \<open>auto simp: set_idx\<close>)
    qed
    have sorted': "key_sorted idx"
      using sorted by (simp add: idx_def sorted_insort_key index_erase_def sorted_filter)
    have nums': "num_from_id env (bhs_id c) = block_num c" if "c \<in> insert r (set idx)" for c
      using that nums [of c] nums [of b] b by (auto simp: set_idx b'_def)
    define h' where "h' = (if bhs_id h = bhs_id x then b' else h)"
    have "bhs_id r \<noteq> bhs_id x" using t b unfolding block_tree_def by (metis imageI)
    then have h': "h' \<in> insert r (set idx)" "bhs_id h' = bhs_id h" "validated h'"
      using h b'_id by (auto simp: h'_def set_idx b'_def)
    have head: "fork_head (s\<lparr>fdb_index := idx\<rparr>) = Inr h'"
      by (rule fork_head_member [of _ r]) (use r t' h h' in simp_all)
    have "b' \<in> set idx" "validated b'" by (simp_all add: set_idx) (simp add: b'_def)
    then have cand: "hd idx \<in> set idx" "validated (hd idx)"
      using key_sorted_candidate [OF sorted', of b'] by (auto intro: hd_in_set)
    have s': "s' = (if first_preferred (hd idx) h'
        then s\<lparr>fdb_index := idx, fdb_head := Some (bhs_id (hd idx))\<rparr> else s\<lparr>fdb_index := idx\<rparr>)"
      using mark False find head by (simp add: mark_valid_def Let_def b'_def [symmetric] idx_def [symmetric])
    show ?thesis
    proof (cases "first_preferred (hd idx) h'")
      case True
      then show ?thesis
        using r t' sorted' nums' cand s' key_sorted_candidate [OF sorted']
        by (intro fork_invI [where r = r and h = "hd idx"]) auto
    next
      case False
      then have "\<not> first_preferred c h'" if "c \<in> set idx" "validated c" for c
        using key_sorted_candidate [OF sorted' that] first_preferred_trans_neg by blast
      then show ?thesis
        using r t' sorted' nums' h h' s' False
        by (intro fork_invI [where r = r and h = h']) auto
    qed
  qed
qed

lemma block_tree_filter_down:
  assumes t: "block_tree r idx" and keep: "\<And>b p. b \<in> set idx \<Longrightarrow> P b \<Longrightarrow> p \<in> set idx \<Longrightarrow>
      bhs_id p = prev_id b \<Longrightarrow> P p"
  shows "block_tree r (filter P idx)"
  unfolding block_tree_def
proof (intro conjI ballI)
  show "distinct (map bhs_id (filter P idx))" "bhs_id r \<notin> bhs_id ` set (filter P idx)"
    using t by (auto simp: block_tree_def distinct_map_filter)
  fix b assume b: "b \<in> set (filter P idx)"
  then have "b \<in> set idx" by simp
  with t obtain p where p: "p \<in> insert r (set idx)" "bhs_id p = prev_id b"
      "unat (block_num b) = unat (block_num p) + 1"
    by (rule block_tree_parent)
  then show "\<exists>p \<in> insert r (set (filter P idx)). bhs_id p = prev_id b \<and>
      unat (block_num b) = unat (block_num p) + 1"
    using keep [of b p] b by auto
qed

lemma fork_remove_inv:
  assumes inv: "fork_inv env s" and rem: "fork_remove s i = Inr s'"
  shows "fork_inv env s'"
  using inv
proof (rule fork_invE)
  fix r h
  assume r: "fdb_root s = Some r" "validated r" and t: "block_tree r (fdb_index s)"
    and sorted: "key_sorted (fdb_index s)"
    and nums: "\<And>b. b \<in> insert r (set (fdb_index s)) \<Longrightarrow> num_from_id env (bhs_id b) = block_num b"
    and h: "h \<in> insert r (set (fdb_index s))" "fdb_head s = Some (bhs_id h)" "validated h"
    and best: "\<And>b. b \<in> set (fdb_index s) \<Longrightarrow> validated b \<Longrightarrow> \<not> first_preferred b h"
  let ?idx = "filter (\<lambda>b. \<not> descends (fdb_index s) i (bhs_id b)) (fdb_index s)"
  have s': "s' = s\<lparr>fdb_index := ?idx\<rparr>" "\<not> descends (fdb_index s) i (bhs_id h)"
    using rem fork_remove_spec [OF block_tree_forest [OF t] h(2), of i] by (simp_all split: if_splits)
  have "block_tree r ?idx"
    by (rule block_tree_filter_down [OF t]) (metis descends_child)
  then show ?thesis
    using r sorted nums h best s' by (intro fork_invI [where r = r and h = h]) (auto simp: sorted_filter)
qed

lemma advance_root_success:
  assumes "fork_inv env s" "advance_root s i = Inr s'"
  obtains n where "n \<in> set (fdb_index s)" "bhs_id n = i" "validated n"
  using assms
  by (auto simp: advance_root_eq result_simps is_valid_def get_block_def
      split: option.splits dest!: index_find_SomeD)

lemma advance_root_inv:
  assumes inv: "fork_inv env s" and adv: "advance_root s i = Inr s'"
  shows "fork_inv env s'"
  using inv
proof (rule fork_invE)
  fix r h
  assume r: "fdb_root s = Some r" "validated r" and t: "block_tree r (fdb_index s)"
    and sorted: "key_sorted (fdb_index s)"
    and nums: "\<And>b. b \<in> insert r (set (fdb_index s)) \<Longrightarrow> num_from_id env (bhs_id b) = block_num b"
    and h: "h \<in> insert r (set (fdb_index s))" "fdb_head s = Some (bhs_id h)" "validated h"
    and best: "\<And>b. b \<in> set (fdb_index s) \<Longrightarrow> validated b \<Longrightarrow> \<not> first_preferred b h"
  obtain n where n: "n \<in> set (fdb_index s)" "bhs_id n = i" "validated n"
    using inv adv by (rule advance_root_success)
  let ?P = "\<lambda>b. bhs_id b \<noteq> i \<and> descends (fdb_index s) i (bhs_id b)"
  let ?idx = "filter ?P (fdb_index s)"
  have s': "s' = s\<lparr>fdb_index := ?idx, fdb_root := Some n\<rparr>" and hd: "descends (fdb_index s) i (bhs_id h)"
    using adv advance_root_spec [OF t r(1) h(2) _ n(1)] h(1) n
    by (auto simp: is_valid_def split: if_splits)
  have d: "distinct (map bhs_id (fdb_index s))" using t by (simp add: block_tree_def)
  have "block_tree n ?idx"
    unfolding block_tree_def
  proof (intro conjI ballI)
    show "distinct (map bhs_id ?idx)" "bhs_id n \<notin> bhs_id ` set ?idx"
      using d n(2) by (auto simp: distinct_map_filter)
    fix b assume b: "b \<in> set ?idx"
    then have bi: "b \<in> set (fdb_index s)" "bhs_id b \<noteq> i" "descends (fdb_index s) i (bhs_id b)" by auto
    obtain p where p: "p \<in> insert r (set (fdb_index s))" "bhs_id p = prev_id b"
        "unat (block_num b) = unat (block_num p) + 1"
      using t bi(1) by (rule block_tree_parent)
    have pd: "descends (fdb_index s) i (bhs_id p)"
      using descends_parent [OF d bi(1,3,2)] p(2) by simp
    show "\<exists>p \<in> insert n (set ?idx). bhs_id p = prev_id b \<and> unat (block_num b) = unat (block_num p) + 1"
    proof (cases "bhs_id p = i")
      case True
      then have "p = n" using block_tree_unique [OF t p(1), of n] n by simp
      then show ?thesis using p by blast
    next
      case False
      then have "bhs_id p \<in> bhs_id ` set (fdb_index s)" using descends_outside [OF pd] by blast
      then have "p \<noteq> r" using t by (auto simp: block_tree_def)
      then show ?thesis using p pd False by auto
    qed
  qed
  moreover have "h \<in> insert n (set ?idx)"
  proof (cases "bhs_id h = i")
    case True
    then show ?thesis using block_tree_unique [OF t h(1), of n] n by simp
  next
    case False
    then have "bhs_id h \<in> bhs_id ` set (fdb_index s)" using descends_outside [OF hd] by blast
    then have "h \<noteq> r" using t by (auto simp: block_tree_def)
    then show ?thesis using h(1) hd False by simp
  qed
  ultimately show ?thesis
    using n sorted nums h best s'
    by (intro fork_invI [where r = n and h = h]) (auto simp: sorted_filter)
qed

section \<open>What an interrupted call leaves\<close>

text \<open>The part of the invariant that also holds after an \<^verbatim>\<open>advance_root\<close> that threw half way: the index is
  sorted, identifiers are unique and carry the numbers, a number is one more than the number in the
  identifier of the parent, present or not, and the head is a validated block of the database.\<close>

definition numbered :: "header_env \<Rightarrow> block_state \<Rightarrow> bool" where
  "numbered env b \<longleftrightarrow> num_from_id env (bhs_id b) = block_num b \<and>
     unat (block_num b) = unat (num_from_id env (prev_id b)) + 1"

definition fork_wf :: "header_env \<Rightarrow> fork_database \<Rightarrow> bool" where
  "fork_wf env s \<longleftrightarrow>
     (\<exists>r h. fdb_root s = Some r \<and> validated r \<and> num_from_id env (bhs_id r) = block_num r \<and>
        distinct (map bhs_id (fdb_index s)) \<and> key_sorted (fdb_index s) \<and>
        (\<forall>b \<in> set (fdb_index s). numbered env b) \<and>
        h \<in> insert r (set (fdb_index s)) \<and> fdb_head s = Some (bhs_id h) \<and> validated h)"

lemma fork_wfE:
  assumes "fork_wf env s"
  obtains r h where "fdb_root s = Some r" "validated r" "num_from_id env (bhs_id r) = block_num r"
    "distinct (map bhs_id (fdb_index s))" "key_sorted (fdb_index s)"
    "\<forall>b \<in> set (fdb_index s). numbered env b"
    "h \<in> insert r (set (fdb_index s))" "fdb_head s = Some (bhs_id h)" "validated h"
  using assms unfolding fork_wf_def by blast

lemma fork_wfI:
  assumes "fdb_root s = Some r" "validated r" "num_from_id env (bhs_id r) = block_num r"
    "distinct (map bhs_id (fdb_index s))" "key_sorted (fdb_index s)"
    "\<And>b. b \<in> set (fdb_index s) \<Longrightarrow> numbered env b"
    "h \<in> insert r (set (fdb_index s))" "fdb_head s = Some (bhs_id h)" "validated h"
  shows "fork_wf env s"
  using assms unfolding fork_wf_def by blast

lemma numbered_forest:
  assumes "distinct (map bhs_id idx)" "\<forall>b \<in> set idx. numbered env b"
  shows "forest idx"
  using assms by (auto simp: forest_def numbered_def)

lemma fork_inv_wf:
  assumes "fork_inv env s"
  shows "fork_wf env s"
  using assms
proof (rule fork_invE)
  fix r h
  assume r: "fdb_root s = Some r" "validated r" and t: "block_tree r (fdb_index s)"
    and sorted: "key_sorted (fdb_index s)"
    and nums: "\<And>b. b \<in> insert r (set (fdb_index s)) \<Longrightarrow> num_from_id env (bhs_id b) = block_num b"
    and h: "h \<in> insert r (set (fdb_index s))" "fdb_head s = Some (bhs_id h)" "validated h"
  have "numbered env b" if b: "b \<in> set (fdb_index s)" for b
  proof -
    obtain p where p: "p \<in> insert r (set (fdb_index s))" "bhs_id p = prev_id b"
        "unat (block_num b) = unat (block_num p) + 1"
      using t b by (rule block_tree_parent)
    show ?thesis using nums [OF p(1)] nums [of b] b p(2,3) by (simp add: numbered_def)
  qed
  then show ?thesis
    using r nums sorted h t by (intro fork_wfI [where r = r and h = h]) (auto simp: block_tree_def)
qed

lemma rollback_wf:
  assumes "fork_wf env s"
  shows "fork_wf env (rollback_head_to_root s)"
  using assms
proof (rule fork_wfE)
  fix r h
  assume r: "fdb_root s = Some r" "validated r" "num_from_id env (bhs_id r) = block_num r"
    and idx: "distinct (map bhs_id (fdb_index s))" "\<forall>b \<in> set (fdb_index s). numbered env b"
  have "distinct (map bhs_id (map (\<lambda>b. b\<lparr>validated := False\<rparr>) (fdb_index s)))"
    using idx(1) by (simp add: comp_def)
  then have "distinct (map bhs_id (sort_key fork_key (map (\<lambda>b. b\<lparr>validated := False\<rparr>) (fdb_index s))))"
    by (metis (no_types, lifting) distinct_map distinct_sort set_sort)
  then show ?thesis
    using r idx(2)
    by (intro fork_wfI [where r = r and h = r]) (auto simp: rollback_head_to_root_def numbered_def)
qed

lemma fork_add_wf:
  assumes wf: "fork_wf env s" and n: "numbered env n" and add: "fork_add_impl validator s n dup val = Inr s'"
  shows "fork_wf env s'"
  using wf
proof (rule fork_wfE)
  fix r h
  assume r: "fdb_root s = Some r" "validated r" "num_from_id env (bhs_id r) = block_num r"
    and idx: "distinct (map bhs_id (fdb_index s))" "key_sorted (fdb_index s)"
      "\<forall>b \<in> set (fdb_index s). numbered env b"
    and h: "h \<in> insert r (set (fdb_index s))" "fdb_head s = Some (bhs_id h)" "validated h"
  let ?idx = "insort_key fork_key n (fdb_index s)"
  consider "s' = s" | "index_find (fdb_index s) (bhs_id n) = None"
      "s' = s\<lparr>fdb_index := ?idx, fdb_head := (if is_valid (hd ?idx) then Some (bhs_id (hd ?idx)) else fdb_head s)\<rparr>"
    using add by (auto simp: fork_add_impl_def result_simps Let_def split: if_splits option.splits)
  then show ?thesis
  proof cases
    case 2
    then have d: "distinct (map bhs_id ?idx)"
      using idx(1) by (auto simp: index_find_None distinct_map distinct_insort set_insort_key inj_on_insert)
    define h' where "h' = (if validated (hd ?idx) then hd ?idx else h)"
    have "h' \<in> insert r (set ?idx)" "validated h'" "fdb_head s' = Some (bhs_id h')"
      using h 2(2) hd_insort_mem [of fork_key n "fdb_index s"]
      by (auto simp: h'_def is_valid_def set_insort_key)
    then show ?thesis
      using r d idx n 2(2)
      by (intro fork_wfI [where r = r and h = h']) (auto simp: set_insort_key sorted_insort_key)
  qed (use wf in simp)
qed

lemma mark_valid_wf:
  assumes wf: "fork_wf env s" and mark: "mark_valid s x = Inr s'"
  shows "fork_wf env s'"
  using wf
proof (rule fork_wfE)
  fix r h
  assume r: "fdb_root s = Some r" "validated r" "num_from_id env (bhs_id r) = block_num r"
    and idx: "distinct (map bhs_id (fdb_index s))" "key_sorted (fdb_index s)"
      "\<forall>b \<in> set (fdb_index s). numbered env b"
    and h: "h \<in> insert r (set (fdb_index s))" "fdb_head s = Some (bhs_id h)" "validated h"
  show ?thesis
  proof (cases "validated x")
    case True
    then show ?thesis using mark wf by (simp add: mark_valid_def)
  next
    case False
    then obtain b where find: "index_find (fdb_index s) (bhs_id x) = Some b"
      using mark by (auto simp: mark_valid_def split: option.splits)
    then have b: "b \<in> set (fdb_index s)" "bhs_id b = bhs_id x" by (auto dest: index_find_SomeD)
    define b' where "b' = b\<lparr>validated := True\<rparr>"
    define idx' where "idx' = insort_key fork_key b' (index_erase (fdb_index s) (bhs_id x))"
    have set_idx: "set idx' = insert b' {c \<in> set (fdb_index s). bhs_id c \<noteq> bhs_id x}"
      by (simp add: idx'_def set_insort_key set_index_erase)
    have b': "bhs_id b' = bhs_id x" "numbered env b'" "validated b'" "b' \<in> set idx'"
      using b idx(3) by (auto simp: b'_def numbered_def) (simp add: set_idx flip: b'_def)
    have "distinct (map bhs_id (index_erase (fdb_index s) (bhs_id x)))"
      using idx(1) by (simp add: index_erase_def distinct_map_filter)
    then have d: "distinct (map bhs_id idx')"
      using b'(1) by (auto simp: idx'_def distinct_map distinct_insort set_insort_key set_index_erase inj_on_def)
    have sorted': "key_sorted idx'"
      using idx(2) by (simp add: idx'_def sorted_insort_key index_erase_def sorted_filter)
    have cand: "hd idx' \<in> set idx'" "validated (hd idx')"
      using key_sorted_candidate [OF sorted' b'(4,3)] b'(4) by (auto intro: hd_in_set)
    obtain h' where h': "h' \<in> insert r (set idx')" "validated h'" "bhs_id h' = bhs_id h"
      using h(1,3) b' r(2) by (cases "h = r \<or> bhs_id h \<noteq> bhs_id x") (auto simp: set_idx)
    have s': "\<exists>g \<in> insert r (set idx'). fdb_head s' = Some (bhs_id g) \<and> validated g"
      "fdb_index s' = idx'" "fdb_root s' = Some r"
      using mark False find h(2) h' cand r(1)
      by (auto simp: mark_valid_def Let_def b'_def [symmetric] idx'_def [symmetric] result_simps split: if_splits)
    then obtain g where "g \<in> insert r (set idx')" "fdb_head s' = Some (bhs_id g)" "validated g" by blast
    then show ?thesis
      using r d sorted' idx(3) b'(2) set_idx s'(2,3) by (intro fork_wfI [where r = r and h = g]) auto
  qed
qed

lemma fork_remove_wf:
  assumes wf: "fork_wf env s" and rem: "fork_remove s i = Inr s'"
  shows "fork_wf env s'"
  using wf
proof (rule fork_wfE)
  fix r h
  assume r: "fdb_root s = Some r" "validated r" "num_from_id env (bhs_id r) = block_num r"
    and idx: "distinct (map bhs_id (fdb_index s))" "key_sorted (fdb_index s)"
      "\<forall>b \<in> set (fdb_index s). numbered env b"
    and h: "h \<in> insert r (set (fdb_index s))" "fdb_head s = Some (bhs_id h)" "validated h"
  let ?idx = "filter (\<lambda>b. \<not> descends (fdb_index s) i (bhs_id b)) (fdb_index s)"
  have "s' = s\<lparr>fdb_index := ?idx\<rparr>" "\<not> descends (fdb_index s) i (bhs_id h)"
    using rem fork_remove_spec [OF numbered_forest [OF idx(1,3)] h(2), of i] by (simp_all split: if_splits)
  then show ?thesis
    using r idx h
    by (intro fork_wfI [where r = r and h = h]) (auto simp: sorted_filter distinct_map_filter)
qed

lemma ancestors_loop_num:
  assumes "\<forall>b \<in> set idx. numbered env b" "numbered env b" "ancestors_loop fuel idx rid b = Inr xs"
  shows "rid \<in> set xs \<and> (\<forall>x \<in> set xs. unat (num_from_id env x) < unat (block_num b))"
  using assms(2,3)
proof (induction fuel arbitrary: b xs)
  case 0
  then show ?case
    by (auto simp: ancestors_loop.simps result_simps numbered_def split: option.splits)
next
  case (Suc fuel)
  have b: "unat (num_from_id env (prev_id b)) < unat (block_num b)"
    using Suc.prems(1) by (simp add: numbered_def)
  show ?case
  proof (cases "index_find idx (prev_id b)")
    case None
    then show ?thesis
      using Suc.prems(2) b by (auto simp: ancestors_loop.simps [of "Suc fuel"] result_simps)
  next
    case (Some p)
    then have p: "numbered env p" "bhs_id p = prev_id b" using assms(1) by (auto dest: index_find_SomeD)
    obtain ys where ys: "ancestors_loop fuel idx rid p = Inr ys" "xs = prev_id b # ys"
      using Suc.prems(2) Some by (auto simp: ancestors_loop.simps [of "Suc fuel"] result_simps)
    have "block_num p = num_from_id env (prev_id b)" using p by (simp add: numbered_def)
    then show ?thesis using Suc.IH [OF p(1) ys(1)] ys(2) b by auto
  qed
qed

lemma advance_root_wf:
  assumes wf: "fork_wf env s" and adv: "advance_root_run s i = (s', e)"
  shows "fork_wf env s'"
  using wf
proof (rule fork_wfE)
  fix r h
  assume r: "fdb_root s = Some r" "validated r" "num_from_id env (bhs_id r) = block_num r"
    and idx: "distinct (map bhs_id (fdb_index s))" "key_sorted (fdb_index s)"
      "\<forall>b \<in> set (fdb_index s). numbered env b"
    and h: "h \<in> insert r (set (fdb_index s))" "fdb_head s = Some (bhs_id h)" "validated h"
  let ?idx = "index_erase (fdb_index s) i"
  show ?thesis
  proof (cases "s' = s")
    case False
    then obtain n xs where n: "get_block s i = Some n" "is_valid n"
        and xs: "ancestors_loop (length (fdb_index s)) (fdb_index s) (bhs_id r) n = Inr xs"
      using adv r(1) by (auto simp: advance_root_run_def split: option.splits if_splits sum.splits)
    have ni: "n \<in> set (fdb_index s)" "bhs_id n = i"
      using n(1) by (auto simp: get_block_def dest: index_find_SomeD)
    then have nn: "numbered env n" using idx(3) by blast
    note up = ancestors_loop_num [OF idx(3) nn xs]
    have "forest ?idx" using forest_filter [OF numbered_forest [OF idx(1,3)]] by (simp add: index_erase_def)
    note run = rfold_run_remove_spec [of "s\<lparr>fdb_index := ?idx\<rparr>" "bhs_id h" xs, simplified, OF this h(2)]
    define P where "P b \<longleftrightarrow> bhs_id b \<noteq> i \<and> (\<forall>x \<in> set (takeWhile (\<lambda>x. \<not> descends ?idx x (bhs_id h)) xs).
      \<not> descends ?idx x (bhs_id b))" for b :: block_state
    have fP: "filter (\<lambda>b. \<forall>x \<in> set (takeWhile (\<lambda>x. \<not> descends ?idx x (bhs_id h)) xs).
        \<not> descends ?idx x (bhs_id b)) ?idx = filter P (fdb_index s)"
      unfolding P_def by (rule filter_index_erase)
    define stop where "stop \<longleftrightarrow> (\<exists>x \<in> set xs. descends ?idx x (bhs_id h))"
    have s': "s' = s\<lparr>fdb_index := filter P (fdb_index s), fdb_root := (if stop then Some r else Some n)\<rparr>"
      using adv r(1) n xs run unfolding fP stop_def [symmetric]
      by (auto simp: advance_root_run_def split: if_splits)
    have hP: "P h" if "bhs_id h \<noteq> i" using that by (auto simp: P_def dest: set_takeWhileD)
    have "h \<in> insert (if stop then r else n) (set (filter P (fdb_index s)))"
    proof (cases "bhs_id h = i \<and> h \<noteq> r")
      case True
      then have "h = n" using h(1) ni distinct_idsD [OF idx(1), of h n] by auto
      moreover have "\<not> descends ?idx x i" if "x \<in> set xs" for x
      proof
        assume "descends ?idx x i"
        then have "x = i" by (auto simp: set_index_erase elim: descendsE)
        then show False using up that nn ni(2) by (auto simp: numbered_def)
      qed
      ultimately show ?thesis using True by (auto simp: stop_def)
    next
      case False
      show ?thesis
      proof (cases "h = r")
        case True
        then have "stop" using up by (auto simp: stop_def intro: descends_refl)
        then show ?thesis using True by simp
      next
        case False
        then show ?thesis using \<open>\<not> (bhs_id h = i \<and> h \<noteq> r)\<close> h(1) hP by auto
      qed
    qed
    then show ?thesis
      using r idx h s' n(2) ni nn
      by (intro fork_wfI [where r = "if stop then r else n" and h = h])
        (auto simp: sorted_filter distinct_map_filter is_valid_def numbered_def)
  qed (use wf in simp)
qed

section \<open>The head and the pending head\<close>

lemma fork_inv_head:
  assumes "fork_inv env s"
  shows "\<exists>h. fork_head s = Inr h \<and> validated h \<and> (\<forall>b \<in> set (fdb_index s). validated b \<longrightarrow> \<not> first_preferred b h)"
  using assms
proof (rule fork_invE)
  fix r h
  assume "fdb_root s = Some r" "block_tree r (fdb_index s)" "h \<in> insert r (set (fdb_index s))"
    "fdb_head s = Some (bhs_id h)" "validated h"
    "\<And>b. b \<in> set (fdb_index s) \<Longrightarrow> validated b \<Longrightarrow> \<not> first_preferred b h"
  then show ?thesis using fork_head_member [of s r h] by blast
qed

lemma fork_inv_sorted: "fork_inv env s \<Longrightarrow> key_sorted (fdb_index s)"
  by (auto simp: fork_inv_def)

lemma dropWhile_valid_sorted:
  assumes "key_sorted idx" "dropWhile is_valid idx = b # rest"
  shows "\<not> validated b \<and> b \<in> set idx \<and> (\<forall>c \<in> set idx. \<not> validated c \<longrightarrow> \<not> first_preferred c b)"
proof -
  have b: "\<not> validated b" using hd_dropWhile [of is_valid idx] assms(2) by (simp add: is_valid_def)
  have split: "idx = takeWhile is_valid idx @ b # rest"
    using assms(2) by (metis takeWhile_dropWhile_id)
  then have mem: "b \<in> set idx" by (metis in_set_conv_decomp)
  have "key_sorted (takeWhile is_valid idx @ b # rest)" using assms(1) split by simp
  then have le: "fork_key b \<le> fork_key c" if "c \<in> set rest" for c
    using that by (simp add: sorted_append)
  have "\<not> first_preferred c b" if c: "c \<in> set idx" "\<not> validated c" for c
  proof -
    have "c \<in> set (takeWhile is_valid idx @ b # rest)" using c(1) split by simp
    then consider "c \<in> set (takeWhile is_valid idx)" | "c = b" | "c \<in> set rest" by auto
    then show ?thesis
    proof cases
      case 1
      then show ?thesis using c(2) set_takeWhileD [of c is_valid idx] by (simp add: is_valid_def)
    next
      case 3
      then show ?thesis using fork_key_le_preferred(2) [OF le] b c(2) by simp
    qed simp
  qed
  with b mem show ?thesis by blast
qed

lemma pending_head_best:
  assumes "fork_inv env s"
  shows "\<exists>p. pending_head s = Inr p \<and> (\<forall>b \<in> set (fdb_index s). \<not> first_preferred b p)"
proof -
  obtain h where h: "fork_head s = Inr h"
      "\<And>b. b \<in> set (fdb_index s) \<Longrightarrow> validated b \<Longrightarrow> \<not> first_preferred b h"
    using fork_inv_head [OF assms] by blast
  show ?thesis
  proof (cases "dropWhile is_valid (fdb_index s)")
    case Nil
    then have "\<forall>b \<in> set (fdb_index s). validated b" by (simp add: dropWhile_eq_Nil_conv is_valid_def)
    moreover have "pending_head s = Inr h" unfolding pending_head_def Nil using h(1) by simp
    ultimately show ?thesis using h(2) by blast
  next
    case (Cons b rest)
    note D = dropWhile_valid_sorted [OF fork_inv_sorted [OF assms] Cons]
    show ?thesis
    proof (cases "first_preferred b h")
      case True
      have "\<not> first_preferred c b" if "c \<in> set (fdb_index s)" for c
      proof (cases "validated c")
        case True
        then have "\<not> first_preferred c h" using h(2) that by blast
        moreover have "\<not> first_preferred h b" using \<open>first_preferred b h\<close> by (auto simp: first_preferred_def)
        ultimately show ?thesis by (rule first_preferred_trans_neg)
      qed (use D that in blast)
      then show ?thesis using True Cons h(1) by (simp add: pending_head_def)
    next
      case False
      have "\<not> first_preferred c h" if "c \<in> set (fdb_index s)" for c
        using h(2) D False that first_preferred_trans_neg [of c b h] by (cases "validated c") blast+
      then show ?thesis using False Cons h(1) by (simp add: pending_head_def)
    qed
  qed
qed

end
