(* ===== verification/Fork_File.thy ===== *)
theory Fork_File
  imports Fork_Choice
begin

text \<open>
  Writing the fork database to its file and reading it back (\<^verbatim>\<open>fork_database::close\<close> and
  \<^verbatim>\<open>fork_database::open\<close>). The file is the record of the values that are packed one after the other;
  the encoding of each of them is fc's. The extracted header extensions of a block are not part of the
  file and are recomputed from the header.
\<close>

section \<open>Model\<close>

record fork_file =
  ff_totem :: u32
  ff_version :: u32
  ff_root :: block_header_state
  ff_blocks :: "block_state list"
  ff_head :: "block_id_type option"

definition magic_number :: u32 where
  "magic_number = 0x30510FDB"

definition min_supported_version :: u32 where
  "min_supported_version = 1"

definition max_supported_version :: u32 where
  "max_supported_version = 1"

text \<open>The merge loop of \<^verbatim>\<open>close\<close> over the unvalidated and the validated blocks, both in reverse order of
  the index.\<close>

fun close_merge :: "block_state list \<Rightarrow> block_state list \<Rightarrow> block_state list" where
  "close_merge [] vs = vs"
| "close_merge us [] = us"
| "close_merge (u # us) (v # vs) =
     (if first_preferred v u then u # close_merge us (v # vs) else v # close_merge (u # us) vs)"

text \<open>\<open>None\<close> for the file means that nothing is written.\<close>

definition fork_close :: "fork_database \<Rightarrow> fork_database \<times> fork_file option" where
  "fork_close s =
     (case fdb_root s of
        None \<Rightarrow> (s, None)
      | Some r \<Rightarrow>
          (let indx = fdb_index s;
               unvalidated = rev (dropWhile is_valid indx);
               validated_blocks = rev (takeWhile is_valid indx)
           in (s\<lparr>fdb_index := []\<rparr>,
               Some \<lparr>ff_totem = magic_number, ff_version = max_supported_version,
                     ff_root = (block_header_state.truncate r)\<lparr>header_exts := []\<rparr>,
                     ff_blocks = map (\<lambda>b. b\<lparr>header_exts := []\<rparr>) (close_merge unvalidated validated_blocks),
                     ff_head = fdb_head s\<rparr>)))"

definition open_block ::
  "header_env \<Rightarrow> pf_validator \<Rightarrow> block_state \<Rightarrow> fork_database \<Rightarrow> fork_database result" where
  "open_block env validator b s =
     rbind (validate_and_extract_header_extensions env (header b)) (\<lambda>exts.
     fork_add_impl validator s (b\<lparr>header_exts := exts\<rparr>) False True)"

text \<open>The end of \<^verbatim>\<open>open\<close>: the head that the file names, which is set before it is checked.\<close>

definition open_head :: "fork_database \<Rightarrow> block_id_type \<Rightarrow> fork_database \<times> chain_exception option" where
  "open_head s head_id =
     (case get_block_header s head_id of
        Inl e \<Rightarrow> (s, Some e)
      | Inr None \<Rightarrow> (s\<lparr>fdb_head := None\<rparr>, Some Fork_database_exception)
      | Inr (Some h) \<Rightarrow>
          (let at_root = (Some (bhs_id h) = map_option bhs_id (fdb_root s));
               ok = (case fdb_index s of
                       [] \<Rightarrow> at_root
                     | candidate # _ \<Rightarrow> if \<not> is_valid candidate then at_root else \<not> first_preferred candidate h)
           in (s\<lparr>fdb_head := Some head_id\<rparr>, if ok then None else Some Fork_database_exception)))"

text \<open>\<^verbatim>\<open>open\<close> with the state it leaves: where a block is refused, the blocks before it stay.\<close>

definition fork_open_run ::
  "header_env \<Rightarrow> pf_validator \<Rightarrow> fork_database \<Rightarrow> fork_file option \<Rightarrow> fork_database \<times> chain_exception option" where
  "fork_open_run env validator s file =
     (case file of
        None \<Rightarrow> (s, None)
      | Some f \<Rightarrow>
          if ff_totem f \<noteq> magic_number then (s, Some Fork_database_exception)
          else if \<not> (min_supported_version \<le> ff_version f \<and> ff_version f \<le> max_supported_version)
          then (s, Some Fork_database_exception)
          else
            (case rfold_run (open_block env validator) (ff_blocks f) (fork_reset (ff_root f)) of
               (s', Some e) \<Rightarrow> (s', Some e)
             | (s', None) \<Rightarrow>
                 (case ff_head f of
                    None \<Rightarrow> (s', Some (Other_exception ''out_of_range_exception''))
                  | Some head_id \<Rightarrow> open_head s' head_id)))"

text \<open>What the caller sees: the database and the file, which is removed at the end, or the exception.\<close>

definition fork_open ::
  "header_env \<Rightarrow> pf_validator \<Rightarrow> fork_database \<Rightarrow> fork_file option \<Rightarrow> (fork_database \<times> fork_file option) result" where
  "fork_open env validator s file =
     rbind (outcome (fork_open_run env validator s file)) (\<lambda>s'. Inr (s', None))"

section \<open>The order of the blocks in the file\<close>

abbreviation not_better :: "block_state \<Rightarrow> block_state \<Rightarrow> bool" where
  "not_better x y \<equiv> \<not> first_preferred x y"

lemma first_preferred_asym: "first_preferred x y \<Longrightarrow> \<not> first_preferred y x"
  by (auto simp: first_preferred_def)

lemma set_close_merge: "set (close_merge us vs) = set us \<union> set vs"
  by (induction us vs rule: close_merge.induct) auto

lemma distinct_close_merge:
  "distinct us \<Longrightarrow> distinct vs \<Longrightarrow> set us \<inter> set vs = {} \<Longrightarrow> distinct (close_merge us vs)"
  by (induction us vs rule: close_merge.induct) (auto simp: set_close_merge)

lemma close_merge_sorted:
  "sorted_wrt not_better us \<Longrightarrow> sorted_wrt not_better vs \<Longrightarrow> sorted_wrt not_better (close_merge us vs)"
proof (induction us vs rule: close_merge.induct)
  case (3 u us v vs)
  show ?case
  proof (cases "first_preferred v u")
    case True
    have "\<not> first_preferred u x" if "x \<in> set (v # vs)" for x
    proof -
      have "\<not> first_preferred v x" using "3.prems"(2) that by auto
      then show ?thesis using True first_preferred_trans_neg [of v x u]
        first_preferred_asym [OF True] first_preferred_trans_neg [of u v x] by blast
    qed
    with True 3 show ?thesis by (auto simp: set_close_merge)
  next
    case False
    have "\<not> first_preferred v x" if "x \<in> set us" for x
      using first_preferred_trans_neg [OF False, of x] "3.prems"(1) that by auto
    with False 3 show ?thesis by (auto simp: set_close_merge)
  qed
qed simp_all

lemma key_sorted_rev_same:
  assumes "key_sorted xs" "\<forall>b \<in> set xs. validated b = v"
  shows "sorted_wrt not_better (rev xs)"
proof -
  have "sorted_wrt (\<lambda>x y. fork_key x \<le> fork_key y) xs" using assms(1) by (simp add: sorted_map)
  then have "sorted_wrt (\<lambda>x y. not_better y x) xs"
    by (rule sorted_wrt_mono_rel [rotated]) (use assms(2) fork_key_le_preferred(2) in blast)
  then show ?thesis by (simp add: sorted_wrt_rev)
qed

lemma key_sorted_dropWhile_unvalidated:
  assumes "key_sorted idx" "b \<in> set (dropWhile is_valid idx)"
  shows "\<not> validated b"
proof (cases "dropWhile is_valid idx")
  case Nil
  then show ?thesis using assms(2) unfolding Nil by simp
next
  case (Cons c rest)
  have c: "\<not> validated c" using dropWhile_valid_sorted [OF assms(1) Cons] by blast
  have "key_sorted (dropWhile is_valid idx)"
    using assms(1) by (metis dropWhile_eq_drop drop_map sorted_wrt_drop)
  then have "fork_key c \<le> fork_key b" using assms(2) Cons by auto
  then show ?thesis using c fork_key_le_preferred(1) by blast
qed

lemma close_order:
  assumes "key_sorted idx" "distinct idx"
  defines "ws \<equiv> close_merge (rev (dropWhile is_valid idx)) (rev (takeWhile is_valid idx))"
  shows "set ws = set idx" "distinct ws" "sorted_wrt not_better ws"
proof -
  have u: "\<not> validated b" if "b \<in> set (dropWhile is_valid idx)" for b
    using key_sorted_dropWhile_unvalidated [OF assms(1) that] .
  have v: "validated b" if "b \<in> set (takeWhile is_valid idx)" for b
    using set_takeWhileD [OF that] by (simp add: is_valid_def)
  show "set ws = set idx"
    unfolding ws_def set_close_merge by (metis Un_commute set_append set_rev takeWhile_dropWhile_id)
  show "distinct ws"
    unfolding ws_def by (rule distinct_close_merge)
      (use assms(2) u v in \<open>auto simp: distinct_takeWhile distinct_dropWhile\<close>)
  have "key_sorted (dropWhile is_valid idx)" "key_sorted (takeWhile is_valid idx)"
    using assms(1) by (metis dropWhile_eq_drop drop_map sorted_wrt_drop,
      metis takeWhile_eq_take take_map sorted_wrt_take)
  then show "sorted_wrt not_better ws"
    unfolding ws_def by (intro close_merge_sorted key_sorted_rev_same) (use u v in auto)
qed

section \<open>Reading the file back\<close>

text \<open>What the round trip needs of the blocks: the stored extensions are the ones of the header, the
  validator accepts them on top of the parent, and the irreversible block number does not decrease from
  a parent to its child.\<close>

definition reopenable :: "header_env \<Rightarrow> pf_validator \<Rightarrow> fork_database \<Rightarrow> bool" where
  "reopenable env validator s \<longleftrightarrow>
     (\<forall>b \<in> set (fdb_index s).
        validate_and_extract_header_extensions env (header b) = Inr (header_exts b) \<and>
        (\<forall>p \<in> set_option (fdb_root s) \<union> set (fdb_index s). bhs_id p = prev_id b \<longrightarrow>
           dpos_irreversible_blocknum p \<le> dpos_irreversible_blocknum b \<and>
           (header_exts b \<noteq> [] \<longrightarrow>
              validator (timestamp (header b)) (activated_protocol_features p) (hd (header_exts b)) = Inr ())))"

lemma open_block_add:
  assumes s: "fdb_root s = Some r" "key_sorted (fdb_index s)" "distinct (fdb_index s)"
    and b: "validate_and_extract_header_extensions env (header b) = Inr (header_exts b)"
      "index_find (fdb_index s) (bhs_id b) = None"
    and p: "get_block_header s (prev_id b) = Inr (Some p)"
      "header_exts b \<noteq> [] \<Longrightarrow>
         validator (timestamp (header b)) (activated_protocol_features p) (hd (header_exts b)) = Inr ()"
  shows "\<exists>s'. open_block env validator (b\<lparr>header_exts := []\<rparr>) s = Inr s' \<and> fdb_root s' = Some r \<and>
    key_sorted (fdb_index s') \<and> distinct (fdb_index s') \<and> set (fdb_index s') = insert b (set (fdb_index s))"
proof -
  have "b\<lparr>header_exts := header_exts b\<rparr> = b" by simp
  moreover have "b \<notin> set (fdb_index s)" using b(2) by (auto simp: index_find_None)
  ultimately show ?thesis
    using assms
    by (simp add: open_block_def fork_add_impl_def Let_def sorted_insort_key set_insort_key distinct_insort)
qed

lemma block_tree_parent_num:
  assumes "block_tree r idx" "b \<in> set idx" "p \<in> set idx" "bhs_id p = prev_id b"
  shows "unat (block_num b) = unat (block_num p) + 1"
proof -
  obtain q where "q \<in> insert r (set idx)" "bhs_id q = prev_id b" "unat (block_num b) = unat (block_num q) + 1"
    using assms(1,2) by (rule block_tree_parent)
  then show ?thesis using block_tree_unique [OF assms(1), of q p] assms(3,4) by auto
qed

lemma get_block_header_inj:
  assumes "inj_on bhs_id (insert r (set idx))" "fdb_root s = Some r" "set (fdb_index s) \<subseteq> set idx"
    and "p \<in> insert r (set (fdb_index s))"
  shows "get_block_header s (bhs_id p) = Inr (Some p)"
proof (cases "p = r")
  case False
  then have p: "p \<in> set (fdb_index s)" "bhs_id p \<noteq> bhs_id r"
    using assms by (auto simp: inj_on_def)
  then obtain q where q: "index_find (fdb_index s) (bhs_id p) = Some q"
    using index_find_None [of "fdb_index s" "bhs_id p"] by blast
  then have "q = p" using index_find_SomeD [OF q] assms(1,3) p(1) by (auto simp: inj_on_def)
  then show ?thesis using q p(2) assms(2) by (simp add: get_block_header_def get_block_def)
qed (simp add: get_block_header_def assms(2))

lemma open_blocks:
  fixes idx :: "block_state list"
  assumes "block_tree r idx" "set xs \<subseteq> set idx" "distinct xs" "sorted_wrt not_better xs"
    and closed: "\<And>b p. b \<in> set xs \<Longrightarrow> p \<in> set idx \<Longrightarrow> bhs_id p = prev_id b \<Longrightarrow> p \<in> set xs"
    and lib: "\<And>b p. b \<in> set idx \<Longrightarrow> p \<in> set idx \<Longrightarrow> bhs_id p = prev_id b \<Longrightarrow>
      dpos_irreversible_blocknum p \<le> dpos_irreversible_blocknum b"
    and ext: "\<And>b. b \<in> set idx \<Longrightarrow>
      validate_and_extract_header_extensions env (header b) = Inr (header_exts b)"
    and val: "\<And>b p. b \<in> set idx \<Longrightarrow> p \<in> insert r (set idx) \<Longrightarrow> bhs_id p = prev_id b \<Longrightarrow>
      header_exts b \<noteq> [] \<Longrightarrow>
      validator (timestamp (header b)) (activated_protocol_features p) (hd (header_exts b)) = Inr ()"
    and s: "fdb_root s = Some r" "fdb_index s = []"
  shows "\<exists>s'. rfold (open_block env validator) (map (\<lambda>b. b\<lparr>header_exts := []\<rparr>) xs) s = Inr s' \<and>
    fdb_root s' = Some r \<and> key_sorted (fdb_index s') \<and> distinct (fdb_index s') \<and>
    set (fdb_index s') = set xs"
  using assms(2-4) closed
proof (induction xs rule: rev_induct)
  case Nil
  then show ?case using s by simp
next
  case (snoc b xs)
  have mem: "b \<in> set idx" "b \<notin> set xs" using snoc.prems by auto
  have later: "\<not> first_preferred x b" if "x \<in> set xs" for x
    using snoc.prems(3) that by (simp add: sorted_wrt_append)
  have parent_num: "unat (block_num c) = unat (block_num p) + 1"
    if "c \<in> set idx" "p \<in> set idx" "bhs_id p = prev_id c" for c p
    using block_tree_parent_num [OF assms(1)] that by blast
  have better: "first_preferred c p" if "c \<in> set idx" "p \<in> set idx" "bhs_id p = prev_id c" for c p
    using parent_num [OF that] lib [OF that]
    by (auto simp: first_preferred_def word_less_nat_alt order.order_iff_strict)
  have closed': "p \<in> set xs" if "c \<in> set xs" "p \<in> set idx" "bhs_id p = prev_id c" for c p
  proof -
    have "c \<in> set idx" using snoc.prems(1) that(1) by auto
    then have "p \<noteq> b" using later [OF that(1)] better [of c b] that(2,3) by blast
    moreover have "p \<in> set (xs @ [b])" using snoc.prems(4) [of c p] that by simp
    ultimately show ?thesis by simp
  qed
  have prefix: "set xs \<subseteq> set idx" "distinct xs" "sorted_wrt not_better xs"
    using snoc.prems(1-3) by (simp_all add: sorted_wrt_append)
  obtain s' where s': "rfold (open_block env validator) (map (\<lambda>b. b\<lparr>header_exts := []\<rparr>) xs) s = Inr s'"
      "fdb_root s' = Some r" "key_sorted (fdb_index s')" "distinct (fdb_index s')" "set (fdb_index s') = set xs"
    using snoc.IH [OF prefix] closed' by blast
  obtain p where p: "p \<in> insert r (set idx)" "bhs_id p = prev_id b" "unat (block_num b) = unat (block_num p) + 1"
    using assms(1) mem(1) by (rule block_tree_parent)
  have "p \<noteq> b" using p(3) by auto
  then have pin: "p \<in> insert r (set (fdb_index s'))"
    using p(1,2) snoc.prems(4) [of b p] unfolding s'(5) by auto
  have inj: "inj_on bhs_id (insert r (set idx))"
    using assms(1) unfolding block_tree_def distinct_map inj_on_insert by blast
  have gbh: "get_block_header s' (prev_id b) = Inr (Some p)"
    using get_block_header_inj [OF inj s'(2) _ pin] prefix(1) unfolding s'(5) p(2) by blast
  have new: "index_find (fdb_index s') (bhs_id b) = None"
    unfolding index_find_None s'(5) using inj mem prefix(1) by (auto simp: inj_on_def)
  obtain s'' where "open_block env validator (b\<lparr>header_exts := []\<rparr>) s' = Inr s''" "fdb_root s'' = Some r"
      "key_sorted (fdb_index s'')" "distinct (fdb_index s'')" "set (fdb_index s'') = insert b (set (fdb_index s'))"
    using open_block_add [where validator = validator, OF s'(2-4) ext [OF mem(1)] new gbh val [OF mem(1) p(1,2)]] by blast
  then show ?case using s' by (simp add: rfold_append)
qed

lemma open_head_ok:
  assumes "fork_inv env s" "fdb_head s = Some i" "fdb_index s' = fdb_index s"
    and "map_option bhs_id (fdb_root s') = map_option bhs_id (fdb_root s)"
    and "map_option dpos_irreversible_blocknum (fdb_root s') = map_option dpos_irreversible_blocknum (fdb_root s)"
    and "map_option block_num (fdb_root s') = map_option block_num (fdb_root s)"
  shows "open_head s' i = (s'\<lparr>fdb_head := Some i\<rparr>, None)"
  using assms(1)
proof (rule fork_invE)
  fix r h
  assume r: "fdb_root s = Some r" "block_tree r (fdb_index s)" "key_sorted (fdb_index s)"
      "h \<in> insert r (set (fdb_index s))"
      "fdb_head s = Some (bhs_id h)" "validated h"
      "\<And>b. b \<in> set (fdb_index s) \<Longrightarrow> validated b \<Longrightarrow> \<not> first_preferred b h"
  obtain r' where r': "fdb_root s' = Some r'" "bhs_id r' = bhs_id r" "block_num r' = block_num r"
      "dpos_irreversible_blocknum r' = dpos_irreversible_blocknum r"
    using assms(4-6) r(1) by auto
  have i: "i = bhs_id h" using r(5) assms(2) by simp
  obtain h' where h': "get_block_header s' i = Inr (Some h')" "bhs_id h' = bhs_id h"
      "block_num h' = block_num h" "dpos_irreversible_blocknum h' = dpos_irreversible_blocknum h"
  proof (cases "h = r")
    case True
    then show ?thesis using that [of r'] r' i by (simp add: get_block_header_def)
  next
    case False
    then have h: "h \<in> set (fdb_index s)" using r(4) by simp
    then have "bhs_id h \<noteq> bhs_id r" using r(2) unfolding block_tree_def by (metis imageI)
    with h have "get_block_header s' i = Inr (Some h)"
      using r' i r(2) assms(3) index_find_member [of "fdb_index s" h]
      by (simp add: get_block_header_def get_block_def block_tree_def)
    then show ?thesis using that [of h] by simp
  qed
  have best: "\<not> first_preferred b h'" if "b \<in> set (fdb_index s)" "validated b" for b
    using r(7) [OF that] h' by (simp add: first_preferred_def)
  have root: "h = r" if "fdb_index s = [] \<or> \<not> validated (hd (fdb_index s))"
    using that key_sorted_candidate [OF r(3)] r(4,6) by auto
  show ?thesis
  proof (cases "fdb_index s")
    case Nil
    then show ?thesis using root r'(1,2) h'(1,2) assms(3) by (simp add: open_head_def)
  next
    case (Cons c rest)
    then show ?thesis
      using root r'(1,2) h'(1,2) assms(3) best [of c]
      by (cases "validated c") (auto simp: open_head_def is_valid_def Let_def)
  qed
qed

lemma fork_key_inj:
  assumes "distinct (map bhs_id xs)"
  shows "inj_on fork_key (set xs)" "distinct (map fork_key xs)"
proof -
  show inj: "inj_on fork_key (set xs)"
    using assms by (auto simp: inj_on_def fork_key_def distinct_map)
  then show "distinct (map fork_key xs)" using assms by (simp add: distinct_map)
qed

lemma open_close:
  assumes "fork_inv env s" "reopenable env validator s"
  shows "\<exists>s0 r file. fork_close s = (s0, Some file) \<and> fdb_root s = Some r \<and>
    fork_open env validator fork_database_init (Some file) =
      Inr (s\<lparr>fdb_root := Some (r\<lparr>header_exts := []\<rparr>)\<rparr>, None)"
  using assms(1)
proof (rule fork_invE)
  fix r h
  assume r: "fdb_root s = Some r" "validated r" "block_tree r (fdb_index s)" "key_sorted (fdb_index s)"
      "fdb_head s = Some (bhs_id h)"
  let ?idx = "fdb_index s"
  let ?r = "r\<lparr>header_exts := []\<rparr>"
  let ?xs = "close_merge (rev (dropWhile is_valid ?idx)) (rev (takeWhile is_valid ?idx))"
  let ?s = "fork_reset ((block_header_state.truncate r)\<lparr>header_exts := []\<rparr>)"
  have t: "block_tree ?r ?idx" using r(3) by (auto simp: block_tree_def)
  have ids: "distinct (map bhs_id ?idx)" using r(3) by (simp add: block_tree_def)
  note ws = close_order [OF r(4)]
  have d: "distinct ?idx" using ids by (simp add: distinct_map)
  have root: "fdb_root ?s = Some ?r" "fdb_index ?s = []"
    using r(2) by (simp_all add: fork_reset_def block_header_state.defs block_state.defs)
  have reop: "validate_and_extract_header_extensions env (header b) = Inr (header_exts b)"
    "\<And>p. p \<in> insert r (set ?idx) \<Longrightarrow> bhs_id p = prev_id b \<Longrightarrow>
       dpos_irreversible_blocknum p \<le> dpos_irreversible_blocknum b"
    "\<And>p. p \<in> insert r (set ?idx) \<Longrightarrow> bhs_id p = prev_id b \<Longrightarrow> header_exts b \<noteq> [] \<Longrightarrow>
       validator (timestamp (header b)) (activated_protocol_features p) (hd (header_exts b)) = Inr ()"
    if "b \<in> set ?idx" for b
    using assms(2) that r(1) by (auto simp: reopenable_def)
  have val: "validator (timestamp (header b)) (activated_protocol_features p) (hd (header_exts b)) = Inr ()"
    if "b \<in> set ?idx" "p \<in> insert ?r (set ?idx)" "bhs_id p = prev_id b" "header_exts b \<noteq> []" for b p
    using reop(3) [OF that(1), of p] reop(3) [OF that(1), of r] that by auto
  obtain s' where s': "rfold (open_block env validator) (map (\<lambda>b. b\<lparr>header_exts := []\<rparr>) ?xs) ?s = Inr s'"
      "fdb_root s' = Some ?r" "key_sorted (fdb_index s')" "distinct (fdb_index s')"
      "set (fdb_index s') = set ?xs"
    using open_blocks [where env = env and validator = validator, OF t _ ws(2) [OF d] ws(3) [OF d] _ _ reop(1) val root]
      ws(1) [OF d] reop(2) by blast
  have "distinct (map bhs_id (fdb_index s'))"
    using s'(4,5) ws(1) [OF d] ids by (simp add: distinct_map)
  then have idx: "fdb_index s' = ?idx"
    using map_sorted_distinct_set_unique [of fork_key "fdb_index s'" ?idx] s'(3,5) r(4) ws(1) [OF d]
      fork_key_inj [OF ids] fork_key_inj(2) [of "fdb_index s'"] by simp
  have "open_head s' (bhs_id h) = (s'\<lparr>fdb_head := Some (bhs_id h)\<rparr>, None)"
    by (rule open_head_ok [OF assms(1) r(5) idx]) (simp_all add: s'(2) r(1))
  moreover have "s'\<lparr>fdb_head := Some (bhs_id h)\<rparr> = s\<lparr>fdb_root := Some ?r\<rparr>"
    using idx s'(2) r(5) by simp
  ultimately show ?thesis
    using s'(1) r(1,5)
    by (simp add: fork_close_def fork_open_def fork_open_run_def outcome_rfold_run [symmetric] Let_def min_supported_version_def max_supported_version_def)
qed

section \<open>Opening keeps the invariant\<close>

lemma truncate_simps [simp]:
  "bhs_id (block_header_state.truncate p) = bhs_id p"
  "block_num (block_header_state.truncate p) = block_num p"
  "header (block_header_state.truncate p) = header p"
  by (simp_all add: block_header_state.defs)

lemma open_block_step:
  assumes "open_block env validator b t = Inr t'" "fork_inv env t" "numbered env b"
  obtains exts where "fork_inv env t'" "fdb_root t' = fdb_root t"
    "set (fdb_index t') = insert (b\<lparr>header_exts := exts\<rparr>) (set (fdb_index t))"
proof -
  obtain exts where add: "fork_add_impl validator t (b\<lparr>header_exts := exts\<rparr>) False True = Inr t'"
    using assms(1) by (auto simp: open_block_def result_simps)
  then obtain p where p: "get_block_header t (prev_id (b\<lparr>header_exts := exts\<rparr>)) = Inr (Some p)"
    by (auto simp: fork_add_impl_def result_simps split: option.splits)
  obtain r where r: "fdb_root t = Some r"
      "\<forall>c \<in> insert r (set (fdb_index t)). num_from_id env (bhs_id c) = block_num c"
    using assms(2) unfolding fork_inv_def by blast
  have "num_from_id env (prev_id b) = block_num p" using get_block_header_SomeD [OF r(1) p] r(2) by auto
  then have "fork_inv env t'"
    using fork_add_inv [OF assms(2) p _ _ add] assms(3) by (simp add: numbered_def)
  moreover have "fdb_root t' = fdb_root t"
      "set (fdb_index t') = insert (b\<lparr>header_exts := exts\<rparr>) (set (fdb_index t))"
    using add by (auto simp: fork_add_impl_def result_simps Let_def set_insort_key split: if_splits option.splits)
  ultimately show ?thesis by (rule that)
qed

lemma open_blocks_run:
  assumes "rfold_run (open_block env validator) xs t = (t', e)" "fork_inv env t" "\<forall>b \<in> set xs. numbered env b"
  shows "fork_inv env t' \<and> fdb_root t' = fdb_root t \<and> set (fdb_index t) \<subseteq> set (fdb_index t') \<and>
    (\<forall>c \<in> set (fdb_index t'). c \<in> set (fdb_index t) \<or> (\<exists>b \<in> set xs. \<exists>x. c = b\<lparr>header_exts := x\<rparr>)) \<and>
    (e = None \<longrightarrow> bhs_id ` set xs \<subseteq> bhs_id ` set (fdb_index t'))"
  using assms
proof (induction xs arbitrary: t)
  case (Cons b xs)
  show ?case
  proof (cases "open_block env validator b t")
    case (Inl e')
    then show ?thesis using Cons.prems by auto
  next
    case (Inr u)
    obtain exts where u: "fork_inv env u" "fdb_root u = fdb_root t"
        "set (fdb_index u) = insert (b\<lparr>header_exts := exts\<rparr>) (set (fdb_index t))"
      using open_block_step [OF Inr Cons.prems(2)] Cons.prems(3) by auto
    have ih: "fork_inv env t' \<and> fdb_root t' = fdb_root u \<and> set (fdb_index u) \<subseteq> set (fdb_index t') \<and>
        (\<forall>c \<in> set (fdb_index t'). c \<in> set (fdb_index u) \<or> (\<exists>b \<in> set xs. \<exists>x. c = b\<lparr>header_exts := x\<rparr>)) \<and>
        (e = None \<longrightarrow> bhs_id ` set xs \<subseteq> bhs_id ` set (fdb_index t'))"
      using Cons.IH [OF _ u(1)] Cons.prems(1,3) Inr by simp
    have "bhs_id (b\<lparr>header_exts := exts\<rparr>) \<in> bhs_id ` set (fdb_index t')" using ih u(3) by blast
    then have "bhs_id b \<in> bhs_id ` set (fdb_index t')" by simp
    moreover have "c \<in> set (fdb_index t) \<or> (\<exists>b \<in> set (b # xs). \<exists>x. c = b\<lparr>header_exts := x\<rparr>)"
      if "c \<in> set (fdb_index t')" for c
      using ih that u(3) by (metis insertE list.set_intros)
    ultimately show ?thesis using ih u(2,3) by auto
  qed
qed simp

text \<open>The blocks that are read differ from the written ones in their extracted extensions at most.\<close>

lemma fork_inv_set_head:
  assumes "fork_inv env t" "fdb_root t = Some r" "h \<in> insert r (set (fdb_index t))" "validated h"
    and "\<And>b. b \<in> set (fdb_index t) \<Longrightarrow> validated b \<Longrightarrow> \<not> first_preferred b h"
  shows "fork_inv env (t\<lparr>fdb_head := Some (bhs_id h)\<rparr>)"
  using assms unfolding fork_inv_def by auto

lemma fork_wf_set_head:
  assumes "fork_wf env t" "fdb_root t = Some r" "h \<in> insert r (set (fdb_index t))" "validated h"
  shows "fork_wf env (t\<lparr>fdb_head := Some (bhs_id h)\<rparr>)"
  using assms unfolding fork_wf_def by auto

lemma fork_open_run_cases:
  assumes wf: "fork_wf env s" and close: "fork_close s = (s0, Some file)"
    and "fork_open_run env validator t (Some file) = (s', e)"
  obtains "fork_inv env s'"
  | r h u h' where "fdb_root s = Some r" "h \<in> insert r (set (fdb_index s))" "fdb_head s = Some (bhs_id h)"
      "validated h" "fork_inv env u" "fdb_root u = Some (r\<lparr>header_exts := []\<rparr>)"
      "\<forall>c \<in> set (fdb_index u). \<exists>b \<in> set (fdb_index s). \<exists>x. c = b\<lparr>header_exts := x\<rparr>"
      "h' \<in> insert (r\<lparr>header_exts := []\<rparr>) (set (fdb_index u))" "validated h'"
      "h' = r\<lparr>header_exts := []\<rparr> \<and> bhs_id h = bhs_id r \<or> (\<exists>x. h' = h\<lparr>header_exts := x\<rparr>)"
      "s' = u\<lparr>fdb_head := Some (bhs_id h')\<rparr>"
  using wf
proof (rule fork_wfE)
  fix r h
  assume r: "fdb_root s = Some r" "validated r" "num_from_id env (bhs_id r) = block_num r"
    and idx: "distinct (map bhs_id (fdb_index s))" "key_sorted (fdb_index s)"
      "\<forall>b \<in> set (fdb_index s). numbered env b"
    and h: "h \<in> insert r (set (fdb_index s))" "fdb_head s = Some (bhs_id h)" "validated h"
  let ?r = "r\<lparr>header_exts := []\<rparr>"
  let ?root = "(block_header_state.truncate r)\<lparr>header_exts := []\<rparr>"
  let ?xs = "close_merge (rev (dropWhile is_valid (fdb_index s))) (rev (takeWhile is_valid (fdb_index s)))"
  let ?ys = "map (\<lambda>b. b\<lparr>header_exts := []\<rparr>) ?xs"
  have xs: "set ?xs = set (fdb_index s)" using close_order(1) [OF idx(2)] idx(1) by (simp add: distinct_map)
  have root: "fdb_root (fork_reset ?root) = Some ?r" "fdb_index (fork_reset ?root) = []"
    using r(2) by (simp_all add: fork_reset_def block_header_state.defs block_state.defs)
  have inv0: "fork_inv env (fork_reset ?root)" by (rule fork_reset_inv) (simp add: r(3))
  obtain u e' where run: "rfold_run (open_block env validator) ?ys (fork_reset ?root) = (u, e')"
    by (rule prod.exhaust)
  have "\<forall>b \<in> set ?ys. numbered env b" using idx(3) xs by (auto simp: numbered_def)
  note load = open_blocks_run [OF run inv0 this]
  have loaded: "\<forall>c \<in> set (fdb_index u). \<exists>b \<in> set (fdb_index s). \<exists>x. c = b\<lparr>header_exts := x\<rparr>"
    using load root(2) by (simp add: xs)
  have ff: "ff_totem file = magic_number" "ff_version file = max_supported_version" "ff_root file = ?root"
      "ff_blocks file = ?ys" "ff_head file = Some (bhs_id h)"
    using close r(1) h(2) by (auto simp: fork_close_def Let_def)
  show ?thesis
  proof (cases e')
    case (Some x)
    then have "s' = u"
      using assms(3) ff run by (simp add: fork_open_run_def min_supported_version_def max_supported_version_def)
    then show ?thesis using that(1) load by blast
  next
    case None
    have o: "open_head u (bhs_id h) = (s', e)"
      using assms(3) ff run None
      by (simp add: fork_open_run_def min_supported_version_def max_supported_version_def)
    have ru: "fdb_root u = Some ?r" using load root(1) by simp
    obtain h' where h': "get_block_header u (bhs_id h) = Inr (Some h')"
        "h' \<in> insert ?r (set (fdb_index u))" "validated h'"
        "h' = ?r \<and> bhs_id h = bhs_id r \<or> (\<exists>x. h' = h\<lparr>header_exts := x\<rparr>)"
    proof (cases "bhs_id h = bhs_id r")
      case True
      then show ?thesis using that [of ?r] ru r(2) by (simp add: get_block_header_def)
    next
      case False
      then have hi: "h \<in> set (fdb_index s)" using h(1) by auto
      have "bhs_id h \<in> bhs_id ` set ?ys" using hi by (auto simp: xs image_image)
      moreover have "bhs_id ` set ?ys \<subseteq> bhs_id ` set (fdb_index u)" using load None by simp
      ultimately have "bhs_id h \<in> bhs_id ` set (fdb_index u)" by (rule rev_subsetD)
      then obtain c where c: "index_find (fdb_index u) (bhs_id h) = Some c"
        using index_find_None [of "fdb_index u" "bhs_id h"] by blast
      then have ci: "c \<in> set (fdb_index u)" "bhs_id c = bhs_id h" by (auto dest: index_find_SomeD)
      then obtain b x where b: "b \<in> set (fdb_index s)" "c = b\<lparr>header_exts := x\<rparr>" using loaded by blast
      then have "b = h" using ci(2) hi distinct_idsD [OF idx(1), of b h] by simp
      then have ch: "c = h\<lparr>header_exts := x\<rparr>" using b(2) by simp
      show ?thesis
      proof (rule that [of c])
        show "get_block_header u (bhs_id h) = Inr (Some c)"
          using c False ru by (simp add: get_block_header_def get_block_def)
        show "validated c" using ch h(3) by simp
      qed (use ci(1) ch in blast)+
    qed
    then have "bhs_id h' = bhs_id h" by auto
    then have "s' = u\<lparr>fdb_head := Some (bhs_id h')\<rparr>"
      using o h'(1) by (auto simp: open_head_def Let_def)
    then show ?thesis using that(2) [OF r(1) h _ ru loaded h'(2-4)] load by blast
  qed
qed

lemma fork_open_run_inv:
  assumes "fork_wf env s" "fork_close s = (s0, Some file)" "fork_open_run env validator t (Some file) = (s', e)"
  shows "fork_wf env s' \<and> (fork_inv env s \<longrightarrow> fork_inv env s')"
  using assms
proof (rule fork_open_run_cases)
  assume "fork_inv env s'"
  then show ?thesis using fork_inv_wf by blast
next
  fix r h u h'
  assume s: "fdb_root s = Some r" "h \<in> insert r (set (fdb_index s))" "fdb_head s = Some (bhs_id h)"
    and u: "fork_inv env u" "fdb_root u = Some (r\<lparr>header_exts := []\<rparr>)"
      "\<forall>c \<in> set (fdb_index u). \<exists>b \<in> set (fdb_index s). \<exists>x. c = b\<lparr>header_exts := x\<rparr>"
    and h': "h' \<in> insert (r\<lparr>header_exts := []\<rparr>) (set (fdb_index u))" "validated h'"
      "h' = r\<lparr>header_exts := []\<rparr> \<and> bhs_id h = bhs_id r \<or> (\<exists>x. h' = h\<lparr>header_exts := x\<rparr>)"
    and s': "s' = u\<lparr>fdb_head := Some (bhs_id h')\<rparr>"
  have "fork_inv env s'" if inv: "fork_inv env s"
  proof -
    obtain q g where q: "fdb_root s = Some q" "block_tree q (fdb_index s)" "g \<in> insert q (set (fdb_index s))"
        "fdb_head s = Some (bhs_id g)" "\<forall>b \<in> set (fdb_index s). validated b \<longrightarrow> \<not> first_preferred b g"
      using inv unfolding fork_inv_def by blast
    then have g: "g \<in> insert r (set (fdb_index s))" "bhs_id g = bhs_id h" "block_tree r (fdb_index s)"
        "\<forall>b \<in> set (fdb_index s). validated b \<longrightarrow> \<not> first_preferred b g"
      using s(1,3) by simp_all
    then have gh: "g = h" using block_tree_unique [OF g(3,1), of h] s(2) by simp
    have "h = r" if "bhs_id h = bhs_id r" using block_tree_unique [OF g(3) s(2), of r] that by simp
    then have num: "block_num h' = block_num g" "dpos_irreversible_blocknum h' = dpos_irreversible_blocknum g"
      using h'(3) gh by auto
    have "\<not> first_preferred c h'" if c: "c \<in> set (fdb_index u)" "validated c" for c
    proof -
      obtain b x where "b \<in> set (fdb_index s)" "c = b\<lparr>header_exts := x\<rparr>" using u(3) c(1) by blast
      then show ?thesis using g(4) c(2) num by (auto simp: first_preferred_def)
    qed
    then show ?thesis unfolding s' by (rule fork_inv_set_head [OF u(1,2) h'(1,2)])
  qed
  moreover have "fork_wf env s'"
    unfolding s' by (rule fork_wf_set_head [OF fork_inv_wf [OF u(1)] u(2) h'(1,2)])
  ultimately show ?thesis by blast
qed

section \<open>Reachable fork databases\<close>

text \<open>The calls the controller makes. A block state enters the database as the successor that
  \<^verbatim>\<open>block_header_state::next\<close> computes from the block it builds on; block numbers stay below \<open>2\<^sup>3\<^sup>2\<close>. A call
  that throws leaves the database as it was, because the checks come before the changes, except for
  \<^verbatim>\<open>advance_root\<close> and \<^verbatim>\<open>open\<close>: their rules take the state the call leaves, whether it throws or not. The
  flag tells whether no \<^verbatim>\<open>advance_root\<close> has been interrupted since the last \<^verbatim>\<open>reset\<close>. The file that
  \<^verbatim>\<open>open\<close> reads is one that a reachable database wrote when it was closed.\<close>

inductive fork_reachable :: "header_env \<Rightarrow> bool \<Rightarrow> fork_database \<Rightarrow> bool" for env where
  reach_reset: "num_from_id env (bhs_id bhs) = block_num bhs \<Longrightarrow> fork_reachable env True (fork_reset bhs)"
| reach_add: "fork_reachable env intact s \<Longrightarrow> get_block_header s (prev_id n) = Inr (Some p) \<Longrightarrow>
    next_header env validator (block_header_state.truncate p) h skip = Inr (block_header_state.truncate n) \<Longrightarrow>
    unat (block_num p) + 1 < 2 ^ 32 \<Longrightarrow>
    fork_add_impl validator' s n dup val = Inr s' \<Longrightarrow> fork_reachable env intact s'"
| reach_mark_valid: "fork_reachable env intact s \<Longrightarrow> mark_valid s b = Inr s' \<Longrightarrow> fork_reachable env intact s'"
| reach_remove: "fork_reachable env intact s \<Longrightarrow> fork_remove s i = Inr s' \<Longrightarrow> fork_reachable env intact s'"
| reach_advance: "fork_reachable env intact s \<Longrightarrow> advance_root_run s i = (s', e) \<Longrightarrow>
    fork_reachable env (intact \<and> (e = None \<or> s' = s)) s'"
| reach_rollback: "fork_reachable env intact s \<Longrightarrow> fork_reachable env intact (rollback_head_to_root s)"
| reach_open: "fork_reachable env intact s \<Longrightarrow> fork_close s = (s0, Some file) \<Longrightarrow>
    fork_open_run env validator t (Some file) = (s', e) \<Longrightarrow> fork_reachable env intact s'"

lemma next_header_id_num:
  assumes "\<And>n. endian_reverse_u32 env (endian_reverse_u32 env n) = n"
    and "num_from_id env (bhs_id s) = block_num s" "next_header env validator s h skip = Inr t"
  shows "num_from_id env (bhs_id t) = block_num t" "block_num t = block_num s + 1"
proof -
  obtain p where p: "next_pending env s (timestamp h) (confirmed h) = Inr p"
      and f: "finish_next_unsigned env validator p h = Inr t"
    using assms(3) by (rule next_header_steps)
  show bn: "block_num t = block_num s + 1"
    using next_pending_fields(1) [OF p] finish_next_fields(6) [OF f] by simp
  have "previous h = bhs_id s"
    using next_pending_fields(9) [OF p] finish_next_fields(2) [OF f] by simp
  moreover have "num_from_id env (header_id env h) = num_from_id env (previous h) + 1"
    by (simp add: num_from_id_def header_id_def Let_def ucast_high_plus_low assms(1) header_block_num_def)
  ultimately show "num_from_id env (bhs_id t) = block_num t"
    using assms(2) bn finish_next_fields(16) [OF f] by simp
qed

lemma reach_add_numbered:
  assumes wf: "fork_wf env s" and inv: "\<And>n. endian_reverse_u32 env (endian_reverse_u32 env n) = n"
    and p: "get_block_header s (prev_id n) = Inr (Some p)"
    and nx: "next_header env validator (block_header_state.truncate p) h skip = Inr (block_header_state.truncate n)"
    and small: "unat (block_num p) + 1 < 2 ^ 32"
  shows "numbered env n" "unat (block_num n) = unat (block_num p) + 1"
proof -
  obtain r where r: "fdb_root s = Some r" "num_from_id env (bhs_id r) = block_num r"
      "\<forall>b \<in> set (fdb_index s). numbered env b"
    using wf unfolding fork_wf_def by blast
  have pi: "bhs_id p = prev_id n" "num_from_id env (bhs_id p) = block_num p"
    using get_block_header_SomeD [OF r(1) p] r(2,3) by (auto simp: numbered_def)
  then have n: "num_from_id env (bhs_id n) = block_num n" "block_num n = block_num p + 1"
    using next_header_id_num [OF inv _ nx] by simp_all
  then show "unat (block_num n) = unat (block_num p) + 1"
    using small unat_plus_small [of "block_num p" 1] by simp
  then show "numbered env n" using n(1) pi by (simp add: numbered_def)
qed

lemma fork_reachable_wf_inv:
  assumes "fork_reachable env intact s" "\<And>n. endian_reverse_u32 env (endian_reverse_u32 env n) = n"
  shows "fork_wf env s \<and> (intact \<longrightarrow> fork_inv env s)"
  using assms(1)
proof (induction rule: fork_reachable.induct)
  case (reach_reset bhs)
  then show ?case using fork_reset_inv fork_inv_wf by blast
next
  case (reach_add intact s n p validator h skip validator' dup val s')
  have wf: "fork_wf env s" using reach_add.IH by simp
  note n = reach_add_numbered [OF wf assms(2) reach_add.hyps(2,3,4)]
  have "fork_wf env s'" by (rule fork_add_wf [OF wf n(1) reach_add.hyps(5)])
  moreover have "fork_inv env s'" if intact
    by (rule fork_add_inv [OF _ reach_add.hyps(2) n(2) _ reach_add.hyps(5)])
      (use reach_add.IH that n(1) in \<open>simp_all add: numbered_def\<close>)
  ultimately show ?case by blast
next
  case (reach_advance intact s i s' e)
  have "fork_wf env s'" by (rule advance_root_wf [OF _ reach_advance.hyps(2)]) (use reach_advance.IH in simp)
  moreover have "fork_inv env s'" if "intact" "e = None"
    by (rule advance_root_inv [of env s i])
      (use reach_advance.IH reach_advance.hyps(2) that in \<open>simp_all add: advance_root_def\<close>)
  ultimately show ?case using reach_advance.IH by auto
next
  case (reach_open intact s s0 f validator t s' e)
  then show ?case using fork_open_run_inv [OF _ reach_open.hyps(2,3)] by blast
qed (use mark_valid_wf mark_valid_inv fork_remove_wf fork_remove_inv rollback_wf rollback_inv in blast)+

lemma fork_reachable_inv:
  assumes "fork_reachable env True s" "\<And>n. endian_reverse_u32 env (endian_reverse_u32 env n) = n"
  shows "fork_inv env s"
  using fork_reachable_wf_inv [OF assms] by simp

section \<open>A small fork database\<close>

lemma demo_env_involutive: "endian_reverse_u32 demo_env (endian_reverse_u32 demo_env n) = n"
  by (simp add: demo_env_def bswap32_involutive)

lemma demo_genesis_id: "num_from_id demo_env (bhs_id demo_genesis) = block_num demo_genesis"
  unfolding demo_genesis_def genesis_header_state_def Let_def
  by (simp add: num_from_id_def header_id_def Let_def ucast_high_plus_low demo_env_involutive)

text \<open>The genesis block as root and one validated block above it, which is the head.\<close>

lemma demo_fork:
  obtains n s where "fork_reachable demo_env True s" "fdb_index s = [n]" "validated n"
    "prev_id n = bhs_id demo_genesis" "fork_head s = Inr n" "fdb_head s = Some (bhs_id n)"
    "header n = demo_header" "header_exts n = []"
    "map_option dpos_irreversible_blocknum (fdb_root s) = Some 0"
proof -
  obtain t where t: "next_header demo_env (\<lambda>_ _ _. Inr ()) demo_genesis demo_header False = Inr t"
    using demo_step by blast
  define n where "n = block_header_state.extend t (block_state.fields True)"
  have nt: "block_header_state.truncate n = t" "validated n" "bhs_id n = bhs_id t" "header n = header t"
    by (simp_all add: n_def block_header_state.defs block_state.defs)
  obtain p where p: "next_pending demo_env demo_genesis (timestamp demo_header) (confirmed demo_header) = Inr p"
      and f: "finish_next_unsigned demo_env (\<lambda>_ _ _. Inr ()) p demo_header = Inr t"
    using t by (rule next_header_steps)
  have prev: "prev_id n = bhs_id demo_genesis"
    using nt(4) finish_next_fields(15) [OF f] by (simp add: demo_header_def)
  let ?g = "block_header_state.extend demo_genesis (block_state.fields True)"
  have g: "block_header_state.truncate ?g = demo_genesis" "bhs_id ?g = bhs_id demo_genesis"
      "block_num ?g = block_num demo_genesis"
    by (simp_all add: block_header_state.defs block_state.defs)
  have ghd: "get_block_header (fork_reset demo_genesis) (prev_id n) = Inr (Some ?g)"
    by (simp add: get_block_header_def fork_reset_def prev g)
  let ?s = "(fork_reset demo_genesis)\<lparr>fdb_index := [n], fdb_head := Some (bhs_id n)\<rparr>"
  have add: "fork_add_impl (\<lambda>_ _ _. Inr ()) (fork_reset demo_genesis) n False False = Inr ?s"
    using ghd nt(2)
    by (simp add: fork_add_impl_def fork_reset_def index_find_def is_valid_def Let_def)
  have reach: "fork_reachable demo_env True ?s"
    by (rule reach_add [OF reach_reset [OF demo_genesis_id] ghd _ _ add, of "\<lambda>_ _ _. Inr ()" demo_header False])
      (simp_all add: g nt t demo_genesis_num)
  obtain h where h: "fork_head ?s = Inr h"
    using fork_inv_head [OF fork_reachable_inv [OF reach demo_env_involutive]] by blast
  have "bhs_id n \<noteq> bhs_id demo_genesis"
  proof
    assume "bhs_id n = bhs_id demo_genesis"
    moreover have "num_from_id demo_env (bhs_id t) = block_num demo_genesis + 1"
      using next_header_id_num [OF demo_env_involutive demo_genesis_id t] by simp
    ultimately show False using nt(3) demo_genesis_id by simp
  qed
  then have "fork_head ?s = Inr n"
    by (simp add: fork_head_def fork_reset_def g get_block_def index_find_def)
  moreover have "header n = demo_header" using nt(4) finish_next_fields(15) [OF f] by simp
  moreover have "header_exts n = []"
    using f by (auto simp: n_def finish_next_unsigned_def demo_header_def result_simps
        validate_and_extract_header_extensions_def block_header_state_common.defs block_header_state.defs
        block_state.defs)
  moreover have "map_option dpos_irreversible_blocknum (fdb_root ?s) = Some 0"
    by (simp add: fork_reset_def demo_genesis_def genesis_header_state_def Let_def block_header_state.defs
        block_state.defs)
  ultimately show ?thesis using reach nt(2) prev that [of ?s n] by simp
qed

text \<open>The genesis block as root with two validated children, the second of which is the head, and an unvalidated
  block on top of the first.\<close>

definition demo_block :: "block_id_type \<Rightarrow> block_id_type \<Rightarrow> u32 \<Rightarrow> bool \<Rightarrow> block_state" where
  "demo_block i p n v =
     (block_header_state.extend demo_genesis (block_state.fields v))
       \<lparr>bhs_id := i, header := (header demo_genesis)\<lparr>previous := p\<rparr>, block_num := n\<rparr>"

definition demo_forks :: fork_database where
  "demo_forks =
     (let g = Digest 0x01000000 0 0 0; a = Digest 0x02000000 1 0 0; b = Digest 0x02000000 2 0 0
      in \<lparr>fdb_index = [demo_block a g 2 True, demo_block b g 2 True, demo_block (Digest 0x03000000 1 0 0) a 3 False],
          fdb_root = Some (demo_block g digest_zero 1 True), fdb_head = Some b\<rparr>)"

lemma demo_forks_simps [simp]:
  "fdb_index demo_forks =
     [demo_block (Digest 0x02000000 1 0 0) (Digest 0x01000000 0 0 0) 2 True,
      demo_block (Digest 0x02000000 2 0 0) (Digest 0x01000000 0 0 0) 2 True,
      demo_block (Digest 0x03000000 1 0 0) (Digest 0x02000000 1 0 0) 3 False]"
  "fdb_root demo_forks = Some (demo_block (Digest 0x01000000 0 0 0) digest_zero 1 True)"
  "fdb_head demo_forks = Some (Digest 0x02000000 2 0 0)"
  by (simp_all add: demo_forks_def Let_def)

lemma demo_block_simps [simp]:
  "bhs_id (demo_block i p n v) = i" "prev_id (demo_block i p n v) = p" "block_num (demo_block i p n v) = n"
  "validated (demo_block i p n v) = v"
  "dpos_irreversible_blocknum (demo_block i p n v) = dpos_irreversible_blocknum demo_genesis"
  by (simp_all add: demo_block_def block_header_state.defs block_state.defs)

lemma demo_genesis_lib: "dpos_irreversible_blocknum demo_genesis = 0"
  by (simp add: demo_genesis_def genesis_header_state_def Let_def)

lemma demo_forks_inv: "fork_inv demo_env demo_forks"
proof (rule fork_invI)
  let ?g = "demo_block (Digest 0x01000000 0 0 0) digest_zero 1 True"
  let ?b = "demo_block (Digest 0x02000000 2 0 0) (Digest 0x01000000 0 0 0) 2 True"
  show "fdb_root demo_forks = Some ?g" "validated ?g" "fdb_head demo_forks = Some (bhs_id ?b)" "validated ?b"
      "?b \<in> insert ?g (set (fdb_index demo_forks))"
    by simp_all
  show "block_tree ?g (fdb_index demo_forks)"
    by (auto simp: block_tree_def)
  show "key_sorted (fdb_index demo_forks)"
    by (simp add: fork_key_def less_eq_digest_def sha256_less_def)
  show "num_from_id demo_env (bhs_id c) = block_num c" if "c \<in> insert ?g (set (fdb_index demo_forks))" for c
    using that by (auto simp: num_from_id_def demo_env_def bswap32_def)
  show "\<not> first_preferred c ?b" if "c \<in> set (fdb_index demo_forks)" "validated c" for c
    using that by (auto simp: first_preferred_def)
qed

text \<open>A block with a lower irreversible block number than its parent is written before it and refused when the
  file is opened.\<close>

definition demo_drop :: fork_database where
  "demo_drop =
     \<lparr>fdb_index =
        [(demo_block (Digest 0x02000000 1 0 0) (Digest 0x01000000 0 0 0) 2 False)\<lparr>dpos_irreversible_blocknum := 1\<rparr>,
         demo_block (Digest 0x03000000 1 0 0) (Digest 0x02000000 1 0 0) 3 False],
      fdb_root = Some (demo_block (Digest 0x01000000 0 0 0) digest_zero 1 True),
      fdb_head = Some (Digest 0x01000000 0 0 0)\<rparr>"

lemma demo_drop_inv: "fork_inv demo_env demo_drop"
proof (rule fork_invI)
  let ?g = "demo_block (Digest 0x01000000 0 0 0) digest_zero 1 True"
  show "fdb_root demo_drop = Some ?g" "validated ?g" "fdb_head demo_drop = Some (bhs_id ?g)"
      "?g \<in> insert ?g (set (fdb_index demo_drop))" "validated ?g"
    by (simp_all add: demo_drop_def)
  show "block_tree ?g (fdb_index demo_drop)"
    by (auto simp: block_tree_def demo_drop_def)
  show "key_sorted (fdb_index demo_drop)"
    by (simp add: demo_drop_def fork_key_def demo_genesis_lib)
  show "num_from_id demo_env (bhs_id c) = block_num c" if "c \<in> insert ?g (set (fdb_index demo_drop))" for c
    using that by (auto simp: demo_drop_def num_from_id_def demo_env_def bswap32_def)
  show "\<not> first_preferred c ?g" if "c \<in> set (fdb_index demo_drop)" "validated c" for c
    using that by (auto simp: demo_drop_def)
qed

lemma demo_drop_not_reopened:
  "\<exists>s0 f. fork_close demo_drop = (s0, Some f) \<and>
     fork_open demo_env (\<lambda>_ _ _. Inr ()) fork_database_init (Some f) = Inl Unlinkable_block_exception"
proof -
  let ?c = "demo_block (Digest 0x03000000 1 0 0) (Digest 0x02000000 1 0 0) 3 False"
  have "validate_and_extract_header_extensions demo_env (header ?c) = Inr []"
    by (simp add: demo_block_def demo_genesis_def genesis_header_state_def Let_def
        validate_and_extract_header_extensions_def block_header_state.defs block_state.defs)
  then have "open_block demo_env (\<lambda>_ _ _. Inr ()) (?c\<lparr>header_exts := []\<rparr>)
      (fork_reset ((block_header_state.truncate (demo_block (Digest 0x01000000 0 0 0) digest_zero 1 True))
        \<lparr>header_exts := []\<rparr>)) = Inl Unlinkable_block_exception"
    by (simp add: open_block_def fork_add_impl_def get_block_header_def get_block_def index_find_def
        fork_reset_def block_header_state.defs block_state.defs)
  then show ?thesis
    by (simp add: fork_close_def demo_drop_def is_valid_def fork_open_def fork_open_run_def
        min_supported_version_def max_supported_version_def)
qed

lemma fetch_branch_unknown:
  "get_block s i = None \<Longrightarrow> fetch_branch s i m = Inr [] \<and> search_on_branch s i m = Inr None"
  by (simp add: fetch_branch_def search_on_branch_def)

section \<open>Properties\<close>

text \<open>
  C7. The fork database invariant, for every state that calls of the database can reach: resetting it,
  adding blocks whose header state follows from their parent's, marking blocks valid, removing branches,
  advancing the root, rolling the head back and opening a file that such a database wrote, calls that throw
  included. The index is always sorted, identifiers are unique and carry the block numbers, a block's number
  is one more than its parent's, and the head is a validated block of the database. As long as no
  \<^verbatim>\<open>advance_root\<close> threw after it had erased the new root, the blocks moreover form a tree above the root, with
  every parent present, and no validated block is preferred to the head.
\<close>

theorem fork_database_invariant:
  assumes "\<And>n. endian_reverse_u32 env (endian_reverse_u32 env n) = n"
    and "fork_reachable env intact s"
  shows "fork_wf env s \<and> (intact \<longrightarrow> fork_inv env s)"
  using assms(2,1) by (rule fork_reachable_wf_inv)

theorem fork_database_invariant_witness: "\<exists>s. length (fdb_index s) = 1 \<and> fork_inv demo_env s"
  using demo_fork fork_database_invariant [OF demo_env_involutive]
  by (metis length_Cons list.size(3) One_nat_def)

text \<open>
  C14. Fork choice. The head is a validated block and the best one of them by last irreversible block and
  block number; the pending head is the best of all blocks, validated or not. Both always exist.
\<close>

theorem fork_choice_best:
  assumes "fork_inv env s"
  shows "\<exists>h p. fork_head s = Inr h \<and> pending_head s = Inr p \<and> validated h \<and>
    (\<forall>b \<in> set (fdb_index s). validated b \<longrightarrow> \<not> first_preferred b h) \<and>
    (\<forall>b \<in> set (fdb_index s). \<not> first_preferred b p)"
  using fork_inv_head [OF assms] pending_head_best [OF assms] by blast

theorem fork_choice_best_witness: "\<exists>s h. fdb_index s \<noteq> [] \<and> fork_head s = Inr h \<and> validated h"
proof -
  obtain n s where s: "fork_reachable demo_env True s" "fdb_index s = [n]" by (rule demo_fork)
  have inv: "fork_inv demo_env s" by (rule fork_reachable_inv [OF s(1) demo_env_involutive])
  have "fdb_index s \<noteq> []" using s(2) by simp
  then show ?thesis using fork_choice_best [OF inv] by blast
qed

text \<open>
  C20. Removing a branch. The breadth-first loop always ends. It fails exactly when the head is the removed
  block or one of its descendants, and otherwise erases exactly that block and its descendants.
\<close>

theorem fork_remove_branch:
  assumes "fork_inv env s"
  shows "\<exists>h. fork_head s = Inr h \<and> fork_remove s i =
    (if descends (fdb_index s) i (bhs_id h) then Inl Fork_database_exception
     else Inr (s\<lparr>fdb_index := filter (\<lambda>b. \<not> descends (fdb_index s) i (bhs_id b)) (fdb_index s)\<rparr>))"
  using assms
proof (rule fork_invE)
  fix r h
  assume r: "fdb_root s = Some r" "block_tree r (fdb_index s)" "h \<in> insert r (set (fdb_index s))"
      "fdb_head s = Some (bhs_id h)"
  have "forest (fdb_index s)" using r(2) by (rule block_tree_forest)
  then show ?thesis
    using fork_remove_spec [OF _ r(4), of i] fork_head_member [OF r] by auto
qed

theorem fork_remove_branch_witness:
  "\<exists>s n. fdb_index s = [n] \<and> fork_remove s (bhs_id n) = Inl Fork_database_exception"
proof -
  obtain n s where s: "fork_reachable demo_env True s" "fdb_index s = [n]" "fork_head s = Inr n" by (rule demo_fork)
  have inv: "fork_inv demo_env s" by (rule fork_reachable_inv [OF s(1) demo_env_involutive])
  show ?thesis using fork_remove_branch [OF inv, of "bhs_id n"] s(2,3) descends_refl by auto
qed

text \<open>
  C21. Advancing the root to a validated block succeeds exactly when the head descends from that block.
  Then the block becomes the root and what stays in the index are exactly its strict descendants.
\<close>

theorem advance_root_keeps_descendants:
  assumes "fork_inv env s" "n \<in> set (fdb_index s)" "validated n"
  shows "\<exists>h. fork_head s = Inr h \<and> advance_root s (bhs_id n) =
    (if descends (fdb_index s) (bhs_id n) (bhs_id h)
     then Inr (s\<lparr>fdb_index := filter (\<lambda>b. bhs_id b \<noteq> bhs_id n \<and>
                   descends (fdb_index s) (bhs_id n) (bhs_id b)) (fdb_index s), fdb_root := Some n\<rparr>)
     else Inl Fork_database_exception)"
  using assms(1)
proof (rule fork_invE)
  fix r h
  assume r: "fdb_root s = Some r" "block_tree r (fdb_index s)" "h \<in> insert r (set (fdb_index s))"
      "fdb_head s = Some (bhs_id h)"
  have "bhs_id h \<in> bhs_id ` insert r (set (fdb_index s))" using r(3) by (rule imageI)
  then have "advance_root s (bhs_id n) =
      (if descends (fdb_index s) (bhs_id n) (bhs_id h)
       then Inr (s\<lparr>fdb_index := filter (\<lambda>b. bhs_id b \<noteq> bhs_id n \<and>
                     descends (fdb_index s) (bhs_id n) (bhs_id b)) (fdb_index s), fdb_root := Some n\<rparr>)
       else Inl Fork_database_exception)"
    using assms(2,3) by (intro advance_root_spec [OF r(2,1,4)]) (simp_all add: is_valid_def)
  then show ?thesis using fork_head_member [OF r] by blast
qed

theorem advance_root_keeps_descendants_witness:
  "\<exists>s n s'. fdb_index s = [n] \<and> advance_root s (bhs_id n) = Inr s' \<and> fdb_root s' = Some n \<and> fdb_index s' = []"
proof -
  obtain n s where s: "fork_reachable demo_env True s" "fdb_index s = [n]" "fork_head s = Inr n" "validated n"
    by (rule demo_fork)
  have inv: "fork_inv demo_env s" by (rule fork_reachable_inv [OF s(1) demo_env_involutive])
  show ?thesis
    using advance_root_keeps_descendants [OF inv, of n] s(2-4) descends_refl
    by - (rule exI [of _ s], rule exI [of _ n], simp)
qed

text \<open>
  C31. An \<^verbatim>\<open>advance_root\<close> that throws half way. Where the head does not descend from the validated block that is to
  become the root, the call throws and leaves a changed database: the block is erased, its descendants
  stay behind without it, and what branches off below the last ancestor it shares with the head is removed,
  while the root and the head are as before.
\<close>

theorem advance_root_interrupted:
  assumes "fork_inv env s" "n \<in> set (fdb_index s)" "validated n" "fork_head s = Inr h"
    and "\<not> descends (fdb_index s) (bhs_id n) (bhs_id h)"
  shows "advance_root_run s (bhs_id n) =
    (s\<lparr>fdb_index := filter (\<lambda>b. bhs_id b \<noteq> bhs_id n \<and>
        (descends (fdb_index s) (bhs_id n) (bhs_id b) \<or>
         (\<forall>a. descends (fdb_index s) a (prev_id n) \<and> \<not> descends (fdb_index s) a (bhs_id h) \<longrightarrow>
            \<not> descends (fdb_index s) a (bhs_id b)))) (fdb_index s)\<rparr>, Some Fork_database_exception)"
  using assms(1)
proof (rule fork_invE)
  fix r g
  assume r: "fdb_root s = Some r" "block_tree r (fdb_index s)" "g \<in> insert r (set (fdb_index s))"
      "fdb_head s = Some (bhs_id g)"
  have g: "g = h" using fork_head_member [OF r] assms(4) by simp
  have "bhs_id h \<in> bhs_id ` insert r (set (fdb_index s))" using r(3) g by blast
  then show ?thesis
    using assms(2,3,5) r(4) g by (intro advance_root_run_interrupted [OF r(2,1)]) (simp_all add: is_valid_def)
qed

theorem advance_root_interrupted_witness:
  "\<exists>s n c s'. c \<in> set (fdb_index s) \<and> prev_id c = bhs_id n \<and> get_block s (bhs_id n) = Some n \<and>
     advance_root_run s (bhs_id n) = (s', Some Fork_database_exception) \<and>
     c \<in> set (fdb_index s') \<and> get_block_header s' (prev_id c) = Inr None"
proof -
  let ?g = "Digest 0x01000000 0 0 0" and ?a = "Digest 0x02000000 1 0 0" and ?b = "Digest 0x02000000 2 0 0"
  let ?n = "demo_block ?a ?g 2 True" and ?h = "demo_block ?b ?g 2 True"
  let ?c = "demo_block (Digest 0x03000000 1 0 0) ?a 3 False"
  let ?idx = "fdb_index demo_forks"
  have head: "fork_head demo_forks = Inr ?h"
    by (simp add: fork_head_def get_block_def index_find_def)
  have "\<not> descends ?idx (bhs_id ?n) (prev_id ?h)"
    by (subst descends_absent) (simp_all add: index_find_def)
  then have off: "\<not> descends ?idx (bhs_id ?n) (bhs_id ?h)"
    using descends_parent [of ?idx ?h "bhs_id ?n"] by auto
  have c: "?c \<in> set ?idx" "?n \<in> set ?idx" by simp_all
  have dc: "descends ?idx (bhs_id ?n) (bhs_id ?c)"
    by (rule descends_child [OF _ c(1)]) (simp add: descends_refl)
  obtain s' where s': "advance_root_run demo_forks (bhs_id ?n) = (s', Some Fork_database_exception)"
      "fdb_root s' = fdb_root demo_forks" "?c \<in> set (fdb_index s')" "bhs_id ?n \<notin> bhs_id ` set (fdb_index s')"
    using advance_root_interrupted [OF demo_forks_inv c(2) _ head off] dc c(1) by auto
  have "get_block demo_forks (bhs_id ?n) = Some ?n" by (simp add: get_block_def index_find_def)
  moreover have "get_block_header s' (prev_id ?c) = Inr None"
    using s'(2,4) index_find_None [of "fdb_index s'" "bhs_id ?n"]
    by (simp add: get_block_header_def get_block_def)
  moreover have "prev_id ?c = bhs_id ?n" by simp
  ultimately show ?thesis using s'(1,3) c(1) by blast
qed

text \<open>
  C37. The branch queries, for the identifier of a block of the index. The path from the block to the root exists,
  \<^verbatim>\<open>fetch_branch\<close> returns its blocks up to the given number and \<^verbatim>\<open>search_on_branch\<close> finds the block with
  the given number on it.
\<close>

theorem branch_queries:
  assumes "fork_inv env s" "get_block s i = Some b"
  shows "\<exists>r bs. fdb_root s = Some r \<and> branch_path r (fdb_index s) b bs \<and>
    fetch_branch s i m = Inr (filter (\<lambda>c. block_num c \<le> m) bs) \<and>
    search_on_branch s i m = Inr (find (\<lambda>c. block_num c = m) bs)"
  using assms(1)
proof (rule fork_invE)
  fix r h
  assume r: "fdb_root s = Some r" "block_tree r (fdb_index s)"
  have b: "b \<in> set (fdb_index s)" using assms(2) by (auto simp: get_block_def dest: index_find_SomeD)
  then obtain bs where bs: "branch_path r (fdb_index s) b bs"
    using branch_path_exists [OF r(2), of b] by blast
  note fuel = block_tree_fuel [OF r(2), of b]
  show ?thesis
    using assms(2) r(1) bs fetch_branch_loop_spec [OF r(2) bs b fuel] search_on_branch_loop_spec [OF r(2) bs b fuel] b
    by (auto simp: fetch_branch_def search_on_branch_def)
qed

theorem branch_queries_witness:
  "\<exists>s n bs. fdb_index s = [n] \<and> fetch_branch s (bhs_id n) (block_num n) = Inr bs"
proof -
  obtain n s where s: "fork_reachable demo_env True s" "fdb_index s = [n]" by (rule demo_fork)
  have inv: "fork_inv demo_env s" by (rule fork_reachable_inv [OF s(1) demo_env_involutive])
  have "get_block s (bhs_id n) = Some n" by (simp add: get_block_def index_find_def s(2))
  then show ?thesis using branch_queries [OF inv, of "bhs_id n" n "block_num n"] s(2) by auto
qed

text \<open>
  C22. Switching forks. For two blocks of the database (the root included) \<^verbatim>\<open>fetch_branch_from\<close> returns,
  newest first, the blocks of either branch above their common ancestor: what is left of the two paths to
  the root is the same, and where neither branch is empty their oldest blocks differ and have the same
  parent.
\<close>

theorem fetch_branch_from_common_ancestor:
  assumes "fork_inv env s" "get_block_header s i = Inr (Some a)" "get_block_header s j = Inr (Some b)"
  shows "\<exists>r as bs us vs zs. fdb_root s = Some r \<and>
    branch_path r (fdb_index s) a as \<and> branch_path r (fdb_index s) b bs \<and>
    fetch_branch_from s i j = Inr (us, vs) \<and> as = us @ zs \<and> bs = vs @ zs \<and>
    (us = [] \<or> vs = [] \<or> last us \<noteq> last vs \<and> prev_id (last us) = prev_id (last vs))"
  using assms(1)
proof (rule fork_invE)
  fix r h
  assume r: "fdb_root s = Some r" "block_tree r (fdb_index s)"
  have a: "a \<in> insert r (set (fdb_index s))" "i = bhs_id a"
    using get_block_header_SomeD [OF r(1) assms(2)] by blast+
  have b: "b \<in> insert r (set (fdb_index s))" "j = bhs_id b"
    using get_block_header_SomeD [OF r(1) assms(3)] by blast+
  obtain as bs where p: "branch_path r (fdb_index s) a as" "branch_path r (fdb_index s) b bs"
    using branch_path_exists [OF r(2)] a(1) b(1) by blast
  show ?thesis
    using fetch_branch_from_spec [OF r(2,1) a(1) p(1) b(1) p(2)] p r(1) a(2) b(2) by blast
qed

theorem fetch_branch_from_common_ancestor_witness:
  "\<exists>s n us vs. fdb_index s = [n] \<and> fetch_branch_from s (bhs_id n) (prev_id n) = Inr (us, vs)"
proof -
  obtain n s where s: "fork_reachable demo_env True s" "fdb_index s = [n]" by (rule demo_fork)
  have inv: "fork_inv demo_env s" by (rule fork_reachable_inv [OF s(1) demo_env_involutive])
  then obtain r where r: "fdb_root s = Some r" "block_tree r (fdb_index s)" by (auto elim: fork_invE)
  then obtain p where p: "p \<in> insert r (set (fdb_index s))" "bhs_id p = prev_id n"
    using block_tree_parent [OF r(2), of n] s(2) by auto
  have "get_block_header s (bhs_id n) = Inr (Some n)" "get_block_header s (prev_id n) = Inr (Some p)"
    using get_block_header_member [OF r(2,1)] p s(2) by (metis insertCI list.set_intros(1))+
  then show ?thesis using fetch_branch_from_common_ancestor [OF inv] s(2) by blast
qed

text \<open>
  C29. Closing and opening again, under conditions on the blocks. The fork database keeps its invariant; the
  stored extensions of every block of the index are the ones extracted from its header, the validator accepts them
  on top of the parent, and no block has a lower irreversible block number than its parent (a change of the
  producer schedule can break the last one: the file then has a child before its parent). Opening the written
  file then succeeds and gives back the same index, the same head and the same root, except that the root's
  extracted extensions, which the file does not hold, are empty.
\<close>

theorem fork_database_roundtrip:
  assumes "fork_inv env s" "reopenable env validator s"
  shows "\<exists>s0 r file. fork_close s = (s0, Some file) \<and> fdb_root s = Some r \<and>
    fork_open env validator fork_database_init (Some file) =
      Inr (s\<lparr>fdb_root := Some (r\<lparr>header_exts := []\<rparr>)\<rparr>, None)"
  using assms by (rule open_close)

theorem fork_database_roundtrip_witness:
  "\<exists>s s0 file s'. length (fdb_index s) = 1 \<and> fork_close s = (s0, Some file) \<and> fdb_index s' = fdb_index s \<and>
     fork_open demo_env (\<lambda>_ _ _. Inr ()) fork_database_init (Some file) = Inr (s', None)"
proof -
  obtain n s where s: "fork_reachable demo_env True s" "fdb_index s = [n]" "header n = demo_header"
      "header_exts n = []" "map_option dpos_irreversible_blocknum (fdb_root s) = Some 0"
    by (rule demo_fork)
  have re: "reopenable demo_env (\<lambda>_ _ _. Inr ()) s"
    using s(2-5) by (auto simp: reopenable_def validate_and_extract_header_extensions_def demo_header_def)
  have inv: "fork_inv demo_env s" by (rule fork_reachable_inv [OF s(1) demo_env_involutive])
  obtain s0 r fl where "fork_close s = (s0, Some fl)"
      "fork_open demo_env (\<lambda>_ _ _. Inr ()) fork_database_init (Some fl) =
        Inr (s\<lparr>fdb_root := Some (r\<lparr>header_exts := []\<rparr>)\<rparr>, None)"
    using fork_database_roundtrip [OF inv re] by blast
  moreover have "length (fdb_index s) = 1" using s(2) by simp
  moreover have "fdb_index (s\<lparr>fdb_root := Some (r\<lparr>header_exts := []\<rparr>)\<rparr>) = fdb_index s" by simp
  ultimately show ?thesis by blast
qed

end
