(* ===== verification/Authority.thy ===== *)
theory Authority
  imports Names Flat_Map "HOL-Library.Product_Lexorder"
begin

text \<open>
  Authorities (\<^verbatim>\<open>authority.hpp\<close>): weighted keys, permissions and waits with a threshold, and the check that
  an authority is well formed. The order of public keys is the one of fc and is the argument \<open>key_less\<close>.
\<close>

section \<open>Model\<close>

text \<open>\<^verbatim>\<open>permission_level\<close>, ordered by actor and then permission.\<close>

type_synonym permission_level = "account_name \<times> permission_name"

abbreviation (input) actor :: "permission_level \<Rightarrow> account_name" where
  "actor p \<equiv> fst p"

abbreviation (input) permission :: "permission_level \<Rightarrow> permission_name" where
  "permission p \<equiv> snd p"

record permission_level_weight =
  plw_permission :: permission_level
  plw_weight :: u16

record key_weight =
  kw_key :: public_key_type
  kw_weight :: u16

record wait_weight =
  wait_sec :: u32
  ww_weight :: u16

record authority =
  threshold :: u32
  auth_keys :: "key_weight list"
  auth_accounts :: "permission_level_weight list"
  auth_waits :: "wait_weight list"

definition authority_of_key :: "public_key_type \<Rightarrow> u32 \<Rightarrow> authority" where
  "authority_of_key k delay_sec =
     (let a = \<lparr>threshold = 1, auth_keys = [\<lparr>kw_key = k, kw_weight = 1\<rparr>], auth_accounts = [], auth_waits = []\<rparr>
      in if 0 < delay_sec
         then a\<lparr>threshold := 2, auth_waits := auth_waits a @ [\<lparr>wait_sec = delay_sec, ww_weight = 1\<rparr>]\<rparr>
         else a)"

definition authority_of_permission :: "permission_level \<Rightarrow> u32 \<Rightarrow> authority" where
  "authority_of_permission p delay_sec =
     (let a = \<lparr>threshold = 1, auth_keys = [],
               auth_accounts = [\<lparr>plw_permission = p, plw_weight = 1\<rparr>], auth_waits = []\<rparr>
      in if 0 < delay_sec
         then a\<lparr>threshold := 2, auth_waits := auth_waits a @ [\<lparr>wait_sec = delay_sec, ww_weight = 1\<rparr>]\<rparr>
         else a)"

definition authority_empty :: authority where
  "authority_empty = \<lparr>threshold = 0, auth_keys = [], auth_accounts = [], auth_waits = []\<rparr>"

text \<open>\<^verbatim>\<open>get_billable_size\<close>; the serialized size of a key is fc's.\<close>

definition get_billable_size :: "(public_key_type \<Rightarrow> u64) \<Rightarrow> authority \<Rightarrow> u64" where
  "get_billable_size pack_size a =
     (let accounts_size = of_nat (length (auth_accounts a)) * 24;
          waits_size = of_nat (length (auth_waits a)) * 16;
          keys_size = fold (\<lambda>k n. n + 8 + pack_size (kw_key k)) (auth_keys a) 0
      in accounts_size + waits_size + keys_size)"

text \<open>The three loops of \<^verbatim>\<open>validate\<close>; \<open>None\<close> is \<^verbatim>\<open>return false\<close>.\<close>

fun key_loop ::
  "(public_key_type \<Rightarrow> public_key_type \<Rightarrow> bool) \<Rightarrow> key_weight option \<Rightarrow> u32 \<Rightarrow> key_weight list \<Rightarrow> u32 option" where
  "key_loop key_less prev total_weight [] = Some total_weight"
| "key_loop key_less prev total_weight (k # ks) =
     (if (case prev of None \<Rightarrow> False | Some p \<Rightarrow> \<not> key_less (kw_key p) (kw_key k)) then None
      else key_loop key_less (Some k) (total_weight + ucast (kw_weight k)) ks)"

fun account_loop ::
  "permission_level_weight option \<Rightarrow> u32 \<Rightarrow> permission_level_weight list \<Rightarrow> u32 option" where
  "account_loop prev total_weight [] = Some total_weight"
| "account_loop prev total_weight (a # as) =
     (if (case prev of None \<Rightarrow> False | Some p \<Rightarrow> plw_permission a \<le> plw_permission p) then None
      else account_loop (Some a) (total_weight + ucast (plw_weight a)) as)"

fun wait_loop :: "wait_weight option \<Rightarrow> u32 \<Rightarrow> wait_weight list \<Rightarrow> u32 option" where
  "wait_loop prev total_weight [] = Some total_weight"
| "wait_loop prev total_weight (w # ws) =
     (if (case prev of None \<Rightarrow> False | Some p \<Rightarrow> wait_sec w \<le> wait_sec p) then None
      else wait_loop (Some w) (total_weight + ucast (ww_weight w)) ws)"

definition validate_authority ::
  "(public_key_type \<Rightarrow> public_key_type \<Rightarrow> bool) \<Rightarrow> authority \<Rightarrow> bool" where
  "validate_authority key_less auth =
     (if 2 ^ 16 < length (auth_keys auth) + length (auth_accounts auth) + length (auth_waits auth) then False
      else if threshold auth = 0 then False
      else
        (case key_loop key_less None 0 (auth_keys auth) of
           None \<Rightarrow> False
         | Some t1 \<Rightarrow>
             (case account_loop None t1 (auth_accounts auth) of
                None \<Rightarrow> False
              | Some t2 \<Rightarrow>
                  if 0 < length (auth_waits auth) \<and> wait_sec (hd (auth_waits auth)) = 0 then False
                  else
                    (case wait_loop None t2 (auth_waits auth) of
                       None \<Rightarrow> False
                     | Some t3 \<Rightarrow> threshold auth \<le> t3))))"

section \<open>The loops\<close>

definition weights_sum :: "('a \<Rightarrow> u16) \<Rightarrow> 'a list \<Rightarrow> nat" where
  "weights_sum w xs = sum_list (map (\<lambda>x. unat (w x)) xs)"

lemma weights_sum_simps [simp]:
  "weights_sum w [] = 0" "weights_sum w (x # xs) = unat (w x) + weights_sum w xs"
  by (simp_all add: weights_sum_def)

lemma weights_sum_bound: "weights_sum w xs \<le> length xs * (2 ^ 16 - 1)"
proof (induction xs)
  case (Cons x xs)
  have "unat (w x) < 2 ^ 16" using unat_bound [of "w x"] by simp
  then show ?case using Cons by simp
qed simp

text \<open>The sum of the weights as the code accumulates it, in 32 bits.\<close>

definition weights_u32 :: "('a \<Rightarrow> u16) \<Rightarrow> 'a list \<Rightarrow> u32 \<Rightarrow> u32" where
  "weights_u32 w xs t = fold (\<lambda>x t. t + ucast (w x)) xs t"

lemma weights_u32_exact:
  "unat t + weights_sum w xs < 2 ^ 32 \<Longrightarrow> unat (weights_u32 w xs t) = unat t + weights_sum w xs"
proof (induction xs arbitrary: t)
  case (Cons x xs)
  have u: "unat (ucast (w x) :: u32) = unat (w x)"
    using unat_bound [of "w x"] by (simp add: unsigned_ucast_eq take_bit_nat_eq_self)
  have "unat (t + ucast (w x)) = unat t + unat (w x)"
    using Cons.prems u by (subst unat_plus_small) simp_all
  then show ?case using Cons by (simp add: weights_u32_def)
qed (simp add: weights_u32_def)

lemma key_loop_eq:
  "key_loop key_less prev t ks =
     (if successively (\<lambda>a b. key_less (kw_key a) (kw_key b)) ((case prev of None \<Rightarrow> [] | Some p \<Rightarrow> [p]) @ ks)
      then Some (weights_u32 kw_weight ks t) else None)"
  by (induction key_less prev t ks rule: key_loop.induct)
    (auto simp: weights_u32_def split: option.splits)

lemma account_loop_eq:
  "account_loop prev t as =
     (if successively (\<lambda>a b. plw_permission a < plw_permission b) ((case prev of None \<Rightarrow> [] | Some p \<Rightarrow> [p]) @ as)
      then Some (weights_u32 plw_weight as t) else None)"
  by (induction prev t as rule: account_loop.induct)
    (auto simp: weights_u32_def not_le split: option.splits)

lemma wait_loop_eq:
  "wait_loop prev t ws =
     (if successively (\<lambda>a b. wait_sec a < wait_sec b) ((case prev of None \<Rightarrow> [] | Some p \<Rightarrow> [p]) @ ws)
      then Some (weights_u32 ww_weight ws t) else None)"
  by (induction prev t ws rule: wait_loop.induct)
    (auto simp: weights_u32_def not_le split: option.splits)

definition authority_weight :: "authority \<Rightarrow> nat" where
  "authority_weight a =
     weights_sum kw_weight (auth_keys a) + weights_sum plw_weight (auth_accounts a) +
     weights_sum ww_weight (auth_waits a)"

lemma authority_weight_bound:
  assumes "length (auth_keys a) + length (auth_accounts a) + length (auth_waits a) \<le> 2 ^ 16"
  shows "authority_weight a < 2 ^ 32"
proof -
  have "authority_weight a \<le>
      (length (auth_keys a) + length (auth_accounts a) + length (auth_waits a)) * (2 ^ 16 - 1)"
    using weights_sum_bound [of kw_weight "auth_keys a"] weights_sum_bound [of plw_weight "auth_accounts a"]
      weights_sum_bound [of ww_weight "auth_waits a"]
    unfolding authority_weight_def by (simp add: distrib_right)
  also have "\<dots> \<le> 2 ^ 16 * (2 ^ 16 - 1)" using assms by (rule mult_le_mono1)
  finally show ?thesis by simp
qed

lemma validate_authority_iff:
  assumes "transp key_less"
  shows "validate_authority key_less auth \<longleftrightarrow>
    length (auth_keys auth) + length (auth_accounts auth) + length (auth_waits auth) \<le> 2 ^ 16 \<and>
    threshold auth \<noteq> 0 \<and> sorted_wrt key_less (map kw_key (auth_keys auth)) \<and>
    sorted_wrt (<) (map plw_permission (auth_accounts auth)) \<and>
    sorted_wrt (<) (map wait_sec (auth_waits auth)) \<and> 0 \<notin> wait_sec ` set (auth_waits auth) \<and>
    unat (threshold auth) \<le> authority_weight auth"
proof (cases "length (auth_keys auth) + length (auth_accounts auth) + length (auth_waits auth) \<le> 2 ^ 16")
  case True
  let ?t1 = "weights_u32 kw_weight (auth_keys auth) 0"
  let ?t2 = "weights_u32 plw_weight (auth_accounts auth) ?t1"
  let ?t3 = "weights_u32 ww_weight (auth_waits auth) ?t2"
  have b: "authority_weight auth < 2 ^ 32" using True by (rule authority_weight_bound)
  have t1: "unat ?t1 = weights_sum kw_weight (auth_keys auth)"
    using b by (subst weights_u32_exact) (simp_all add: authority_weight_def)
  have t2: "unat ?t2 = unat ?t1 + weights_sum plw_weight (auth_accounts auth)"
    using b t1 by (subst weights_u32_exact) (simp_all add: authority_weight_def)
  have t3: "unat ?t3 = authority_weight auth"
    using b t1 t2 by (subst weights_u32_exact) (simp_all add: authority_weight_def)
  have S: "successively (\<lambda>a b. key_less (kw_key a) (kw_key b)) (auth_keys auth) \<longleftrightarrow>
      sorted_wrt key_less (map kw_key (auth_keys auth))"
    using assms by (simp add: successively_conv_sorted_wrt successively_map flip: successively_map)
  have A: "successively (\<lambda>a b. plw_permission a < plw_permission b) (auth_accounts auth) \<longleftrightarrow>
      sorted_wrt (<) (map plw_permission (auth_accounts auth))"
    by (simp add: successively_conv_sorted_wrt flip: successively_map)
  have W: "successively (\<lambda>a b. wait_sec a < wait_sec b) (auth_waits auth) \<longleftrightarrow>
      sorted_wrt (<) (map wait_sec (auth_waits auth))"
    by (simp add: successively_conv_sorted_wrt flip: successively_map)
  have Z: "0 \<notin> wait_sec ` set (auth_waits auth) \<longleftrightarrow> auth_waits auth = [] \<or> wait_sec (hd (auth_waits auth)) \<noteq> 0"
    if "sorted_wrt (<) (map wait_sec (auth_waits auth))"
    using that by (cases "auth_waits auth") auto
  show ?thesis
    using True Z t3
    by (auto simp: validate_authority_def key_loop_eq account_loop_eq wait_loop_eq S A W word_le_nat_alt)
qed (simp add: validate_authority_def)

section \<open>Properties\<close>

text \<open>
  C39. \<^verbatim>\<open>validate\<close> accepts an authority exactly when it has at most \<open>2\<^sup>1\<^sup>6\<close> factors and a threshold that is not
  zero, keys, permissions and waits are strictly ascending, no wait is zero, and the exact sum of all weights
  reaches the threshold; the 32-bit sum never wraps around.
\<close>

theorem validate_authority_correct:
  assumes "transp key_less"
  shows "validate_authority key_less auth \<longleftrightarrow>
    length (auth_keys auth) + length (auth_accounts auth) + length (auth_waits auth) \<le> 2 ^ 16 \<and>
    threshold auth \<noteq> 0 \<and> sorted_wrt key_less (map kw_key (auth_keys auth)) \<and>
    sorted_wrt (<) (map plw_permission (auth_accounts auth)) \<and>
    sorted_wrt (<) (map wait_sec (auth_waits auth)) \<and> 0 \<notin> wait_sec ` set (auth_waits auth) \<and>
    unat (threshold auth) \<le> authority_weight auth"
  using assms by (rule validate_authority_iff)

theorem validate_authority_correct_witness:
  "validate_authority (\<lambda>a b. length a < length b) (authority_of_key [1] 5)"
proof -
  have "transp (\<lambda>a b :: public_key_type. length a < length b)" by (auto intro: transpI)
  from validate_authority_correct [OF this, of "authority_of_key [1] 5"] show ?thesis
    by (simp add: authority_of_key_def Let_def authority_weight_def)
qed

end
