(* ===== verification/Authority_Checker.thy ===== *)
theory Authority_Checker
  imports Authority "HOL-Library.Sublist" "HOL-Library.Multiset"
begin

text \<open>
  The authority checker (\<^verbatim>\<open>authority_checker.hpp\<close>): whether the provided keys, permissions and delay satisfy an
  authority or a permission. The keys used so far and the cache of evaluated permissions are the state. The
  remaining depth \<open>n\<close> is \<^verbatim>\<open>recursion_depth_limit - recursion_depth\<close>.
\<close>

section \<open>Model\<close>

datatype meta_permission =
    MP_account permission_level_weight
  | MP_key key_weight
  | MP_wait wait_weight

fun mp_weight :: "meta_permission \<Rightarrow> u16" where
  "mp_weight (MP_account a) = plw_weight a"
| "mp_weight (MP_key k) = kw_weight k"
| "mp_weight (MP_wait w) = ww_weight w"

fun mp_which :: "meta_permission \<Rightarrow> nat" where
  "mp_which (MP_account a) = 0"
| "mp_which (MP_key k) = 1"
| "mp_which (MP_wait w) = 2"

text \<open>\<^verbatim>\<open>meta_permission_comparator\<close>: descending by weight and then by the kind; equal elements stay in the order
  of their insertion.\<close>

definition mp_order :: "meta_permission \<Rightarrow> nat \<times> nat" where
  "mp_order p = (2 ^ 16 - unat (mp_weight p), 2 - mp_which p)"

definition meta_permissions :: "authority \<Rightarrow> meta_permission list" where
  "meta_permissions a =
     sort_key mp_order
       (map MP_wait (auth_waits a) @ map MP_key (auth_keys a) @ map MP_account (auth_accounts a))"

datatype permission_cache_status = Being_evaluated | Permission_unsatisfied | Permission_satisfied

type_synonym permission_cache = "(permission_level, permission_cache_status) flat_map"

record authority_checker =
  permission_to_authority :: "permission_level \<Rightarrow> authority result"
  provided_keys :: "public_key_type list"
  provided_permissions :: "permission_level list"
  provided_delay :: int
  recursion_depth_limit :: u16

record checker_state =
  used_keys :: "bool list"
  cached_permissions :: permission_cache

definition cache_emplace ::
  "permission_cache \<Rightarrow> permission_level \<Rightarrow> permission_cache_status \<Rightarrow> permission_cache" where
  "cache_emplace m p v = (if fm_find m p = None then fm_set m p v else m)"

definition initialize_permission_cache :: "authority_checker \<Rightarrow> permission_cache" where
  "initialize_permission_cache c =
     fold (\<lambda>p m. cache_emplace m p Permission_satisfied) (provided_permissions c) []"

definition permission_status_in_cache ::
  "permission_cache \<Rightarrow> permission_level \<Rightarrow> permission_cache_status option" where
  "permission_status_in_cache m level =
     (case fm_find m level of
        Some v \<Rightarrow> Some v
      | None \<Rightarrow> fm_find m (actor level, 0))"

fun find_position :: "'a \<Rightarrow> 'a list \<Rightarrow> nat option" where
  "find_position x [] = None"
| "find_position x (y # ys) = (if x = y then Some 0 else map_option Suc (find_position x ys))"

text \<open>The visitor for waits and for keys.\<close>

definition visit_wait :: "authority_checker \<Rightarrow> u32 \<Rightarrow> wait_weight \<Rightarrow> u32" where
  "visit_wait c total_weight w =
     (if int (unat (wait_sec w)) * 1000000 \<le> provided_delay c
      then total_weight + ucast (ww_weight w) else total_weight)"

definition visit_key ::
  "authority_checker \<Rightarrow> u32 \<Rightarrow> key_weight \<Rightarrow> checker_state \<Rightarrow> u32 \<times> checker_state" where
  "visit_key c total_weight k st =
     (case find_position (kw_key k) (provided_keys c) of
        None \<Rightarrow> (total_weight, st)
      | Some i \<Rightarrow> (total_weight + ucast (kw_weight k), st\<lparr>used_keys := (used_keys st)[i := True]\<rparr>))"

text \<open>The loop of \<^verbatim>\<open>satisfied(authority, cached_permissions, depth)\<close> over the sorted permissions, and the visitor
  for permissions, which calls it for the authority of the permission.\<close>

fun tally ::
    "authority_checker \<Rightarrow> nat \<Rightarrow> u32 \<Rightarrow> u32 \<Rightarrow> meta_permission list \<Rightarrow> checker_state \<Rightarrow>
       (bool \<times> checker_state) result"
  and visit_account ::
    "authority_checker \<Rightarrow> nat \<Rightarrow> u32 \<Rightarrow> permission_level_weight \<Rightarrow> checker_state \<Rightarrow>
       (u32 \<times> checker_state) result" where
  "tally c n thr total_weight [] st = Inr (False, st)"
| "tally c n thr total_weight (MP_wait w # ps) st =
     (if thr \<le> visit_wait c total_weight w then Inr (True, st)
      else tally c n thr (visit_wait c total_weight w) ps st)"
| "tally c n thr total_weight (MP_key k # ps) st =
     (case visit_key c total_weight k st of
        (t, st') \<Rightarrow> if thr \<le> t then Inr (True, st') else tally c n thr t ps st')"
| "tally c n thr total_weight (MP_account a # ps) st =
     (case visit_account c n total_weight a st of
        Inl e \<Rightarrow> Inl e
      | Inr (t, st') \<Rightarrow> if thr \<le> t then Inr (True, st') else tally c n thr t ps st')"
| "visit_account c n total_weight a st =
     (case permission_status_in_cache (cached_permissions st) (plw_permission a) of
        Some status \<Rightarrow>
          Inr (if status = Permission_satisfied then total_weight + ucast (plw_weight a) else total_weight, st)
      | None \<Rightarrow>
          (case n of
             0 \<Rightarrow> Inr (total_weight, st)
           | Suc m \<Rightarrow>
               (case permission_to_authority c (plw_permission a) of
                  Inl e \<Rightarrow> if e = Permission_query_exception then Inr (total_weight, st) else Inl e
                | Inr auth \<Rightarrow>
                    (case tally c m (threshold auth) 0 (meta_permissions auth)
                            (st\<lparr>cached_permissions :=
                                  cache_emplace (cached_permissions st) (plw_permission a) Being_evaluated\<rparr>) of
                       Inl e \<Rightarrow> Inl e
                     | Inr (r, st') \<Rightarrow>
                         if r
                         then Inr (total_weight + ucast (plw_weight a),
                                st'\<lparr>cached_permissions :=
                                      fm_set (cached_permissions st') (plw_permission a) Permission_satisfied\<rparr>)
                         else Inr (total_weight,
                                st'\<lparr>used_keys := used_keys st,
                                    cached_permissions :=
                                      fm_set (cached_permissions st') (plw_permission a) Permission_unsatisfied\<rparr>)))))"

declare visit_account.simps [simp del]

text \<open>The public members. Each call starts with a fresh cache; only the used keys stay in the checker.\<close>

definition checker_init :: "authority_checker \<Rightarrow> bool list" where
  "checker_init c = replicate (length (provided_keys c)) False"

definition satisfied_permission ::
  "authority_checker \<Rightarrow> permission_level \<Rightarrow> bool list \<Rightarrow> (bool \<times> bool list) result" where
  "satisfied_permission c p used =
     rbind (visit_account c (unat (recursion_depth_limit c)) 0 \<lparr>plw_permission = p, plw_weight = 1\<rparr>
              \<lparr>used_keys = used, cached_permissions = initialize_permission_cache c\<rparr>) (\<lambda>(t, st).
     Inr (0 < t, used_keys st))"

definition satisfied_permission_delay ::
  "authority_checker \<Rightarrow> permission_level \<Rightarrow> int \<Rightarrow> bool list \<Rightarrow> (bool \<times> bool list) result" where
  "satisfied_permission_delay c p override_provided_delay used =
     satisfied_permission (c\<lparr>provided_delay := override_provided_delay\<rparr>) p used"

definition satisfied_authority ::
  "authority_checker \<Rightarrow> authority \<Rightarrow> bool list \<Rightarrow> (bool \<times> bool list) result" where
  "satisfied_authority c auth used =
     rbind (tally c (unat (recursion_depth_limit c)) (threshold auth) 0 (meta_permissions auth)
              \<lparr>used_keys = used, cached_permissions = initialize_permission_cache c\<rparr>) (\<lambda>(r, st).
     Inr (r, if r then used_keys st else used))"

definition satisfied_authority_delay ::
  "authority_checker \<Rightarrow> authority \<Rightarrow> int \<Rightarrow> bool list \<Rightarrow> (bool \<times> bool list) result" where
  "satisfied_authority_delay c auth override_provided_delay used =
     satisfied_authority (c\<lparr>provided_delay := override_provided_delay\<rparr>) auth used"

definition all_keys_used :: "bool list \<Rightarrow> bool" where
  "all_keys_used used = (\<forall>b \<in> set used. b)"

definition used_keys_of :: "authority_checker \<Rightarrow> bool list \<Rightarrow> public_key_type list" where
  "used_keys_of c used = map fst (filter snd (zip (provided_keys c) used))"

definition unused_keys_of :: "authority_checker \<Rightarrow> bool list \<Rightarrow> public_key_type list" where
  "unused_keys_of c used = map fst (filter (\<lambda>e. \<not> snd e) (zip (provided_keys c) used))"

section \<open>When a permission is satisfied\<close>

abbreviation key_ok :: "authority_checker \<Rightarrow> key_weight \<Rightarrow> bool" where
  "key_ok c k \<equiv> kw_key k \<in> set (provided_keys c)"

abbreviation wait_ok :: "authority_checker \<Rightarrow> wait_weight \<Rightarrow> bool" where
  "wait_ok c w \<equiv> int (unat (wait_sec w)) * 1000000 \<le> provided_delay c"

definition direct_weight :: "authority_checker \<Rightarrow> authority \<Rightarrow> nat" where
  "direct_weight c a =
     weights_sum kw_weight (filter (key_ok c) (auth_keys a)) +
     weights_sum ww_weight (filter (wait_ok c) (auth_waits a))"

text \<open>The specification: a permission is satisfied when it was provided, itself or for the whole account, or
  when the keys, the delay and other satisfied permissions together reach the threshold of its authority.\<close>

inductive perm_sat :: "authority_checker \<Rightarrow> permission_level \<Rightarrow> bool" for c where
  perm_provided: "p \<in> set (provided_permissions c) \<Longrightarrow> perm_sat c p"
| perm_wildcard: "perm_sat c (actor p, 0) \<Longrightarrow> perm_sat c p"
| perm_derived: "permission_to_authority c p = Inr a \<Longrightarrow> subseq xs (auth_accounts a) \<Longrightarrow>
    \<forall>x \<in> set xs. perm_sat c (plw_permission x) \<Longrightarrow>
    unat (threshold a) \<le> direct_weight c a + weights_sum plw_weight xs \<Longrightarrow> perm_sat c p"

definition auth_sat :: "authority_checker \<Rightarrow> authority \<Rightarrow> bool" where
  "auth_sat c a \<longleftrightarrow>
     unat (threshold a) \<le>
       direct_weight c a + weights_sum plw_weight (filter (\<lambda>x. perm_sat c (plw_permission x)) (auth_accounts a))"

lemma perm_sat_authority:
  assumes "permission_to_authority c p = Inr a" "auth_sat c a"
  shows "perm_sat c p"
  using assms by (intro perm_derived [OF assms(1), of "filter (\<lambda>x. perm_sat c (plw_permission x)) (auth_accounts a)"])
    (auto simp: auth_sat_def)

fun factor_ok :: "authority_checker \<Rightarrow> meta_permission \<Rightarrow> bool" where
  "factor_ok c (MP_account a) = perm_sat c (plw_permission a)"
| "factor_ok c (MP_key k) = key_ok c k"
| "factor_ok c (MP_wait w) = wait_ok c w"

definition sat_weight :: "authority_checker \<Rightarrow> meta_permission list \<Rightarrow> nat" where
  "sat_weight c ps = sum_list (map (\<lambda>p. if factor_ok c p then unat (mp_weight p) else 0) ps)"

lemma sat_weight_simps [simp]:
  "sat_weight c [] = 0"
  "sat_weight c (p # ps) = (if factor_ok c p then unat (mp_weight p) else 0) + sat_weight c ps"
  by (simp_all add: sat_weight_def)

lemma sum_list_filter_weight:
  "sum_list (map (\<lambda>x. if P x then unat (w x) else 0) xs) = weights_sum w (filter P xs)"
  by (induction xs) simp_all

lemma sat_weight_meta:
  "sat_weight c (meta_permissions a) =
     direct_weight c a + weights_sum plw_weight (filter (\<lambda>x. perm_sat c (plw_permission x)) (auth_accounts a))"
proof -
  let ?f = "\<lambda>p. if factor_ok c p then unat (mp_weight p) else 0"
  have "sum_mset (mset (map ?f (sort_key k xs))) = sum_mset (mset (map ?f xs))"
    for k :: "meta_permission \<Rightarrow> nat \<times> nat" and xs
    by (simp only: mset_map mset_sort)
  then have "sum_list (map ?f (sort_key k xs)) = sum_list (map ?f xs)"
    for k :: "meta_permission \<Rightarrow> nat \<times> nat" and xs
    unfolding sum_mset_sum_list .
  then show ?thesis
    unfolding sat_weight_def meta_permissions_def direct_weight_def
    by (simp add: comp_def sum_list_filter_weight filter_map weights_sum_def)
qed

lemma find_position_None: "find_position x xs = None \<longleftrightarrow> x \<notin> set xs"
  by (induction xs) auto

lemma find_position_Some: "find_position x xs = Some i \<Longrightarrow> i < length xs \<and> xs ! i = x"
  by (induction xs arbitrary: i) (auto split: if_splits)

lemma unat_add_le: "unat (t + u) \<le> unat t + unat u" for t u :: u32
  by (simp add: unat_word_ariths)

lemma unat_add_weight_le: "unat (t + ucast (w :: u16) :: u32) \<le> unat t + unat w"
  using unat_add_le [of t "ucast w"] unat_bound [of w]
  by (simp add: unsigned_ucast_eq take_bit_nat_eq_self)

section \<open>Soundness\<close>

definition cache_sound :: "authority_checker \<Rightarrow> permission_cache \<Rightarrow> bool" where
  "cache_sound c m \<longleftrightarrow> (\<forall>p. fm_find m p = Some Permission_satisfied \<longrightarrow> perm_sat c p)"

lemma cache_soundD: "cache_sound c m \<Longrightarrow> fm_find m p = Some Permission_satisfied \<Longrightarrow> perm_sat c p"
  unfolding cache_sound_def by blast

lemma cache_soundI: "(\<And>p. fm_find m p = Some Permission_satisfied \<Longrightarrow> perm_sat c p) \<Longrightarrow> cache_sound c m"
  unfolding cache_sound_def by blast

lemma cache_sound_set:
  assumes "cache_sound c m" "v = Permission_satisfied \<Longrightarrow> perm_sat c p"
  shows "cache_sound c (fm_set m p v)"
  by (rule cache_soundI) (use assms cache_soundD [OF assms(1)] in \<open>simp split: if_splits\<close>)

lemma cache_sound_emplace:
  assumes "cache_sound c m" "v = Permission_satisfied \<Longrightarrow> perm_sat c p"
  shows "cache_sound c (cache_emplace m p v)"
  using assms cache_sound_set by (simp add: cache_emplace_def)

lemma cache_sound_status:
  assumes "cache_sound c m" "permission_status_in_cache m p = Some Permission_satisfied"
  shows "perm_sat c p"
  using assms(2) cache_soundD [OF assms(1)] perm_wildcard [of c p] unfolding permission_status_in_cache_def
  by (cases "fm_find m p") simp_all

lemma cache_sound_init: "cache_sound c (initialize_permission_cache c)"
proof -
  have "cache_sound c (fold (\<lambda>p m. cache_emplace m p Permission_satisfied) ps m)"
    if "cache_sound c m" "set ps \<subseteq> set (provided_permissions c)" for ps m
    using that
  proof (induction ps arbitrary: m)
    case (Cons p ps)
    have "perm_sat c p" using Cons.prems(2) by (intro perm_provided) simp
    then have "cache_sound c (cache_emplace m p Permission_satisfied)"
      using Cons.prems(1) by (intro cache_sound_emplace)
    then show ?case using Cons by simp
  qed simp
  moreover have "cache_sound c []" by (simp add: cache_sound_def)
  ultimately show ?thesis unfolding initialize_permission_cache_def by blast
qed

lemma checker_sound:
  "tally c n thr t ps st = Inr (b, st') \<Longrightarrow> cache_sound c (cached_permissions st) \<Longrightarrow>
     cache_sound c (cached_permissions st') \<and> (b \<longrightarrow> unat thr \<le> unat t + sat_weight c ps)"
  "visit_account c n t a st = Inr (t', st'') \<Longrightarrow> cache_sound c (cached_permissions st) \<Longrightarrow>
     cache_sound c (cached_permissions st'') \<and>
     unat t' \<le> unat t + (if perm_sat c (plw_permission a) then unat (plw_weight a) else 0)"
proof (induction c n thr t ps st and c n t a st arbitrary: b st' and t' st'' rule: tally_visit_account.induct)
  case (2 c n thr t w ps st)
  have "unat (visit_wait c t w) \<le> unat t + (if wait_ok c w then unat (ww_weight w) else 0)"
    using unat_add_weight_le [of t "ww_weight w"] by (simp add: visit_wait_def)
  note v = this
  show ?case
  proof (cases "thr \<le> visit_wait c t w")
    case True
    then show ?thesis using "2.prems" v by (auto simp: word_le_nat_alt)
  next
    case False
    then have "tally c n thr (visit_wait c t w) ps st = Inr (b, st')" using "2.prems"(1) by simp
    then show ?thesis using "2.IH" [OF False] "2.prems"(2) v by fastforce
  qed
next
  case (3 c n thr t k ps st)
  obtain t1 st1 where v: "visit_key c t k st = (t1, st1)" by fastforce
  then have t1: "unat t1 \<le> unat t + (if key_ok c k then unat (kw_weight k) else 0)"
      "cached_permissions st1 = cached_permissions st"
    using unat_add_weight_le [of t "kw_weight k"] find_position_None [of "kw_key k" "provided_keys c"]
    by (auto simp: visit_key_def split: option.splits)
  show ?case
  proof (cases "thr \<le> t1")
    case True
    then show ?thesis using 3 v t1 by (auto simp: word_le_nat_alt)
  next
    case False
    then have "tally c n thr t1 ps st1 = Inr (b, st')" using "3.prems"(1) v by simp
    moreover have "cache_sound c (cached_permissions st1)" using "3.prems"(2) t1(2) by simp
    ultimately show ?thesis using "3.IH" [OF v [symmetric] False] t1(1) by fastforce
  qed
next
  case (4 c n thr t a ps st)
  obtain t1 st1 where v: "visit_account c n t a st = Inr (t1, st1)"
    using "4.prems"(1) by (auto split: sum.splits)
  note t1 = "4.IH"(1) [OF v "4.prems"(2)]
  show ?case
  proof (cases "thr \<le> t1")
    case True
    then show ?thesis using "4.prems"(1) v t1 by (auto simp: word_le_nat_alt)
  next
    case False
    then have "tally c n thr t1 ps st1 = Inr (b, st')" using "4.prems"(1) v by simp
    then show ?thesis using "4.IH"(2) [OF v refl False] t1 by fastforce
  qed
next
  case (5 c n t a st)
  let ?p = "plw_permission a"
  show ?case
  proof (cases "permission_status_in_cache (cached_permissions st) ?p")
    case (Some status)
    then show ?thesis
      using "5.prems" cache_sound_status [OF "5.prems"(2), of ?p] unat_add_weight_le [of t "plw_weight a"]
      by (auto simp: visit_account.simps)
  next
    case None
    show ?thesis
    proof (cases "\<exists>m auth. n = Suc m \<and> permission_to_authority c ?p = Inr auth")
      case False
      then have "t' = t" "st'' = st"
        using "5.prems"(1) None by (auto simp: visit_account.simps split: nat.splits sum.splits if_splits)
      then show ?thesis using "5.prems"(2) by simp
    next
      case True
      then obtain m auth where n: "n = Suc m" and auth: "permission_to_authority c ?p = Inr auth" by blast
      let ?st = "st\<lparr>cached_permissions := cache_emplace (cached_permissions st) ?p Being_evaluated\<rparr>"
      obtain r st1 where r: "tally c m (threshold auth) 0 (meta_permissions auth) ?st = Inr (r, st1)"
        using "5.prems"(1) None n auth by (auto simp: visit_account.simps split: sum.splits)
      have "cache_sound c (cached_permissions ?st)"
        using cache_sound_emplace [OF "5.prems"(2), of Being_evaluated] by simp
      from "5.IH" [OF None n auth r this]
      have st1: "cache_sound c (cached_permissions st1)" and sat: "r \<Longrightarrow> auth_sat c auth"
        by (auto simp: auth_sat_def sat_weight_meta)
      have "r \<Longrightarrow> perm_sat c ?p" using perm_sat_authority [OF auth] sat by blast
      then show ?thesis
        using "5.prems"(1) None n auth r st1 unat_add_weight_le [of t "plw_weight a"]
        by (cases r) (auto simp: visit_account.simps intro: cache_sound_set)
    qed
  qed
qed simp

section \<open>Used keys and errors\<close>

definition keys_grow :: "bool list \<Rightarrow> bool list \<Rightarrow> bool" where
  "keys_grow us vs \<longleftrightarrow> length us = length vs \<and> (\<forall>i < length us. us ! i \<longrightarrow> vs ! i)"

lemma keys_grow_refl [simp]: "keys_grow us us"
  by (simp add: keys_grow_def)

lemma keys_grow_trans: "keys_grow us vs \<Longrightarrow> keys_grow vs ws \<Longrightarrow> keys_grow us ws"
  by (simp add: keys_grow_def)

lemma keys_grow_update: "keys_grow us (us[i := True])"
  unfolding keys_grow_def by (metis length_list_update nth_list_update_eq nth_list_update_neq)

lemma visit_key_grows: "visit_key c t k st = (t', st') \<Longrightarrow> keys_grow (used_keys st) (used_keys st')"
  by (auto simp: visit_key_def keys_grow_update split: option.splits)

lemma checker_used_keys:
  "tally c n thr t ps st = Inr (b, st') \<Longrightarrow> keys_grow (used_keys st) (used_keys st')"
  "visit_account c n t a st = Inr (t', st'') \<Longrightarrow>
     t' = t \<and> used_keys st'' = used_keys st \<or>
     t' = t + ucast (plw_weight a) \<and> keys_grow (used_keys st) (used_keys st'')"
proof (induction c n thr t ps st and c n t a st arbitrary: b st' and t' st'' rule: tally_visit_account.induct)
  case (3 c n thr t k ps st)
  obtain t1 st1 where v: "visit_key c t k st = (t1, st1)" by fastforce
  show ?case
    using "3.prems" v "3.IH" [OF v [symmetric]] visit_key_grows [OF v] keys_grow_trans
    by (cases "thr \<le> t1") auto
next
  case (4 c n thr t a ps st)
  obtain t1 st1 where v: "visit_account c n t a st = Inr (t1, st1)"
    using "4.prems"(1) by (auto split: sum.splits)
  have "keys_grow (used_keys st) (used_keys st1)" using "4.IH"(1) [OF v] by auto
  then show ?case
    using "4.prems" v "4.IH"(2) [OF v refl] keys_grow_trans by (cases "thr \<le> t1") auto
next
  case (5 c n t a st)
  show ?case
  proof (cases "permission_status_in_cache (cached_permissions st) (plw_permission a)")
    case None
    show ?thesis
    proof (cases "\<exists>m auth. n = Suc m \<and> permission_to_authority c (plw_permission a) = Inr auth")
      case False
      then show ?thesis
        using "5.prems" None by (auto simp: visit_account.simps split: nat.splits sum.splits if_splits)
    next
      case True
      then obtain m auth where n: "n = Suc m"
          and auth: "permission_to_authority c (plw_permission a) = Inr auth" by blast
      let ?st = "st\<lparr>cached_permissions := cache_emplace (cached_permissions st) (plw_permission a) Being_evaluated\<rparr>"
      obtain r st1 where r: "tally c m (threshold auth) 0 (meta_permissions auth) ?st = Inr (r, st1)"
        using "5.prems" None n auth by (auto simp: visit_account.simps split: sum.splits)
      from "5.IH" [OF None n auth r] show ?thesis
        using "5.prems" None n auth r by (cases r) (auto simp: visit_account.simps)
    qed
  qed (use "5.prems" in \<open>auto simp: visit_account.simps\<close>)
qed (auto split: if_splits)

text \<open>No exception of its own: the checker fails only where \<^verbatim>\<open>permission_to_authority\<close> throws something else
  than the exception for a permission that does not exist.\<close>

lemma checker_returns:
  assumes "\<And>p e. permission_to_authority c p = Inl e \<Longrightarrow> e = Permission_query_exception"
  shows "\<exists>b st'. tally c n thr t ps st = Inr (b, st')"
    and "\<exists>t' st'. visit_account c n t a st = Inr (t', st')"
  using assms
proof (induction c n thr t ps st and c n t a st rule: tally_visit_account.induct)
  case (3 c n thr t k ps st)
  obtain t1 st1 where v: "visit_key c t k st = (t1, st1)" by fastforce
  then show ?case using "3.IH" [OF v [symmetric]] "3.prems" by (cases "thr \<le> t1") auto
next
  case (4 c n thr t a ps st)
  obtain t1 st1 where v: "visit_account c n t a st = Inr (t1, st1)"
    using "4.IH"(1) "4.prems" by blast
  then show ?case using "4.IH"(2) [OF v refl] "4.prems" by (cases "thr \<le> t1") auto
next
  case (5 c n t a st)
  show ?case
  proof (cases "permission_status_in_cache (cached_permissions st) (plw_permission a)")
    case None
    show ?thesis
    proof (cases "\<exists>m auth. n = Suc m \<and> permission_to_authority c (plw_permission a) = Inr auth")
      case False
      then show ?thesis
        using "5.prems" None by (auto simp: visit_account.simps split: nat.splits sum.splits)
    next
      case True
      then obtain m auth where n: "n = Suc m"
          and auth: "permission_to_authority c (plw_permission a) = Inr auth" by blast
      let ?st = "st\<lparr>cached_permissions := cache_emplace (cached_permissions st) (plw_permission a) Being_evaluated\<rparr>"
      obtain r st1 where r: "tally c m (threshold auth) 0 (meta_permissions auth) ?st = Inr (r, st1)"
        using "5.IH" [OF None n auth] "5.prems" by blast
      then show ?thesis using None n auth by (cases r) (auto simp: visit_account.simps)
    qed
  qed (auto simp: visit_account.simps)
qed (auto split: if_splits)

lemma satisfied_permission_cases:
  assumes "satisfied_permission c p used = Inr (b, used')"
  shows "(b \<longrightarrow> perm_sat c p) \<and> keys_grow used used' \<and> (\<not> b \<longrightarrow> used' = used)"
proof -
  let ?w = "\<lparr>plw_permission = p, plw_weight = 1\<rparr>"
  let ?st = "\<lparr>used_keys = used, cached_permissions = initialize_permission_cache c\<rparr>"
  obtain t st where v: "visit_account c (unat (recursion_depth_limit c)) 0 ?w ?st = Inr (t, st)"
      and b: "b \<longleftrightarrow> 0 < t" "used' = used_keys st"
    using assms by (auto simp: satisfied_permission_def result_simps)
  have "unat t \<le> (if perm_sat c p then 1 else 0)"
    using checker_sound(2) [OF v] cache_sound_init [of c] by (auto split: if_splits)
  then have "b \<longrightarrow> perm_sat c p" using b(1) by (auto simp: word_less_nat_alt split: if_splits)
  moreover have "0 < (1 :: u32)" by simp
  ultimately show ?thesis using checker_used_keys(2) [OF v] b by auto
qed

section \<open>Authorities of keys and waits\<close>

lemma tally_direct:
  assumes "\<forall>p \<in> set ps. \<forall>a. p \<noteq> MP_account a" "unat t + sat_weight c ps < 2 ^ 32" "t < thr"
  shows "\<exists>st'. tally c n thr t ps st = Inr (unat thr \<le> unat t + sat_weight c ps, st')"
  using assms
proof (induction ps arbitrary: t st)
  case (Cons p ps)
  have step: "\<exists>st'. (if thr \<le> t' then Inr (True, st1) else tally c n thr t' ps st1) =
      Inr (unat thr \<le> unat t + sat_weight c (p # ps), st')"
    if t': "unat t' = unat t + (if factor_ok c p then unat (mp_weight p) else 0)" for t' st1
  proof (cases "thr \<le> t'")
    case True
    then show ?thesis using t' by (simp add: word_le_nat_alt)
  next
    case False
    then show ?thesis using Cons.IH [of t' st1] Cons.prems t' by (auto simp: not_le add.assoc)
  qed
  have add: "unat (t + ucast (mp_weight p)) = unat t + unat (mp_weight p)" if "factor_ok c p"
    using Cons.prems(2) that unat_bound [of "mp_weight p"]
    by (subst unat_plus_small) (simp_all add: unsigned_ucast_eq take_bit_nat_eq_self)
  show ?case
  proof (cases p)
    case (MP_account a)
    then show ?thesis using Cons.prems(1) by simp
  next
    case (MP_key k)
    show ?thesis
    proof (cases "find_position (kw_key k) (provided_keys c)")
      case None
      then have "\<not> factor_ok c p" using MP_key find_position_None by (metis factor_ok.simps(2))
      then show ?thesis using step [of t st] None MP_key by (simp add: visit_key_def)
    next
      case (Some i)
      then have ok: "factor_ok c p" using MP_key find_position_Some [OF Some] nth_mem by fastforce
      show ?thesis
        using step [of "t + ucast (kw_weight k)" "st\<lparr>used_keys := (used_keys st)[i := True]\<rparr>"] add [OF ok] ok Some MP_key
        by (simp add: visit_key_def)
    qed
  next
    case (MP_wait w)
    then show ?thesis
      using step [of "visit_wait c t w" st] add by (auto simp: visit_wait_def)
  qed
qed (simp add: word_less_nat_alt not_le)

lemma satisfied_authority_direct:
  assumes "auth_accounts a = []" "authority_weight a < 2 ^ 32" "threshold a \<noteq> 0"
  shows "\<exists>used'. satisfied_authority c a used = Inr (unat (threshold a) \<le> direct_weight c a, used')"
proof -
  have acc: "\<forall>p \<in> set (meta_permissions a). \<forall>x. p \<noteq> MP_account x"
    using assms(1) by (auto simp: meta_permissions_def)
  have eq: "sat_weight c (meta_permissions a) = direct_weight c a"
    using assms(1) by (simp add: sat_weight_meta)
  have "weights_sum w (filter P xs) \<le> weights_sum w xs" for w :: "'x \<Rightarrow> u16" and P xs
    by (induction xs) auto
  then have "direct_weight c a \<le> authority_weight a"
    unfolding direct_weight_def authority_weight_def
    by (metis (no_types, lifting) add.commute add.left_commute add_mono trans_le_add1)
  then have "direct_weight c a < 2 ^ 32" using assms(2) by linarith
  then obtain st' where "tally c (unat (recursion_depth_limit c)) (threshold a) 0 (meta_permissions a)
      \<lparr>used_keys = used, cached_permissions = initialize_permission_cache c\<rparr> =
        Inr (unat (threshold a) \<le> direct_weight c a, st')"
    using tally_direct [OF acc, of 0 c "threshold a"] eq assms(3) by (auto simp: word_neq_0_conv)
  then show ?thesis by (simp add: satisfied_authority_def)
qed

section \<open>Properties\<close>

text \<open>
  C10. The checker never accepts too much. When it reports a permission as satisfied, the permission was
  provided, or the provided keys, the delay and permissions satisfied in the same way reach the threshold of
  its authority; cycles between authorities and the cache cannot produce weight out of nothing. Keys that were
  marked as used stay marked, and an unsatisfied permission marks none.
\<close>

theorem satisfied_permission_sound:
  assumes "satisfied_permission c p used = Inr (b, used')"
  shows "(b \<longrightarrow> perm_sat c p) \<and> keys_grow used used' \<and> (\<not> b \<longrightarrow> used' = used)"
  using assms by (rule satisfied_permission_cases)

definition demo_checker :: authority_checker where
  "demo_checker =
     \<lparr>permission_to_authority =
        (\<lambda>p. if p = (1, 2) then Inr \<lparr>threshold = 2, auth_keys = [\<lparr>kw_key = [7], kw_weight = 1\<rparr>],
                 auth_accounts = [\<lparr>plw_permission = (3, 2), plw_weight = 1\<rparr>], auth_waits = []\<rparr>
             else if p = (3, 2) then Inr (authority_of_key [8] 0)
             else Inl Permission_query_exception),
      provided_keys = [[7], [8]], provided_permissions = [], provided_delay = 0, recursion_depth_limit = 6\<rparr>"

theorem satisfied_permission_sound_witness: "perm_sat demo_checker (1, 2)"
proof -
  have "visit_account demo_checker (Suc (Suc n)) 0 \<lparr>plw_permission = (1, 2), plw_weight = 1\<rparr>
      \<lparr>used_keys = [False, False], cached_permissions = initialize_permission_cache demo_checker\<rparr> =
      Inr (1, \<lparr>used_keys = [True, True],
        cached_permissions = [((1, 2), Permission_satisfied), ((3, 2), Permission_satisfied)]\<rparr>)" for n
    by (simp add: demo_checker_def visit_account.simps permission_status_in_cache_def fm_find_def
        initialize_permission_cache_def meta_permissions_def mp_order_def cache_emplace_def visit_key_def
        authority_of_key_def Let_def word_le_nat_alt word_less_nat_alt)
  from this [of 4] have "satisfied_permission demo_checker (1, 2) [False, False] = Inr (True, [True, True])"
    by (simp add: satisfied_permission_def demo_checker_def)
  from satisfied_permission_sound [OF this] show ?thesis by simp
qed

text \<open>
  C36. The checker always answers. Whatever cycles the authorities form, evaluation ends within the depth
  limit, and no error leaves it as long as looking up an authority fails only for permissions that do not
  exist.
\<close>

theorem satisfied_permission_returns:
  assumes "\<And>p e. permission_to_authority c p = Inl e \<Longrightarrow> e = Permission_query_exception"
  shows "\<exists>b used'. satisfied_permission c p used = Inr (b, used')"
  using checker_returns(2) [OF assms] by (fastforce simp: satisfied_permission_def result_simps)

theorem satisfied_permission_returns_witness:
  "\<exists>b used'. satisfied_permission demo_checker (5, 5) [False, False] = Inr (b, used')"
  by (rule satisfied_permission_returns) (auto simp: demo_checker_def split: if_splits)

text \<open>
  C33. For an authority of keys and waits the answer is exact: it is satisfied if and only if the weights of
  the provided keys and of the waits within the delay reach the threshold.
\<close>

theorem satisfied_authority_exact:
  assumes "auth_accounts a = []" "authority_weight a < 2 ^ 32" "threshold a \<noteq> 0"
  shows "\<exists>used'. satisfied_authority c a used = Inr (unat (threshold a) \<le> direct_weight c a, used')"
  using assms by (rule satisfied_authority_direct)

theorem satisfied_authority_exact_witness:
  "\<exists>used'. satisfied_authority demo_checker (authority_of_key [9] 0) [False, False] = Inr (False, used')"
  using satisfied_authority_exact [of "authority_of_key [9] 0" demo_checker "[False, False]"]
  by (simp add: authority_of_key_def Let_def authority_weight_def direct_weight_def demo_checker_def)

end
