(* ===== verification/Authorization_Manager.thy ===== *)
theory Authorization_Manager
  imports Header_State Authority_Checker
begin

text \<open>
  The authorization manager (\<^verbatim>\<open>authorization_manager.cpp\<close>, \<^verbatim>\<open>permission_object.hpp\<close>): the tables of
  permissions, their usage and the links of actions to permissions, the checks for the native actions, and
  the check that a transaction is authorized. Times and delays are microseconds.
\<close>

section \<open>Model\<close>

record permission_object =
  po_id :: nat
  usage_id :: nat
  po_parent :: nat
  po_owner :: account_name
  po_name :: permission_name
  last_updated :: int
  po_auth :: authority

type_synonym link_key = "account_name \<times> account_name \<times> action_name"

record auth_db =
  perm_rows :: "(nat, permission_object) flat_map"
  perm_next :: nat
  usage_rows :: "(nat, int) flat_map"
  usage_next :: nat
  link_rows :: "(link_key, permission_name) flat_map"

record action =
  act_account :: account_name
  act_name :: action_name
  act_authorization :: "permission_level list"
  act_data :: bytes

record updateauth =
  upd_account :: account_name
  upd_permission :: permission_name
  upd_parent :: permission_name
  upd_auth :: authority
  upd_max_fee :: u64

record deleteauth =
  del_account :: account_name
  del_permission :: permission_name
  del_max_fee :: u64

record linkauth =
  link_account :: account_name
  link_code :: account_name
  link_type :: action_name
  link_requirement :: permission_name
  link_max_fee :: u64

record unlinkauth =
  unl_account :: account_name
  unl_code :: account_name
  unl_type :: action_name

record canceldelay =
  canceling_auth :: permission_level
  cancel_trx_id :: digest

record generated_transaction_object =
  gto_sender :: account_name
  gto_sender_id :: u128
  gto_payer :: account_name
  gto_delay_until :: int
  gto_expiration :: int
  gto_published :: int
  gto_packed_trx :: bytes

text \<open>What the manager reads from the controller, and the unpacking of action data and of packed transactions,
  which is fc's.\<close>

record auth_env =
  pending_block_time :: int
  fix_linkauth_restriction :: bool
  max_transaction_delay :: u32
  max_authority_depth :: u16
  generated_transactions :: "(digest, generated_transaction_object) flat_map"
  unpack_updateauth :: "bytes \<Rightarrow> updateauth result"
  unpack_deleteauth :: "bytes \<Rightarrow> deleteauth result"
  unpack_linkauth :: "bytes \<Rightarrow> linkauth result"
  unpack_unlinkauth :: "bytes \<Rightarrow> unlinkauth result"
  unpack_canceldelay :: "bytes \<Rightarrow> canceldelay result"
  unpack_transaction :: "bytes \<Rightarrow> action list result"

definition active_name :: name where
  "active_name = string_to_name ''active''"

definition owner_name :: name where
  "owner_name = string_to_name ''owner''"

definition eosio_any_name :: name where
  "eosio_any_name = string_to_name ''eosio.any''"

definition updateauth_name :: name where
  "updateauth_name = string_to_name ''updateauth''"

definition deleteauth_name :: name where
  "deleteauth_name = string_to_name ''deleteauth''"

definition linkauth_name :: name where
  "linkauth_name = string_to_name ''linkauth''"

definition unlinkauth_name :: name where
  "unlinkauth_name = string_to_name ''unlinkauth''"

definition canceldelay_name :: name where
  "canceldelay_name = string_to_name ''canceldelay''"

definition native_auth_actions :: "name list" where
  "native_auth_actions = [updateauth_name, deleteauth_name, linkauth_name, unlinkauth_name, canceldelay_name]"

text \<open>Row 0 is reserved and has the default values.\<close>

definition auth_initialize_database :: auth_db where
  "auth_initialize_database =
     \<lparr>perm_rows = [(0, \<lparr>po_id = 0, usage_id = 0, po_parent = 0, po_owner = 0, po_name = 0, last_updated = 0,
                      po_auth = authority_empty\<rparr>)],
      perm_next = 1, usage_rows = [], usage_next = 0, link_rows = []\<rparr>"

definition perm_by_owner :: "auth_db \<Rightarrow> permission_level \<Rightarrow> permission_object option" where
  "perm_by_owner db level =
     find (\<lambda>p. po_owner p = actor level \<and> po_name p = permission level) (map snd (perm_rows db))"

definition create_permission ::
  "auth_env \<Rightarrow> account_name \<Rightarrow> permission_name \<Rightarrow> nat \<Rightarrow> authority \<Rightarrow> int \<Rightarrow> auth_db \<Rightarrow>
     (permission_object \<times> auth_db) result" where
  "create_permission env account nm parent auth initial_creation_time db =
     (let creation_time = (if initial_creation_time = 0 then pending_block_time env else initial_creation_time)
      in rbind (row_create (usage_rows db) (usage_next db) creation_time) (\<lambda>usage.
         let perm = \<lparr>po_id = perm_next db, usage_id = usage_next db, po_parent = parent, po_owner = account,
                     po_name = nm, last_updated = creation_time, po_auth = auth\<rparr>
         in eos_assert (perm_by_owner db (account, nm) = None) (Other_exception ''logic_error'') (
            rbind (row_create (perm_rows db) (perm_next db) perm) (\<lambda>rows.
            Inr (perm, db\<lparr>perm_rows := rows, perm_next := perm_next db + 1, usage_rows := usage,
                          usage_next := usage_next db + 1\<rparr>)))))"

definition modify_permission ::
  "auth_env \<Rightarrow> permission_object \<Rightarrow> authority \<Rightarrow> auth_db \<Rightarrow> auth_db" where
  "modify_permission env p auth db =
     db\<lparr>perm_rows := fm_set (perm_rows db) (po_id p)
          (p\<lparr>po_auth := auth, last_updated := pending_block_time env\<rparr>)\<rparr>"

definition remove_permission :: "permission_object \<Rightarrow> auth_db \<Rightarrow> auth_db result" where
  "remove_permission p db =
     eos_assert (\<forall>q \<in> set (map snd (perm_rows db)). po_parent q \<noteq> po_id p) Action_validate_exception (
     rbind (row_get (usage_rows db) (usage_id p)) (\<lambda>_.
     Inr (db\<lparr>usage_rows := fm_erase (usage_rows db) (usage_id p),
             perm_rows := fm_erase (perm_rows db) (po_id p)\<rparr>)))"

definition update_permission_usage :: "auth_env \<Rightarrow> permission_object \<Rightarrow> auth_db \<Rightarrow> auth_db result" where
  "update_permission_usage env p db =
     rbind (row_get (usage_rows db) (usage_id p)) (\<lambda>_.
     Inr (db\<lparr>usage_rows := fm_set (usage_rows db) (usage_id p) (pending_block_time env)\<rparr>))"

definition get_permission_last_used :: "auth_db \<Rightarrow> permission_object \<Rightarrow> int result" where
  "get_permission_last_used db p = row_get (usage_rows db) (usage_id p)"

definition find_permission :: "auth_db \<Rightarrow> permission_level \<Rightarrow> permission_object option result" where
  "find_permission db level =
     eos_assert (actor level \<noteq> 0 \<and> permission level \<noteq> 0) Permission_query_exception
       (Inr (perm_by_owner db level))"

definition get_permission :: "auth_db \<Rightarrow> permission_level \<Rightarrow> permission_object result" where
  "get_permission db level =
     eos_assert (actor level \<noteq> 0 \<and> permission level \<noteq> 0) Permission_query_exception
       (case perm_by_owner db level of
          None \<Rightarrow> Inl Permission_query_exception
        | Some p \<Rightarrow> Inr p)"

text \<open>The walk of \<^verbatim>\<open>satisfies\<close> up the parents of the other permission.\<close>

fun parent_walk ::
  "nat \<Rightarrow> (nat, permission_object) flat_map \<Rightarrow> nat \<Rightarrow> nat \<Rightarrow> bool result" where
  "parent_walk fuel rows i parent =
     (case fm_find rows parent of
        None \<Rightarrow> Inl Undefined_behaviour
      | Some p \<Rightarrow>
          if i = po_parent p then Inr True
          else if po_parent p = 0 then Inr False
          else (case fuel of 0 \<Rightarrow> Inl Does_not_return | Suc fuel' \<Rightarrow> parent_walk fuel' rows i (po_parent p)))"

declare parent_walk.simps [simp del]

definition satisfies :: "auth_db \<Rightarrow> permission_object \<Rightarrow> permission_object \<Rightarrow> bool result" where
  "satisfies db p other =
     (if po_owner p \<noteq> po_owner other then Inr False
      else if po_id p = po_id other \<or> po_id p = po_parent other then Inr True
      else parent_walk (perm_next db) (perm_rows db) (po_id p) (po_parent other))"

definition lookup_linked_permission ::
  "auth_db \<Rightarrow> account_name \<Rightarrow> account_name \<Rightarrow> action_name \<Rightarrow> permission_name option" where
  "lookup_linked_permission db authorizer_account code_scope nm =
     (case fm_find (link_rows db) (authorizer_account, code_scope, nm) of
        Some r \<Rightarrow> Some r
      | None \<Rightarrow> fm_find (link_rows db) (authorizer_account, code_scope, 0))"

definition lookup_minimum_permission ::
  "auth_db \<Rightarrow> account_name \<Rightarrow> account_name \<Rightarrow> action_name \<Rightarrow> permission_name option result" where
  "lookup_minimum_permission db authorizer_account code_scope nm =
     eos_assert (code_scope = system_account_name \<longrightarrow> nm \<notin> set native_auth_actions)
       Unlinkable_min_permission_action
       (case lookup_linked_permission db authorizer_account code_scope nm of
          None \<Rightarrow> Inr (Some active_name)
        | Some linked \<Rightarrow> if linked = eosio_any_name then Inr None else Inr (Some linked))"

text \<open>\<^verbatim>\<open>EOS_ASSERT(get_permission(auth).satisfies(min_permission, ...), irrelevant_auth_exception, ...)\<close>.\<close>

definition assert_satisfies :: "auth_db \<Rightarrow> permission_level \<Rightarrow> permission_object \<Rightarrow> unit result" where
  "assert_satisfies db auth min_permission =
     rbind (get_permission db auth) (\<lambda>p.
     rbind (satisfies db p min_permission) (\<lambda>b.
     eos_assert b Irrelevant_auth_exception (Inr ())))"

definition check_updateauth_authorization ::
  "auth_db \<Rightarrow> updateauth \<Rightarrow> permission_level list \<Rightarrow> unit result" where
  "check_updateauth_authorization db update auths =
     eos_assert (length auths = 1) Irrelevant_auth_exception (
     let auth = hd auths
     in eos_assert (actor auth = upd_account update) Irrelevant_auth_exception (
        rbind (find_permission db (upd_account update, upd_permission update)) (\<lambda>found.
        rbind (case found of
                 Some p \<Rightarrow> Inr p
               | None \<Rightarrow> get_permission db (upd_account update, upd_parent update)) (\<lambda>min_permission.
        assert_satisfies db auth min_permission))))"

definition check_deleteauth_authorization ::
  "auth_db \<Rightarrow> deleteauth \<Rightarrow> permission_level list \<Rightarrow> unit result" where
  "check_deleteauth_authorization db del auths =
     eos_assert (length auths = 1) Irrelevant_auth_exception (
     let auth = hd auths
     in eos_assert (actor auth = del_account del) Irrelevant_auth_exception (
        rbind (get_permission db (del_account del, del_permission del)) (\<lambda>min_permission.
        assert_satisfies db auth min_permission)))"

definition check_linkauth_authorization ::
  "auth_env \<Rightarrow> auth_db \<Rightarrow> linkauth \<Rightarrow> permission_level list \<Rightarrow> unit result" where
  "check_linkauth_authorization env db link auths =
     eos_assert (length auths = 1) Irrelevant_auth_exception (
     let auth = hd auths
     in eos_assert (actor auth = link_account link) Irrelevant_auth_exception (
        eos_assert (link_code link = system_account_name \<or> \<not> fix_linkauth_restriction env \<longrightarrow>
                      link_type link \<notin> set native_auth_actions) Action_validate_exception (
        rbind (lookup_minimum_permission db (link_account link) (link_code link) (link_type link)) (\<lambda>linked.
        case linked of
          None \<Rightarrow> Inr ()
        | Some nm \<Rightarrow>
            rbind (get_permission db (link_account link, nm)) (\<lambda>min_permission.
            assert_satisfies db auth min_permission)))))"

definition check_unlinkauth_authorization ::
  "auth_db \<Rightarrow> unlinkauth \<Rightarrow> permission_level list \<Rightarrow> unit result" where
  "check_unlinkauth_authorization db unlink auths =
     eos_assert (length auths = 1) Irrelevant_auth_exception (
     let auth = hd auths
     in eos_assert (actor auth = unl_account unlink) Irrelevant_auth_exception (
        case lookup_linked_permission db (unl_account unlink) (unl_code unlink) (unl_type unlink) of
          None \<Rightarrow> Inl Transaction_exception
        | Some nm \<Rightarrow>
            if nm = eosio_any_name then Inr ()
            else
              rbind (get_permission db (unl_account unlink, nm)) (\<lambda>min_permission.
              assert_satisfies db auth min_permission)))"

definition check_canceldelay_authorization ::
  "auth_env \<Rightarrow> auth_db \<Rightarrow> canceldelay \<Rightarrow> permission_level list \<Rightarrow> int result" where
  "check_canceldelay_authorization env db cancel auths =
     eos_assert (length auths = 1) Irrelevant_auth_exception (
     let auth = hd auths
     in rbind (get_permission db (canceling_auth cancel)) (\<lambda>min_permission.
        rbind (assert_satisfies db auth min_permission) (\<lambda>_.
        case dropWhile (\<lambda>e. fst e < cancel_trx_id cancel) (generated_transactions env) of
          [] \<Rightarrow> Inl Tx_not_found
        | (trx_id, itr) # _ \<Rightarrow>
            eos_assert (gto_sender itr = 0 \<and> trx_id = cancel_trx_id cancel) Tx_not_found (
            rbind (unpack_transaction env (gto_packed_trx itr)) (\<lambda>actions.
            eos_assert (\<exists>act \<in> set actions. canceling_auth cancel \<in> set (act_authorization act))
              Action_validate_exception (
            Inr (gto_delay_until itr - gto_published itr)))))))"

definition microseconds_maximum :: int where
  "microseconds_maximum = 2 ^ 63 - 1"

definition effective_delay :: "auth_env \<Rightarrow> int \<Rightarrow> int" where
  "effective_delay env delay =
     (if int (unat (max_transaction_delay env)) * 1000000 \<le> delay then microseconds_maximum else delay)"

definition make_auth_checker ::
  "auth_env \<Rightarrow> auth_db \<Rightarrow> public_key_type list \<Rightarrow> permission_level list \<Rightarrow> int \<Rightarrow> authority_checker" where
  "make_auth_checker env db ks perms delay =
     \<lparr>permission_to_authority = (\<lambda>p. rbind (get_permission db p) (\<lambda>po. Inr (po_auth po))),
      provided_keys = ks, provided_permissions = perms, provided_delay = delay,
      recursion_depth_limit = max_authority_depth env\<rparr>"

text \<open>The special case of \<^verbatim>\<open>check_authorization\<close> for the native actions: whether it applies, and the delay for
  the declared authorizations of the action.\<close>

definition special_case :: "auth_env \<Rightarrow> auth_db \<Rightarrow> int \<Rightarrow> action \<Rightarrow> (bool \<times> int) result" where
  "special_case env db delay act =
     (if act_account act \<noteq> system_account_name then Inr (False, delay)
      else if act_name act = updateauth_name then
        rbind (unpack_updateauth env (act_data act)) (\<lambda>x.
        rbind (check_updateauth_authorization db x (act_authorization act)) (\<lambda>_. Inr (True, delay)))
      else if act_name act = deleteauth_name then
        rbind (unpack_deleteauth env (act_data act)) (\<lambda>x.
        rbind (check_deleteauth_authorization db x (act_authorization act)) (\<lambda>_. Inr (True, delay)))
      else if act_name act = linkauth_name then
        rbind (unpack_linkauth env (act_data act)) (\<lambda>x.
        rbind (check_linkauth_authorization env db x (act_authorization act)) (\<lambda>_. Inr (True, delay)))
      else if act_name act = unlinkauth_name then
        rbind (unpack_unlinkauth env (act_data act)) (\<lambda>x.
        rbind (check_unlinkauth_authorization db x (act_authorization act)) (\<lambda>_. Inr (True, delay)))
      else if act_name act = canceldelay_name then
        rbind (unpack_canceldelay env (act_data act)) (\<lambda>x.
        rbind (check_canceldelay_authorization env db x (act_authorization act)) (\<lambda>d.
        Inr (True, max delay d)))
      else Inr (False, delay))"

text \<open>\<^verbatim>\<open>permissions_to_satisfy.emplace\<close>, keeping the smaller delay.\<close>

definition note_permission ::
  "(permission_level, int) flat_map \<Rightarrow> permission_level \<Rightarrow> int \<Rightarrow> (permission_level, int) flat_map" where
  "note_permission m p delay =
     (case fm_find m p of
        None \<Rightarrow> fm_set m p delay
      | Some d \<Rightarrow> if delay < d then fm_set m p delay else m)"

text \<open>\<open>checktime k\<close> is the outcome of the \<open>k\<close>-th call of \<^verbatim>\<open>checktime\<close>.\<close>

definition check_declared ::
  "auth_db \<Rightarrow> (nat \<Rightarrow> unit result) \<Rightarrow> permission_level list \<Rightarrow> action \<Rightarrow> bool \<Rightarrow> int \<Rightarrow> permission_level \<Rightarrow>
     nat \<times> (permission_level, int) flat_map \<Rightarrow> (nat \<times> (permission_level, int) flat_map) result" where
  "check_declared db checktime satisfied_authorizations act special delay declared_auth st =
     (let (k, m) = st
      in rbind (checktime k) (\<lambda>_.
         rbind (if special then Inr ()
                else
                  rbind (lookup_minimum_permission db (actor declared_auth) (act_account act) (act_name act))
                    (\<lambda>min_name.
                  case min_name of
                    None \<Rightarrow> Inr ()
                  | Some nm \<Rightarrow>
                      rbind (get_permission db (actor declared_auth, nm)) (\<lambda>min_permission.
                      assert_satisfies db declared_auth min_permission))) (\<lambda>_.
         Inr (k + 1, if declared_auth \<in> set satisfied_authorizations then m
                     else note_permission m declared_auth delay))))"

definition check_action ::
  "auth_env \<Rightarrow> auth_db \<Rightarrow> (nat \<Rightarrow> unit result) \<Rightarrow> permission_level list \<Rightarrow> int \<Rightarrow> action \<Rightarrow>
     nat \<times> (permission_level, int) flat_map \<Rightarrow> (nat \<times> (permission_level, int) flat_map) result" where
  "check_action env db checktime satisfied_authorizations delay act st =
     rbind (special_case env db delay act) (\<lambda>(special, d).
     rfold (check_declared db checktime satisfied_authorizations act special d) (act_authorization act) st)"

definition check_satisfied ::
  "authority_checker \<Rightarrow> (nat \<Rightarrow> unit result) \<Rightarrow> permission_level \<times> int \<Rightarrow> nat \<times> bool list \<Rightarrow>
     (nat \<times> bool list) result" where
  "check_satisfied c checktime e st =
     (let (k, used) = st
      in rbind (checktime k) (\<lambda>_.
         rbind (satisfied_permission_delay c (fst e) (snd e) used) (\<lambda>(b, used').
         eos_assert b Unsatisfied_authorization (Inr (k + 1, used')))))"

definition check_authorization ::
  "auth_env \<Rightarrow> auth_db \<Rightarrow> action list \<Rightarrow> public_key_type list \<Rightarrow> permission_level list \<Rightarrow> int \<Rightarrow>
     (nat \<Rightarrow> unit result) \<Rightarrow> bool \<Rightarrow> permission_level list \<Rightarrow> unit result" where
  "check_authorization env db actions ks perms delay checktime allow_unused_keys satisfied_authorizations =
     (let eff = effective_delay env delay; c = make_auth_checker env db ks perms eff
      in rbind (rfold (check_action env db checktime satisfied_authorizations eff) actions (0, [])) (\<lambda>(k, m).
         rbind (rfold (check_satisfied c checktime) m (k, checker_init c)) (\<lambda>(k', used).
         if allow_unused_keys then Inr () else eos_assert (all_keys_used used) Tx_irrelevant_sig (Inr ()))))"

definition check_permission_authorization ::
  "auth_env \<Rightarrow> auth_db \<Rightarrow> account_name \<Rightarrow> permission_name \<Rightarrow> public_key_type list \<Rightarrow> permission_level list \<Rightarrow>
     int \<Rightarrow> bool \<Rightarrow> unit result" where
  "check_permission_authorization env db account nm ks perms delay allow_unused_keys =
     (let c = make_auth_checker env db ks perms (effective_delay env delay)
      in rbind (satisfied_permission c (account, nm) (checker_init c)) (\<lambda>(b, used).
         eos_assert b Unsatisfied_authorization (
         if allow_unused_keys then Inr () else eos_assert (all_keys_used used) Tx_irrelevant_sig (Inr ()))))"

definition get_required_keys ::
  "auth_env \<Rightarrow> auth_db \<Rightarrow> action list \<Rightarrow> public_key_type list \<Rightarrow> int \<Rightarrow> public_key_type list result" where
  "get_required_keys env db actions candidate_keys delay =
     (let c = make_auth_checker env db candidate_keys [] delay
      in rbind (rfold (\<lambda>act. rfold (\<lambda>declared_auth used.
                  rbind (satisfied_permission c declared_auth used) (\<lambda>(b, used').
                  eos_assert b Unsatisfied_authorization (Inr used'))) (act_authorization act))
                actions (checker_init c)) (\<lambda>used.
         Inr (used_keys_of c used)))"

end
