(* ===== verification/Authorization.thy ===== *)
theory Authorization
  imports Authorization_Manager
begin

text \<open>
  What the authorization manager guarantees: the permissions of every account form a tree that the operations
  keep, a permission satisfies exactly its descendants, and a transaction that passes the check has every
  declared authorization satisfied.
\<close>

section \<open>The tree of permissions\<close>

definition perm_inv :: "auth_db \<Rightarrow> bool" where
  "perm_inv db \<longleftrightarrow>
     fm_wf (perm_rows db) \<and> fm_wf (usage_rows db) \<and> 0 < perm_next db \<and>
     (\<exists>z. fm_find (perm_rows db) 0 = Some z \<and> po_parent z = 0) \<and>
     (\<forall>i p. fm_find (perm_rows db) i = Some p \<longrightarrow> po_id p = i \<and> i < perm_next db) \<and>
     (\<forall>i p. fm_find (perm_rows db) i = Some p \<and> i \<noteq> 0 \<longrightarrow>
        po_parent p < i \<and>
        (\<exists>q. fm_find (perm_rows db) (po_parent p) = Some q \<and> (po_parent p \<noteq> 0 \<longrightarrow> po_owner q = po_owner p)) \<and>
        fm_find (usage_rows db) (usage_id p) \<noteq> None) \<and>
     (\<forall>i p j q. fm_find (perm_rows db) i = Some p \<and> fm_find (perm_rows db) j = Some q \<and>
        po_owner p = po_owner q \<and> po_name p = po_name q \<longrightarrow> i = j) \<and>
     (\<forall>i p j q. fm_find (perm_rows db) i = Some p \<and> fm_find (perm_rows db) j = Some q \<and> i \<noteq> 0 \<and> j \<noteq> 0 \<and>
        usage_id p = usage_id q \<longrightarrow> i = j) \<and>
     (\<forall>u t. fm_find (usage_rows db) u = Some t \<longrightarrow> u < usage_next db)"

lemma perm_invD:
  assumes "perm_inv db"
  shows "fm_wf (perm_rows db)" "fm_wf (usage_rows db)" "0 < perm_next db"
    and "\<exists>z. fm_find (perm_rows db) 0 = Some z \<and> po_parent z = 0"
    and "\<And>i p. fm_find (perm_rows db) i = Some p \<Longrightarrow> po_id p = i"
    and "\<And>i p. fm_find (perm_rows db) i = Some p \<Longrightarrow> i < perm_next db"
    and "\<And>i p. fm_find (perm_rows db) i = Some p \<Longrightarrow> i \<noteq> 0 \<Longrightarrow> po_parent p < i"
    and "\<And>i p. fm_find (perm_rows db) i = Some p \<Longrightarrow> i \<noteq> 0 \<Longrightarrow>
      \<exists>q. fm_find (perm_rows db) (po_parent p) = Some q \<and> (po_parent p \<noteq> 0 \<longrightarrow> po_owner q = po_owner p)"
    and "\<And>i p. fm_find (perm_rows db) i = Some p \<Longrightarrow> i \<noteq> 0 \<Longrightarrow> fm_find (usage_rows db) (usage_id p) \<noteq> None"
    and "\<And>i p j q. fm_find (perm_rows db) i = Some p \<Longrightarrow> fm_find (perm_rows db) j = Some q \<Longrightarrow>
      po_owner p = po_owner q \<Longrightarrow> po_name p = po_name q \<Longrightarrow> i = j"
    and "\<And>i p j q. fm_find (perm_rows db) i = Some p \<Longrightarrow> fm_find (perm_rows db) j = Some q \<Longrightarrow> i \<noteq> 0 \<Longrightarrow>
      j \<noteq> 0 \<Longrightarrow> usage_id p = usage_id q \<Longrightarrow> i = j"
    and "\<And>u t. fm_find (usage_rows db) u = Some t \<Longrightarrow> u < usage_next db"
  using assms unfolding perm_inv_def by blast+

lemma perm_by_owner_Some:
  assumes "perm_by_owner db l = Some p" "fm_wf (perm_rows db)"
  shows "\<exists>i. fm_find (perm_rows db) i = Some p" "po_owner p = actor l" "po_name p = permission l"
proof -
  have p: "p \<in> set (map snd (perm_rows db))" "po_owner p = actor l \<and> po_name p = permission l"
    using assms(1) unfolding perm_by_owner_def find_Some_iff by auto
  then show "\<exists>i. fm_find (perm_rows db) i = Some p" using fm_find_Some_iff [OF assms(2)] by auto
  show "po_owner p = actor l" "po_name p = permission l" using p(2) by simp_all
qed

lemma perm_by_owner_None:
  assumes "perm_by_owner db l = None" "fm_find (perm_rows db) i = Some p"
  shows "\<not> (po_owner p = actor l \<and> po_name p = permission l)"
proof -
  have "p \<in> set (map snd (perm_rows db))" using fm_find_SomeD [OF assms(2)] by force
  then show ?thesis using assms(1) unfolding perm_by_owner_def find_None_iff by blast
qed

lemma perm_by_owner_unique:
  assumes "perm_inv db" "fm_find (perm_rows db) i = Some p"
  shows "perm_by_owner db (po_owner p, po_name p) = Some p"
proof (cases "perm_by_owner db (po_owner p, po_name p)")
  case None
  then show ?thesis using perm_by_owner_None [OF None assms(2)] by simp
next
  case (Some q)
  note q = perm_by_owner_Some [OF Some perm_invD(1) [OF assms(1)]]
  then obtain j where j: "fm_find (perm_rows db) j = Some q" by blast
  have "i = j" by (rule perm_invD(10) [OF assms(1) assms(2) j]) (use q(2,3) in simp_all)
  then show ?thesis using Some assms(2) j by simp
qed

text \<open>\<open>ancestor rows i j\<close>: permission \<open>i\<close> is \<open>j\<close> itself or above it.\<close>

inductive ancestor :: "(nat, permission_object) flat_map \<Rightarrow> nat \<Rightarrow> nat \<Rightarrow> bool" for rows i where
  ancestor_self: "ancestor rows i i"
| ancestor_parent: "fm_find rows j = Some p \<Longrightarrow> ancestor rows i (po_parent p) \<Longrightarrow> ancestor rows i j"

inductive_cases ancestorE: "ancestor rows i j"

lemma ancestor_iff:
  assumes "fm_find rows j = Some p"
  shows "ancestor rows i j \<longleftrightarrow> i = j \<or> ancestor rows i (po_parent p)"
  using assms by (auto intro: ancestor.intros elim: ancestorE)

lemma ancestor_zero:
  assumes "perm_inv db"
  shows "ancestor (perm_rows db) i 0 \<longleftrightarrow> i = 0"
proof
  obtain z where z: "fm_find (perm_rows db) 0 = Some z" "po_parent z = 0" using perm_invD(4) [OF assms] by blast
  assume "ancestor (perm_rows db) i 0"
  then show "i = 0"
  proof (induction "0 :: nat" rule: ancestor.induct)
    case (ancestor_parent p)
    then show ?case using z by simp
  qed simp
qed (simp add: ancestor_self)

lemma parent_walk_spec:
  assumes "perm_inv db"
  shows "fm_find (perm_rows db) j = Some p \<Longrightarrow> j \<le> fuel \<Longrightarrow>
    parent_walk fuel (perm_rows db) i j = Inr (ancestor (perm_rows db) i (po_parent p))"
proof (induction fuel arbitrary: j p)
  case 0
  then have "po_parent p = 0" using perm_invD(4) [OF assms] by auto
  then show ?case
    using 0 ancestor_zero [OF assms] by (simp add: parent_walk.simps)
next
  case (Suc fuel)
  show ?case
  proof (cases "i = po_parent p \<or> po_parent p = 0")
    case True
    then show ?thesis
      using Suc.prems(1) ancestor_zero [OF assms, of i]
      by (auto simp: parent_walk.simps [of "Suc fuel"] intro: ancestor_self)
  next
    case False
    then have j: "j \<noteq> 0" using Suc.prems(1) perm_invD(4) [OF assms] by (metis option.inject)
    obtain q where q: "fm_find (perm_rows db) (po_parent p) = Some q"
      using perm_invD(8) [OF assms Suc.prems(1) j] by blast
    have "po_parent p \<le> fuel" using perm_invD(7) [OF assms Suc.prems(1) j] Suc.prems(2) by simp
    then show ?thesis
      using Suc.IH [OF q] Suc.prems(1) False ancestor_iff [OF q, of i]
      by (simp add: parent_walk.simps [of "Suc fuel"])
  qed
qed

lemma satisfies_spec:
  assumes "perm_inv db" "fm_find (perm_rows db) i = Some p" "fm_find (perm_rows db) j = Some other"
  shows "satisfies db p other = Inr (po_owner p = po_owner other \<and> ancestor (perm_rows db) i j)"
proof -
  have ids: "po_id p = i" "po_id other = j"
    using perm_invD(5) [OF assms(1)] assms(2,3) by blast+
  have "\<exists>q. fm_find (perm_rows db) (po_parent other) = Some q"
    using perm_invD(4,8) [OF assms(1)] assms(3) by (cases "j = 0") auto
  then obtain q where q: "fm_find (perm_rows db) (po_parent other) = Some q" by blast
  have "po_parent other \<le> perm_next db" using perm_invD(6) [OF assms(1) q] by simp
  note walk = parent_walk_spec [OF assms(1) q this, of i]
  show ?thesis
    using walk ids ancestor_iff [OF assms(3), of i] ancestor_iff [OF q, of i] by (simp add: satisfies_def)
qed

section \<open>The operations keep the tree\<close>

lemma initialize_inv: "perm_inv auth_initialize_database"
  by (simp add: perm_inv_def auth_initialize_database_def fm_find_def fm_wf_Cons)

lemma create_permission_Inr:
  assumes "create_permission env account nm parent auth t db = Inr (p, db')"
  shows "perm_by_owner db (account, nm) = None" "fm_find (perm_rows db) (perm_next db) = None"
    "fm_find (usage_rows db) (usage_next db) = None"
    "p = \<lparr>po_id = perm_next db, usage_id = usage_next db, po_parent = parent, po_owner = account, po_name = nm,
          last_updated = (if t = 0 then pending_block_time env else t), po_auth = auth\<rparr>"
    "db' = db\<lparr>perm_rows := fm_set (perm_rows db) (perm_next db) p, perm_next := perm_next db + 1,
       usage_rows := fm_set (usage_rows db) (usage_next db) (if t = 0 then pending_block_time env else t),
       usage_next := usage_next db + 1\<rparr>"
  using assms by (auto simp: create_permission_def Let_def result_simps)

lemma create_permission_inv:
  assumes inv: "perm_inv db" and c: "create_permission env account nm parent auth t db = Inr (p, db')"
    and parent: "fm_find (perm_rows db) parent = Some q" "parent \<noteq> 0 \<Longrightarrow> po_owner q = account"
  shows "perm_inv db'"
proof -
  note C = create_permission_Inr [OF c]
  have new: "po_owner r = account \<Longrightarrow> po_name r = nm \<Longrightarrow> fm_find (perm_rows db) i \<noteq> Some r" for r i
    using perm_by_owner_None [OF C(1)] by auto
  have usage: "fm_find (usage_rows db) (usage_id r) \<noteq> None \<Longrightarrow> usage_id r \<noteq> usage_next db" for r
    using C(3) by metis
  have pnext: "0 < perm_next db" "parent < perm_next db" using perm_invD(3,6) [OF inv] parent(1) by blast+
  show ?thesis
    unfolding perm_inv_def
  proof (intro conjI allI impI, goal_cases)
    case 1 then show ?case using perm_invD(1) [OF inv] C(5) by (simp add: fm_wf_set)
  next
    case 2 then show ?case using perm_invD(2) [OF inv] C(5) by (simp add: fm_wf_set)
  next
    case 3 then show ?case using C(5) by simp
  next
    case 4 then show ?case using perm_invD(4) [OF inv] pnext(1) C(5) by auto
  next
    case (5 i r) then show ?case using perm_invD(5) [OF inv, of i r] C(4,5) by (auto split: if_splits)
  next
    case (6 i r) then show ?case using perm_invD(6) [OF inv, of i r] C(5) by (auto split: if_splits)
  next
    case (7 i r) then show ?case using perm_invD(7) [OF inv, of i r] pnext(2) C(4,5) by (auto split: if_splits)
  next
    case (8 i r)
    show ?case
    proof (cases "i = perm_next db")
      case True
      then have "r = p" using 8 C(5) by simp
      then show ?thesis using parent pnext(2) C(4,5) by auto
    next
      case False
      then have r: "fm_find (perm_rows db) i = Some r" using 8 C(5) by simp
      then obtain s where s: "fm_find (perm_rows db) (po_parent r) = Some s"
          "po_parent r \<noteq> 0 \<longrightarrow> po_owner s = po_owner r"
        using perm_invD(8) [OF inv r] 8 by blast
      have "po_parent r \<noteq> perm_next db" using perm_invD(6) [OF inv s(1)] by simp
      then show ?thesis using s C(5) by simp
    qed
  next
    case (9 i r) then show ?case using perm_invD(9) [OF inv, of i r] C(4,5) by (auto split: if_splits)
  next
    case (10 i r j s)
    then show ?case using perm_invD(10) [OF inv, of i r j s] new [of r i] new [of s j] C(4,5)
      by (auto split: if_splits)
  next
    case (11 i r j s)
    then show ?case
      using perm_invD(11) [OF inv, of i r j s] perm_invD(9) [OF inv, of i r] perm_invD(9) [OF inv, of j s]
        usage [of r] usage [of s] C(4,5)
      by (auto split: if_splits)
  next
    case (12 u x) then show ?case using perm_invD(12) [OF inv, of u x] C(5) by (auto split: if_splits)
  qed
qed

lemma modify_permission_inv:
  assumes inv: "perm_inv db" and p: "fm_find (perm_rows db) i = Some p"
  shows "perm_inv (modify_permission env p auth db)"
proof -
  let ?p = "p\<lparr>po_auth := auth, last_updated := pending_block_time env\<rparr>"
  have id: "po_id p = i" using perm_invD(5) [OF inv p] .
  have find: "fm_find (perm_rows (modify_permission env p auth db)) j =
      (if j = i then Some ?p else fm_find (perm_rows db) j)" for j
    by (simp add: modify_permission_def id)
  have same: "\<exists>s. fm_find (perm_rows db) j = Some s \<and> po_id s = po_id r \<and> po_parent s = po_parent r \<and>
      po_owner s = po_owner r \<and> po_name s = po_name r \<and> usage_id s = usage_id r"
    if "fm_find (perm_rows (modify_permission env p auth db)) j = Some r" for j r
    using that p unfolding find by (auto split: if_splits)
  have kept: "\<exists>s. fm_find (perm_rows (modify_permission env p auth db)) j = Some s \<and> po_parent s = po_parent r \<and>
      po_owner s = po_owner r" if "fm_find (perm_rows db) j = Some r" for j r
    using that p unfolding find by auto
  have unchanged: "usage_rows (modify_permission env p auth db) = usage_rows db"
      "perm_next (modify_permission env p auth db) = perm_next db"
      "usage_next (modify_permission env p auth db) = usage_next db"
    by (simp_all add: modify_permission_def)
  show ?thesis
    unfolding perm_inv_def unchanged
  proof (intro conjI allI impI, goal_cases)
    case 1 then show ?case using perm_invD(1) [OF inv] by (simp add: modify_permission_def fm_wf_set)
  next
    case 4 then show ?case using perm_invD(4) [OF inv] kept by metis
  next
    case (5 j r) then show ?case using same [OF 5] perm_invD(5) [OF inv] by metis
  next
    case (6 j r) then show ?case using same [OF 6] perm_invD(6) [OF inv] by metis
  next
    case (7 j r) then show ?case using same [of j r] perm_invD(7) [OF inv] by metis
  next
    case (8 j r) then show ?case using same [of j r] perm_invD(8) [OF inv, of j] kept by metis
  next
    case (9 j r) then show ?case using same [of j r] perm_invD(9) [OF inv, of j] by metis
  next
    case (10 j r k s) then show ?case using same [of j r] same [of k s] perm_invD(10) [OF inv, of j _ k] by metis
  next
    case (11 j r k s) then show ?case using same [of j r] same [of k s] perm_invD(11) [OF inv, of j _ k] by metis
  qed (use perm_invD(2,3,12) [OF inv] in blast)+
qed

lemma remove_permission_inv:
  assumes inv: "perm_inv db" and p: "fm_find (perm_rows db) i = Some p" "i \<noteq> 0"
    and r: "remove_permission p db = Inr db'"
  shows "perm_inv db'"
proof -
  have id: "po_id p = i" using perm_invD(5) [OF inv p(1)] .
  have leaf: "po_parent q \<noteq> i" if "fm_find (perm_rows db) j = Some q" for j q
    using r id fm_find_SomeD [OF that] by (force simp: remove_permission_def result_simps)
  have db': "db' = db\<lparr>usage_rows := fm_erase (usage_rows db) (usage_id p), perm_rows := fm_erase (perm_rows db) i\<rparr>"
    using r id by (auto simp: remove_permission_def result_simps)
  have usage: "usage_id q \<noteq> usage_id p" if "fm_find (perm_rows db) j = Some q" "j \<noteq> 0" "j \<noteq> i" for j q
    using perm_invD(11) [OF inv that(1) p(1)] that(2,3) p(2) by blast
  show ?thesis
    unfolding perm_inv_def
  proof (intro conjI allI impI, goal_cases)
    case 1 then show ?case using perm_invD(1) [OF inv] db' by (simp add: fm_wf_erase)
  next
    case 2 then show ?case using perm_invD(2) [OF inv] db' by (simp add: fm_wf_erase)
  next
    case 3 then show ?case using perm_invD(3) [OF inv] db' by simp
  next
    case 4 then show ?case using perm_invD(4) [OF inv] p(2) db' by auto
  next
    case (5 j q) then show ?case using perm_invD(5) [OF inv, of j q] db' by (auto split: if_splits)
  next
    case (6 j q) then show ?case using perm_invD(6) [OF inv, of j q] db' by (auto split: if_splits)
  next
    case (7 j q) then show ?case using perm_invD(7) [OF inv, of j q] db' by (auto split: if_splits)
  next
    case (8 j q) then show ?case using perm_invD(8) [OF inv, of j q] leaf [of j q] db' by (auto split: if_splits)
  next
    case (9 j q)
    then show ?case using perm_invD(9) [OF inv, of j q] usage [of j q] db' by (auto split: if_splits)
  next
    case (10 j q k s) then show ?case using perm_invD(10) [OF inv, of j q k s] db' by (auto split: if_splits)
  next
    case (11 j q k s) then show ?case using perm_invD(11) [OF inv, of j q k s] db' by (auto split: if_splits)
  next
    case (12 u x) then show ?case using perm_invD(12) [OF inv, of u x] db' by (auto split: if_splits)
  qed
qed

section \<open>A checked transaction is authorized\<close>

lemma weights_sum_filter_mono:
  "(\<And>x. x \<in> set xs \<Longrightarrow> P x \<Longrightarrow> Q x) \<Longrightarrow> weights_sum w (filter P xs) \<le> weights_sum w (filter Q xs)"
  by (induction xs) auto

lemma direct_weight_delay_mono:
  assumes "d \<le> d'"
  shows "direct_weight (c\<lparr>provided_delay := d\<rparr>) a \<le> direct_weight (c\<lparr>provided_delay := d'\<rparr>) a"
  unfolding direct_weight_def
  by (intro add_mono weights_sum_filter_mono) (use assms in auto)

lemma perm_sat_delay_mono:
  assumes "perm_sat (c\<lparr>provided_delay := d\<rparr>) p" "d \<le> d'"
  shows "perm_sat (c\<lparr>provided_delay := d'\<rparr>) p"
  using assms(1)
proof (induction rule: perm_sat.induct)
  case (perm_provided p)
  then show ?case by (intro perm_sat.perm_provided) simp
next
  case (perm_wildcard p)
  from perm_wildcard.IH show ?case by (rule perm_sat.perm_wildcard)
next
  case (perm_derived p a xs)
  then have pta: "permission_to_authority (c\<lparr>provided_delay := d'\<rparr>) p = Inr a"
      and sat: "\<forall>x \<in> set xs. perm_sat (c\<lparr>provided_delay := d'\<rparr>) (plw_permission x)"
      and sub: "subseq xs (auth_accounts a)"
      and le: "unat (threshold a) \<le> direct_weight (c\<lparr>provided_delay := d\<rparr>) a + weights_sum plw_weight xs"
    by simp_all
  have "unat (threshold a) \<le> direct_weight (c\<lparr>provided_delay := d'\<rparr>) a + weights_sum plw_weight xs"
    using le direct_weight_delay_mono [OF assms(2), of c a] by linarith
  then show ?case by (rule perm_sat.perm_derived [OF pta sub sat])
qed

text \<open>The map of permissions to satisfy only grows, and its delays only shrink.\<close>

definition delays_le :: "(permission_level, int) flat_map \<Rightarrow> (permission_level, int) flat_map \<Rightarrow> bool" where
  "delays_le m m' \<longleftrightarrow> (\<forall>p d. fm_find m p = Some d \<longrightarrow> (\<exists>d' \<le> d. fm_find m' p = Some d'))"

lemma delays_leD: "delays_le m m' \<Longrightarrow> fm_find m p = Some d \<Longrightarrow> \<exists>d' \<le> d. fm_find m' p = Some d'"
  unfolding delays_le_def by blast

lemma delays_le_refl: "delays_le m m"
  unfolding delays_le_def by blast

lemma delays_le_trans: "delays_le m m' \<Longrightarrow> delays_le m' m'' \<Longrightarrow> delays_le m m''"
  unfolding delays_le_def by (meson order_trans)

lemma note_permission_le: "delays_le m (note_permission m p d)"
  unfolding delays_le_def note_permission_def
  by (auto split: option.splits)

lemma note_permission_find: "\<exists>d' \<le> d. fm_find (note_permission m p d) p = Some d'"
  by (auto simp: note_permission_def split: option.split)

lemma check_declared_Inr:
  assumes "check_declared db checktime sat act special d a (k, m) = Inr (k', m')"
  shows "delays_le m m'" "a \<in> set sat \<or> (\<exists>d' \<le> d. fm_find m' a = Some d')"
    "special \<or> (\<forall>nm. lookup_minimum_permission db (actor a) (act_account act) (act_name act) = Inr (Some nm) \<longrightarrow>
       (\<exists>p q. get_permission db a = Inr p \<and> get_permission db (actor a, nm) = Inr q \<and>
              satisfies db p q = Inr True))"
proof -
  have m': "m' = (if a \<in> set sat then m else note_permission m a d)"
    using assms by (auto simp: check_declared_def result_simps)
  then show "delays_le m m'" "a \<in> set sat \<or> (\<exists>d' \<le> d. fm_find m' a = Some d')"
    using delays_le_refl note_permission_le note_permission_find by auto
  show "special \<or> (\<forall>nm. lookup_minimum_permission db (actor a) (act_account act) (act_name act) = Inr (Some nm) \<longrightarrow>
       (\<exists>p q. get_permission db a = Inr p \<and> get_permission db (actor a, nm) = Inr q \<and>
              satisfies db p q = Inr True))"
    using assms by (auto simp: check_declared_def result_simps assert_satisfies_def)
qed

lemma check_declared_all:
  assumes "rfold (check_declared db checktime sat act special d) as (k, m) = Inr (k', m')"
  shows "delays_le m m' \<and>
    (\<forall>a \<in> set as. (a \<in> set sat \<or> (\<exists>d' \<le> d. fm_find m' a = Some d')) \<and>
      (special \<or> (\<forall>nm. lookup_minimum_permission db (actor a) (act_account act) (act_name act) = Inr (Some nm) \<longrightarrow>
         (\<exists>p q. get_permission db a = Inr p \<and> get_permission db (actor a, nm) = Inr q \<and>
                satisfies db p q = Inr True))))"
  using assms
proof (induction as arbitrary: k m)
  case Nil
  then show ?case by (simp add: delays_le_refl)
next
  case (Cons a as)
  obtain k1 m1 where s: "check_declared db checktime sat act special d a (k, m) = Inr (k1, m1)"
      "rfold (check_declared db checktime sat act special d) as (k1, m1) = Inr (k', m')"
    using Cons.prems by (auto simp: result_simps)
  note A = check_declared_Inr [OF s(1)] and IH = Cons.IH [OF s(2)]
  have le: "delays_le m1 m'" using IH by blast
  have "a \<in> set sat \<or> (\<exists>d' \<le> d. fm_find m' a = Some d')"
    using A(2) delays_leD [OF le] by (meson order_trans)
  then show ?case using A(1,3) IH delays_le_trans [OF A(1) le] by simp
qed

text \<open>What the check establishes for one declared authorization of an action.\<close>

definition declared_ok ::
  "auth_env \<Rightarrow> auth_db \<Rightarrow> permission_level list \<Rightarrow> int \<Rightarrow> (permission_level \<Rightarrow> int \<Rightarrow> bool) \<Rightarrow> action \<Rightarrow>
     permission_level \<Rightarrow> bool" where
  "declared_ok env db sat eff P act a \<longleftrightarrow>
     (\<exists>special d. special_case env db eff act = Inr (special, d) \<and> (a \<in> set sat \<or> P a d) \<and>
        (special \<or> (\<forall>nm. lookup_minimum_permission db (actor a) (act_account act) (act_name act) = Inr (Some nm) \<longrightarrow>
           (\<exists>p q. get_permission db a = Inr p \<and> get_permission db (actor a, nm) = Inr q \<and>
                  satisfies db p q = Inr True))))"

lemma declared_ok_mono:
  "declared_ok env db sat eff P act a \<Longrightarrow> (\<And>d. P a d \<Longrightarrow> Q a d) \<Longrightarrow> declared_ok env db sat eff Q act a"
  unfolding declared_ok_def by blast

lemma check_action_Inr:
  assumes "check_action env db checktime sat eff act (k, m) = Inr (k', m')"
  shows "delays_le m m' \<and> (\<forall>a \<in> set (act_authorization act).
    declared_ok env db sat eff (\<lambda>a d. \<exists>d' \<le> d. fm_find m' a = Some d') act a)"
proof -
  obtain special d where s: "special_case env db eff act = Inr (special, d)"
      "rfold (check_declared db checktime sat act special d) (act_authorization act) (k, m) = Inr (k', m')"
    using assms by (auto simp: check_action_def result_simps)
  show ?thesis using check_declared_all [OF s(2)] s(1) unfolding declared_ok_def by blast
qed

lemma check_actions_Inr:
  assumes "rfold (check_action env db checktime sat eff) acts (k, m) = Inr (k', m')"
  shows "delays_le m m' \<and> (\<forall>act \<in> set acts. \<forall>a \<in> set (act_authorization act).
    declared_ok env db sat eff (\<lambda>a d. \<exists>d' \<le> d. fm_find m' a = Some d') act a)"
  using assms
proof (induction acts arbitrary: k m)
  case Nil
  then show ?case by (simp add: delays_le_refl)
next
  case (Cons act acts)
  obtain k1 m1 where s: "check_action env db checktime sat eff act (k, m) = Inr (k1, m1)"
      "rfold (check_action env db checktime sat eff) acts (k1, m1) = Inr (k', m')"
    using Cons.prems by (auto simp: result_simps)
  note A = check_action_Inr [OF s(1)] and IH = Cons.IH [OF s(2)]
  have le: "delays_le m1 m'" using IH by blast
  have "declared_ok env db sat eff (\<lambda>a d. \<exists>d' \<le> d. fm_find m' a = Some d') act a"
    if "a \<in> set (act_authorization act)" for a
  proof (rule declared_ok_mono)
    show "declared_ok env db sat eff (\<lambda>a d. \<exists>d' \<le> d. fm_find m1 a = Some d') act a" using A that by blast
    show "\<And>d. \<exists>d' \<le> d. fm_find m1 a = Some d' \<Longrightarrow> \<exists>d' \<le> d. fm_find m' a = Some d'"
      using delays_leD [OF le] by (meson order_trans)
  qed
  then show ?case using A IH delays_le_trans [OF _ le] by auto
qed

lemma check_satisfied_all:
  assumes "rfold (check_satisfied c checktime) m (k, used) = Inr (k', used')" "(p, d) \<in> set m"
  shows "perm_sat (c\<lparr>provided_delay := d\<rparr>) p"
  using assms
proof (induction m arbitrary: k used)
  case (Cons e m)
  obtain k1 used1 where s: "check_satisfied c checktime e (k, used) = Inr (k1, used1)"
      "rfold (check_satisfied c checktime) m (k1, used1) = Inr (k', used')"
    using Cons.prems(1) by (auto simp: result_simps)
  show ?case
  proof (cases "e = (p, d)")
    case True
    then have "satisfied_permission (c\<lparr>provided_delay := d\<rparr>) p used = Inr (True, used1)"
      using s(1) by (auto simp: check_satisfied_def result_simps satisfied_permission_delay_def)
    then show ?thesis using satisfied_permission_cases by blast
  next
    case False
    then show ?thesis using Cons.IH [OF s(2)] Cons.prems(2) by auto
  qed
qed simp

lemma check_authorization_declared:
  assumes "check_authorization env db acts ks perms delay checktime allow sat = Inr ()"
    and "act \<in> set acts" "a \<in> set (act_authorization act)"
  shows "declared_ok env db sat (effective_delay env delay)
    (\<lambda>a d. perm_sat (make_auth_checker env db ks perms d) a) act a"
proof -
  let ?eff = "effective_delay env delay"
  let ?c = "make_auth_checker env db ks perms ?eff"
  have c: "?c\<lparr>provided_delay := d\<rparr> = make_auth_checker env db ks perms d" for d
    by (simp add: make_auth_checker_def)
  obtain k m k' used where s: "rfold (check_action env db checktime sat ?eff) acts (0, []) = Inr (k, m)"
      "rfold (check_satisfied ?c checktime) m (k, checker_init ?c) = Inr (k', used)"
    using assms(1) by (auto simp: check_authorization_def Let_def result_simps)
  have ok: "declared_ok env db sat ?eff (\<lambda>a d. \<exists>d' \<le> d. fm_find m a = Some d') act a"
    using check_actions_Inr [OF s(1)] assms(2,3) by blast
  show ?thesis
  proof (rule declared_ok_mono [OF ok])
    fix d assume "\<exists>d' \<le> d. fm_find m a = Some d'"
    then obtain d' where d': "d' \<le> d" "(a, d') \<in> set m" using fm_find_SomeD by metis
    show "perm_sat (make_auth_checker env db ks perms d) a"
      using perm_sat_delay_mono [OF check_satisfied_all [OF s(2) d'(2)] d'(1)] by (simp add: c)
  qed
qed

text \<open>The permission an action asks of its authorization: the one that is changed, or the parent of a new one,
  for \<^verbatim>\<open>updateauth\<close>, the deleted one for \<^verbatim>\<open>deleteauth\<close>, the linked one for \<^verbatim>\<open>linkauth\<close> and \<^verbatim>\<open>unlinkauth\<close>, the
  canceling one for \<^verbatim>\<open>canceldelay\<close>, and the one the account links to any other action. \<open>None\<close> where the link is
  to \<^verbatim>\<open>eosio.any\<close>.\<close>

definition required_permission ::
  "auth_env \<Rightarrow> auth_db \<Rightarrow> action \<Rightarrow> permission_level \<Rightarrow> permission_level option" where
  "required_permission env db act a =
     (if act_account act = system_account_name \<and> act_name act = updateauth_name then
        (case unpack_updateauth env (act_data act) of
           Inl e \<Rightarrow> None
         | Inr x \<Rightarrow> Some (upd_account x,
             if perm_by_owner db (upd_account x, upd_permission x) = None then upd_parent x else upd_permission x))
      else if act_account act = system_account_name \<and> act_name act = deleteauth_name then
        (case unpack_deleteauth env (act_data act) of
           Inl e \<Rightarrow> None
         | Inr x \<Rightarrow> Some (del_account x, del_permission x))
      else if act_account act = system_account_name \<and> act_name act = linkauth_name then
        (case unpack_linkauth env (act_data act) of
           Inl e \<Rightarrow> None
         | Inr x \<Rightarrow> (case lookup_minimum_permission db (link_account x) (link_code x) (link_type x) of
             Inr (Some nm) \<Rightarrow> Some (link_account x, nm) | _ \<Rightarrow> None))
      else if act_account act = system_account_name \<and> act_name act = unlinkauth_name then
        (case unpack_unlinkauth env (act_data act) of
           Inl e \<Rightarrow> None
         | Inr x \<Rightarrow> (case lookup_linked_permission db (unl_account x) (unl_code x) (unl_type x) of
             None \<Rightarrow> None | Some nm \<Rightarrow> if nm = eosio_any_name then None else Some (unl_account x, nm)))
      else if act_account act = system_account_name \<and> act_name act = canceldelay_name then
        (case unpack_canceldelay env (act_data act) of
           Inl e \<Rightarrow> None
         | Inr x \<Rightarrow> Some (canceling_auth x))
      else
        (case lookup_minimum_permission db (actor a) (act_account act) (act_name act) of
           Inr (Some nm) \<Rightarrow> Some (actor a, nm) | _ \<Rightarrow> None))"

text \<open>\<open>strong_enough db a m\<close>: both permissions exist and the first satisfies the second.\<close>

definition strong_enough :: "auth_db \<Rightarrow> permission_level \<Rightarrow> permission_level \<Rightarrow> bool" where
  "strong_enough db a m \<longleftrightarrow>
     (\<exists>p q. get_permission db a = Inr p \<and> get_permission db m = Inr q \<and> satisfies db p q = Inr True)"

lemma assert_satisfies_strong:
  assumes "get_permission db m = Inr q" "assert_satisfies db a q = Inr ()"
  shows "strong_enough db a m"
  using assms by (auto simp: strong_enough_def assert_satisfies_def result_simps)

lemma length_one_hd: "length xs = 1 \<Longrightarrow> a \<in> set xs \<Longrightarrow> xs = [a]"
  by (cases xs) auto

lemma updateauth_strong:
  assumes "check_updateauth_authorization db x [a] = Inr ()"
  shows "strong_enough db a (upd_account x,
    if perm_by_owner db (upd_account x, upd_permission x) = None then upd_parent x else upd_permission x)"
  using assms
  by (cases "perm_by_owner db (upd_account x, upd_permission x)")
    (auto simp: check_updateauth_authorization_def find_permission_def get_permission_def result_simps
      intro!: assert_satisfies_strong)

lemma deleteauth_strong:
  assumes "check_deleteauth_authorization db x [a] = Inr ()"
  shows "strong_enough db a (del_account x, del_permission x)"
  using assms by (auto simp: check_deleteauth_authorization_def result_simps intro: assert_satisfies_strong)

lemma linkauth_strong:
  assumes "check_linkauth_authorization env db x [a] = Inr ()"
    and "lookup_minimum_permission db (link_account x) (link_code x) (link_type x) = Inr (Some nm)"
  shows "strong_enough db a (link_account x, nm)"
  using assms by (auto simp: check_linkauth_authorization_def result_simps intro: assert_satisfies_strong)

lemma unlinkauth_strong:
  assumes "check_unlinkauth_authorization db x [a] = Inr ()" "nm \<noteq> eosio_any_name"
    and "lookup_linked_permission db (unl_account x) (unl_code x) (unl_type x) = Some nm"
  shows "strong_enough db a (unl_account x, nm)"
  using assms by (auto simp: check_unlinkauth_authorization_def result_simps intro: assert_satisfies_strong)

lemma canceldelay_strong:
  assumes "check_canceldelay_authorization env db x [a] = Inr d"
  shows "strong_enough db a (canceling_auth x)"
  using assms by (auto simp: check_canceldelay_authorization_def result_simps intro: assert_satisfies_strong)

lemma special_case_single:
  assumes "special_case env db eff act = Inr (True, d)" "a \<in> set (act_authorization act)"
  shows "act_authorization act = [a]"
proof (rule length_one_hd [OF _ assms(2)])
  show "length (act_authorization act) = 1"
    using assms(1)
    by (auto simp: special_case_def result_simps check_updateauth_authorization_def
        check_deleteauth_authorization_def check_linkauth_authorization_def check_unlinkauth_authorization_def
        check_canceldelay_authorization_def split: if_splits)
qed

lemma special_case_required:
  assumes "special_case env db eff act = Inr (True, d)" "act_authorization act = [a]"
    and "required_permission env db act a = Some m"
  shows "strong_enough db a m"
  using assms
  by (auto simp: special_case_def required_permission_def result_simps
      split: if_splits sum.splits option.splits
      dest!: updateauth_strong intro: deleteauth_strong linkauth_strong unlinkauth_strong canceldelay_strong)

lemma ordinary_required:
  assumes "special_case env db eff act = Inr (False, d)" "required_permission env db act a = Some m"
  obtains nm where "lookup_minimum_permission db (actor a) (act_account act) (act_name act) = Inr (Some nm)"
    "m = (actor a, nm)"
  using assms
  by (auto simp: special_case_def required_permission_def result_simps split: if_splits sum.splits option.splits)

lemma check_authorization_required:
  assumes "check_authorization env db acts ks perms delay checktime allow sat = Inr ()"
    and "act \<in> set acts" "a \<in> set (act_authorization act)"
  shows "\<exists>special d. special_case env db (effective_delay env delay) act = Inr (special, d) \<and>
    (a \<in> set sat \<or> perm_sat (make_auth_checker env db ks perms d) a) \<and>
    (special \<longrightarrow> act_authorization act = [a]) \<and>
    (\<forall>m. required_permission env db act a = Some m \<longrightarrow> strong_enough db a m)"
proof -
  let ?eff = "effective_delay env delay"
  obtain special d where D: "special_case env db ?eff act = Inr (special, d)"
      "a \<in> set sat \<or> perm_sat (make_auth_checker env db ks perms d) a"
      "special \<or> (\<forall>nm. lookup_minimum_permission db (actor a) (act_account act) (act_name act) = Inr (Some nm) \<longrightarrow>
         strong_enough db a (actor a, nm))"
    using check_authorization_declared [OF assms] unfolding declared_ok_def strong_enough_def by blast
  have "strong_enough db a m" if m: "required_permission env db act a = Some m" for m
  proof (cases special)
    case True
    then show ?thesis
      using special_case_required [OF _ special_case_single [OF _ assms(3)] m] D(1) by simp
  next
    case False
    then have ord: "special_case env db ?eff act = Inr (False, d)" using D(1) by simp
    show ?thesis using ordinary_required [OF ord m] D(3) False by blast
  qed
  moreover have "special \<longrightarrow> act_authorization act = [a]"
    using special_case_single [OF _ assms(3), of env db ?eff d] D(1) by (cases special) simp_all
  ultimately show ?thesis using D(1,2) by blast
qed

section \<open>A small database\<close>

lemma permission_name_values:
  "active_name = 3617214756542218240" "owner_name = 12044502819693133824" "eosio_any_name = 6138663581382606848"
  unfolding active_name_def owner_name_def eosio_any_name_def by code_simp+

lemma system_account_name_value: "system_account_name = 6138663577826885632"
  unfolding system_account_name_def by code_simp

definition demo_auth_env :: auth_env where
  "demo_auth_env =
     \<lparr>pending_block_time = 1000, fix_linkauth_restriction = True, max_transaction_delay = 3888000,
      max_authority_depth = 6, generated_transactions = [],
      unpack_updateauth = (\<lambda>_. Inl (Other_exception ''unpack'')),
      unpack_deleteauth = (\<lambda>_. Inl (Other_exception ''unpack'')),
      unpack_linkauth = (\<lambda>_. Inl (Other_exception ''unpack'')),
      unpack_unlinkauth = (\<lambda>_. Inl (Other_exception ''unpack'')),
      unpack_canceldelay = (\<lambda>_. Inl (Other_exception ''unpack'')),
      unpack_transaction = (\<lambda>_. Inl (Other_exception ''unpack''))\<rparr>"

definition demo_owner :: permission_object where
  "demo_owner = \<lparr>po_id = 1, usage_id = 0, po_parent = 0, po_owner = 7, po_name = owner_name, last_updated = 1000,
     po_auth = authority_of_key [8] 0\<rparr>"

definition demo_active :: permission_object where
  "demo_active = \<lparr>po_id = 2, usage_id = 1, po_parent = 1, po_owner = 7, po_name = active_name,
     last_updated = 1000, po_auth = authority_of_key [9] 0\<rparr>"

definition demo_auth_db :: auth_db where
  "demo_auth_db =
     \<lparr>perm_rows = perm_rows auth_initialize_database @ [(1, demo_owner), (2, demo_active)], perm_next = 3,
      usage_rows = [(0, 1000), (1, 1000)], usage_next = 2, link_rows = []\<rparr>"

lemma demo_auth_db_created:
  "\<exists>db. create_permission demo_auth_env 7 owner_name 0 (authority_of_key [8] 0) 0 auth_initialize_database =
       Inr (demo_owner, db) \<and>
     create_permission demo_auth_env 7 active_name 1 (authority_of_key [9] 0) 0 db = Inr (demo_active, demo_auth_db)"
  by (simp add: create_permission_def auth_initialize_database_def row_create_def perm_by_owner_def Let_def
      demo_owner_def demo_active_def demo_auth_db_def demo_auth_env_def permission_name_values fm_find_def)

lemma demo_auth_db_inv: "perm_inv demo_auth_db"
proof -
  obtain db where db: "create_permission demo_auth_env 7 owner_name 0 (authority_of_key [8] 0) 0
        auth_initialize_database = Inr (demo_owner, db)"
      "create_permission demo_auth_env 7 active_name 1 (authority_of_key [9] 0) 0 db = Inr (demo_active, demo_auth_db)"
    using demo_auth_db_created by blast
  have "fm_find (perm_rows auth_initialize_database) 0 \<noteq> None"
    by (simp add: auth_initialize_database_def fm_find_def)
  then have inv: "perm_inv db" using create_permission_inv [OF initialize_inv db(1)] by blast
  have "fm_find (perm_rows db) 1 = Some demo_owner"
    using create_permission_Inr(5) [OF db(1)] by (simp add: auth_initialize_database_def fm_find_def)
  from create_permission_inv [OF inv db(2) this] show ?thesis by (simp add: demo_owner_def)
qed

lemma demo_auth_db_find: "fm_find (perm_rows demo_auth_db) 1 = Some demo_owner"
  "fm_find (perm_rows demo_auth_db) 2 = Some demo_active"
  by (simp_all add: demo_auth_db_def auth_initialize_database_def fm_find_def)

section \<open>Properties\<close>

text \<open>
  C25. A permission satisfies another one exactly when both belong to the same account and the first is the
  second itself or one of its ancestors. The walk up the parents always ends and never leaves the table.
\<close>

theorem satisfies_is_ancestor:
  assumes "perm_inv db" "fm_find (perm_rows db) i = Some p" "fm_find (perm_rows db) j = Some other"
  shows "satisfies db p other = Inr (po_owner p = po_owner other \<and> ancestor (perm_rows db) i j)"
  using assms by (rule satisfies_spec)

theorem satisfies_is_ancestor_witness: "satisfies demo_auth_db demo_owner demo_active = Inr True"
proof -
  have "ancestor (perm_rows demo_auth_db) 1 2"
    by (rule ancestor_parent [OF demo_auth_db_find(2)]) (simp add: demo_active_def ancestor_self)
  then show ?thesis
    using satisfies_is_ancestor [OF demo_auth_db_inv demo_auth_db_find] by (simp add: demo_owner_def demo_active_def)
qed

text \<open>
  C2. A transaction that passes the authorization check is authorized. Every authorization that one of its
  actions declares was satisfied before or follows from the provided keys, permissions and the delay of the
  action, and the declared permission satisfies the permission that the action requires. That is the permission
  linked to the action, and for the native actions the one that \<^verbatim>\<open>updateauth\<close> changes (the parent where it
  creates one), that \<^verbatim>\<open>deleteauth\<close> deletes, that is linked to the action of \<^verbatim>\<open>linkauth\<close> and \<^verbatim>\<open>unlinkauth\<close>, or
  that \<^verbatim>\<open>canceldelay\<close> names; these actions declare that one authorization only.
\<close>

theorem check_authorization_sound:
  assumes "check_authorization env db acts ks perms delay checktime allow sat = Inr ()"
    and "act \<in> set acts" "a \<in> set (act_authorization act)"
  shows "\<exists>special d. special_case env db (effective_delay env delay) act = Inr (special, d) \<and>
    (a \<in> set sat \<or> perm_sat (make_auth_checker env db ks perms d) a) \<and>
    (special \<longrightarrow> act_authorization act = [a]) \<and>
    (\<forall>m. required_permission env db act a = Some m \<longrightarrow> strong_enough db a m)"
  using assms by (rule check_authorization_required)

theorem check_authorization_sound_witness:
  "perm_sat (make_auth_checker demo_auth_env demo_auth_db [[9]] [] 0) (7, active_name)"
proof -
  let ?act = "\<lparr>act_account = 20, act_name = 21, act_authorization = [(7, active_name)], act_data = []\<rparr>"
  have perm: "get_permission demo_auth_db (7, active_name) = Inr demo_active"
    by (simp add: get_permission_def perm_by_owner_def demo_auth_db_def auth_initialize_database_def
        demo_owner_def demo_active_def permission_name_values)
  have sat: "satisfies demo_auth_db demo_active demo_active = Inr True" by (simp add: satisfies_def)
  have "visit_account (make_auth_checker demo_auth_env demo_auth_db [[9]] [] 0) (Suc n) 0
      \<lparr>plw_permission = (7, active_name), plw_weight = 1\<rparr> \<lparr>used_keys = [False], cached_permissions = []\<rparr> =
      Inr (1, \<lparr>used_keys = [True], cached_permissions = [((7, active_name), Permission_satisfied)]\<rparr>)" for n
    using perm
    by (simp add: visit_account.simps permission_status_in_cache_def make_auth_checker_def demo_active_def
        authority_of_key_def meta_permissions_def cache_emplace_def visit_key_def Let_def)
  from this [of 5] have ok: "satisfied_permission_delay (make_auth_checker demo_auth_env demo_auth_db [[9]] [] 0)
      (7, active_name) 0 [False] = Inr (True, [True])"
    by (simp add: satisfied_permission_delay_def satisfied_permission_def make_auth_checker_def
        initialize_permission_cache_def demo_auth_env_def)
  have sys: "20 \<noteq> system_account_name" by (simp add: system_account_name_value)
  have eff: "effective_delay demo_auth_env 0 = 0" by (simp add: effective_delay_def demo_auth_env_def)
  have minimum: "lookup_minimum_permission demo_auth_db 7 20 21 = Inr (Some active_name)"
    using sys by (simp add: lookup_minimum_permission_def lookup_linked_permission_def demo_auth_db_def)
  have asserted: "assert_satisfies demo_auth_db (7, active_name) demo_active = Inr ()"
    using perm sat by (simp add: assert_satisfies_def)
  have act: "check_action demo_auth_env demo_auth_db (\<lambda>_. Inr ()) [] 0 ?act (0, []) = Inr (1, [((7, active_name), 0)])"
    using perm minimum asserted sys by (simp add: check_action_def special_case_def check_declared_def note_permission_def)
  have init: "checker_init (make_auth_checker demo_auth_env demo_auth_db [[9]] [] 0) = [False]"
    by (simp add: checker_init_def make_auth_checker_def)
  have "check_authorization demo_auth_env demo_auth_db [?act] [[9]] [] 0 (\<lambda>_. Inr ()) False [] = Inr ()"
    using act ok init by (simp add: check_authorization_def check_satisfied_def all_keys_used_def eff)
  from check_authorization_sound [OF this, of ?act "(7, active_name)"] show ?thesis
    using sys by (auto simp: special_case_def eff)
qed

end
