(* ===== verification/Resource_Limits.thy ===== *)
theory Resource_Limits
  imports Block_Header
begin

text \<open>
  The resource limits manager (\<^verbatim>\<open>resource_limits.cpp\<close>, \<^verbatim>\<open>resource_limits_private.hpp\<close>): the moving averages
  of the CPU and NET use of accounts and blocks, the elastic block limits, the limits of the accounts and
  their memory use. The index \<^verbatim>\<open>by_owner\<close> of the limits orders rows by \<^verbatim>\<open>(pending, owner)\<close>; its rows that
  are not pending and its pending rows are kept in two maps by owner.
\<close>

section \<open>Model\<close>

record ratio =
  numerator :: u64
  denominator :: u64

record elastic_limit_parameters =
  target :: u64
  lim_max :: u64
  periods :: u32
  max_multiplier :: u32
  contract_rate :: ratio
  expand_rate :: ratio

record account_resource_limit =
  used :: i64
  available :: i64
  arl_max :: i64

record usage_accumulator =
  last_ordinal :: u32
  value_ex :: u64
  consumed :: u64

record resource_limits_object =
  net_weight :: i64
  cpu_weight :: i64
  ram_bytes :: i64

record resource_usage_object =
  net_usage :: usage_accumulator
  cpu_usage :: usage_accumulator
  ram_usage :: u64

record resource_limits_config_object =
  cpu_limit_parameters :: elastic_limit_parameters
  net_limit_parameters :: elastic_limit_parameters
  account_cpu_usage_average_window :: u32
  account_net_usage_average_window :: u32

record resource_limits_state_object =
  average_block_net_usage :: usage_accumulator
  average_block_cpu_usage :: usage_accumulator
  pending_net_usage :: u64
  pending_cpu_usage :: u64
  total_net_weight :: u64
  total_cpu_weight :: u64
  total_ram_bytes :: u64
  virtual_net_limit :: u64
  virtual_cpu_limit :: u64

record resource_limits =
  rl_limits :: "(account_name, resource_limits_object) flat_map"
  rl_pending :: "(account_name, resource_limits_object) flat_map"
  rl_usage :: "(account_name, resource_usage_object) flat_map"
  rl_state :: resource_limits_state_object
  rl_config :: resource_limits_config_object

abbreviation u64_max :: u64 where
  "u64_max \<equiv> - 1"

definition rate_limiting_precision :: u64 where
  "rate_limiting_precision = 1000000"

text \<open>\<^verbatim>\<open>operator*\<close> of a value and a ratio; a zero denominator divides by zero.\<close>

definition ratio_mult :: "u64 \<Rightarrow> ratio \<Rightarrow> u64 result" where
  "ratio_mult v r =
     eos_assert (numerator r = 0 \<or> v \<le> u64_max div numerator r) Rate_limiting_state_inconsistent (
     eos_assert (denominator r \<noteq> 0) Undefined_behaviour (
     Inr (v * numerator r div denominator r)))"

definition integer_divide_ceil :: "'a::len word \<Rightarrow> 'a word \<Rightarrow> 'a word" where
  "integer_divide_ceil num den = num div den + (if 0 < num mod den then 1 else 0)"

text \<open>The two instances of \<^verbatim>\<open>downgrade_cast\<close>, from 128 bits to unsigned and to signed 64 bits.\<close>

definition downgrade_cast_u64 :: "u128 \<Rightarrow> u64 result" where
  "downgrade_cast_u64 v =
     eos_assert (v \<le> 0xFFFFFFFFFFFFFFFF) Rate_limiting_state_inconsistent (Inr (ucast v))"

definition downgrade_cast_i64 :: "u128 \<Rightarrow> i64 result" where
  "downgrade_cast_i64 v =
     eos_assert (v \<le> 0x7FFFFFFFFFFFFFFF) Rate_limiting_state_inconsistent (Inr (ucast v))"

definition accumulator_init :: usage_accumulator where
  "accumulator_init = \<lparr>last_ordinal = 0, value_ex = 0, consumed = 0\<rparr>"

definition accumulator_average :: "usage_accumulator \<Rightarrow> u64" where
  "accumulator_average a = integer_divide_ceil (value_ex a) rate_limiting_precision"

text \<open>The branch of \<^verbatim>\<open>add\<close> for a new period: the old average decays, or is forgotten after a whole window.\<close>

definition accumulator_decay :: "usage_accumulator \<Rightarrow> u32 \<Rightarrow> u32 \<Rightarrow> usage_accumulator result" where
  "accumulator_decay a ordinal window_size =
     eos_assert (last_ordinal a < ordinal) Resource_limit_exception (
     rbind (if (ucast ordinal :: u64) < ucast (last_ordinal a) + ucast window_size
            then (let delta = ordinal - last_ordinal a
                  in ratio_mult (value_ex a)
                       \<lparr>numerator = ucast window_size - ucast delta,
                        denominator = ucast window_size\<rparr>)
            else Inr 0) (\<lambda>v.
     let a' = a\<lparr>value_ex := v, last_ordinal := ordinal\<rparr>
     in Inr (a'\<lparr>consumed := accumulator_average a'\<rparr>)))"

definition accumulator_add ::
  "u64 \<Rightarrow> u32 \<Rightarrow> u32 \<Rightarrow> usage_accumulator \<Rightarrow> usage_accumulator result" where
  "accumulator_add units ordinal window_size a =
     eos_assert (units \<le> u64_max div rate_limiting_precision) Rate_limiting_state_inconsistent (
     eos_assert (units \<le> u64_max - consumed a) Rate_limiting_state_inconsistent (
     eos_assert (window_size \<noteq> 0) Undefined_behaviour (
     rbind (downgrade_cast_u64 (integer_divide_ceil
              (ucast units * ucast rate_limiting_precision)
              (ucast window_size))) (\<lambda>value_ex_contrib.
     eos_assert (value_ex_contrib \<le> u64_max - value_ex a) Rate_limiting_state_inconsistent (
     rbind (if last_ordinal a \<noteq> ordinal then accumulator_decay a ordinal window_size else Inr a) (\<lambda>a'.
     Inr (a'\<lparr>consumed := consumed a' + units, value_ex := value_ex a' + value_ex_contrib\<rparr>)))))))"

definition update_elastic_limit :: "u64 \<Rightarrow> u64 \<Rightarrow> elastic_limit_parameters \<Rightarrow> u64 result" where
  "update_elastic_limit current_limit average_usage params =
     rbind (if target params < average_usage
            then ratio_mult current_limit (contract_rate params)
            else ratio_mult current_limit (expand_rate params)) (\<lambda>r.
     Inr (min (max r (lim_max params)) (lim_max params * ucast (max_multiplier params))))"

definition elastic_validate :: "elastic_limit_parameters \<Rightarrow> unit result" where
  "elastic_validate p =
     eos_assert (0 < periods p) Resource_limit_exception (
     eos_assert (0 < denominator (contract_rate p)) Resource_limit_exception (
     eos_assert (0 < denominator (expand_rate p)) Resource_limit_exception (Inr ())))"

definition update_virtual_cpu_limit ::
  "resource_limits_config_object \<Rightarrow> resource_limits_state_object \<Rightarrow> resource_limits_state_object result" where
  "update_virtual_cpu_limit cfg st =
     rbind (update_elastic_limit (virtual_cpu_limit st) (accumulator_average (average_block_cpu_usage st))
              (cpu_limit_parameters cfg)) (\<lambda>v.
     Inr (st\<lparr>virtual_cpu_limit := v\<rparr>))"

definition update_virtual_net_limit ::
  "resource_limits_config_object \<Rightarrow> resource_limits_state_object \<Rightarrow> resource_limits_state_object result" where
  "update_virtual_net_limit cfg st =
     rbind (update_elastic_limit (virtual_net_limit st) (accumulator_average (average_block_net_usage st))
              (net_limit_parameters cfg)) (\<lambda>v.
     Inr (st\<lparr>virtual_net_limit := v\<rparr>))"

text \<open>The default member values of the rows, from \<^verbatim>\<open>config.hpp\<close>.\<close>

definition eos_percent :: "u64 \<Rightarrow> u32 \<Rightarrow> u64" where
  "eos_percent v percentage = v * ucast percentage div 10000"

definition default_elastic_parameters :: "u64 \<Rightarrow> u32 \<Rightarrow> elastic_limit_parameters" where
  "default_elastic_parameters max_usage window_ms =
     \<lparr>target = eos_percent max_usage 1000, lim_max = max_usage, periods = window_ms div 500,
      max_multiplier = 1000, contract_rate = \<lparr>numerator = 99, denominator = 100\<rparr>,
      expand_rate = \<lparr>numerator = 1000, denominator = 999\<rparr>\<rparr>"

definition default_config :: resource_limits_config_object where
  "default_config =
     \<lparr>cpu_limit_parameters = default_elastic_parameters 200000 60000,
      net_limit_parameters = default_elastic_parameters 1048576 60000,
      account_cpu_usage_average_window = 86400000 div 500,
      account_net_usage_average_window = 86400000 div 500\<rparr>"

definition limits_object_init :: resource_limits_object where
  "limits_object_init = \<lparr>net_weight = -1, cpu_weight = -1, ram_bytes = -1\<rparr>"

definition usage_object_init :: resource_usage_object where
  "usage_object_init = \<lparr>net_usage = accumulator_init, cpu_usage = accumulator_init, ram_usage = 0\<rparr>"

definition initialize_database :: resource_limits where
  "initialize_database =
     \<lparr>rl_limits = [], rl_pending = [], rl_usage = [],
      rl_state =
        \<lparr>average_block_net_usage = accumulator_init, average_block_cpu_usage = accumulator_init,
         pending_net_usage = 0, pending_cpu_usage = 0, total_net_weight = 0, total_cpu_weight = 0,
         total_ram_bytes = 0, virtual_net_limit = lim_max (net_limit_parameters default_config),
         virtual_cpu_limit = lim_max (cpu_limit_parameters default_config)\<rparr>,
      rl_config = default_config\<rparr>"

definition initialize_account :: "account_name \<Rightarrow> resource_limits \<Rightarrow> resource_limits result" where
  "initialize_account account s =
     rbind (row_create (rl_limits s) account limits_object_init) (\<lambda>limits.
     rbind (row_create (rl_usage s) account usage_object_init) (\<lambda>usage.
     Inr (s\<lparr>rl_limits := limits, rl_usage := usage\<rparr>)))"

definition set_block_parameters ::
  "elastic_limit_parameters \<Rightarrow> elastic_limit_parameters \<Rightarrow> resource_limits \<Rightarrow> resource_limits result" where
  "set_block_parameters cpu net s =
     rbind (elastic_validate cpu) (\<lambda>_.
     rbind (elastic_validate net) (\<lambda>_.
     let config = rl_config s
     in if cpu_limit_parameters config = cpu \<and> net_limit_parameters config = net then Inr s
        else Inr (s\<lparr>rl_config := config\<lparr>cpu_limit_parameters := cpu, net_limit_parameters := net\<rparr>\<rparr>)))"

text \<open>The modifier of one usage row, shared by the two loops over the accounts of a transaction.\<close>

definition usage_add ::
  "resource_limits_config_object \<Rightarrow> u64 \<Rightarrow> u64 \<Rightarrow> u32 \<Rightarrow> resource_usage_object \<Rightarrow>
     resource_usage_object result" where
  "usage_add config cpu net time_slot bu =
     rbind (accumulator_add net time_slot (account_net_usage_average_window config) (net_usage bu)) (\<lambda>n.
     rbind (accumulator_add cpu time_slot (account_cpu_usage_average_window config) (cpu_usage bu)) (\<lambda>c.
     Inr (bu\<lparr>net_usage := n, cpu_usage := c\<rparr>)))"

definition update_account_usage ::
  "account_name list \<Rightarrow> u32 \<Rightarrow> resource_limits \<Rightarrow> resource_limits result" where
  "update_account_usage accounts time_slot s =
     rfold (\<lambda>a s.
       rbind (row_get (rl_usage s) a) (\<lambda>usage.
       rbind (usage_add (rl_config s) 0 0 time_slot usage) (\<lambda>usage'.
       Inr (s\<lparr>rl_usage := fm_set (rl_usage s) a usage'\<rparr>)))) accounts s"

definition get_account_limits :: "resource_limits \<Rightarrow> account_name \<Rightarrow> resource_limits_object result" where
  "get_account_limits s account =
     (case fm_find (rl_pending s) account of
        Some buo \<Rightarrow> Inr buo
      | None \<Rightarrow> row_get (rl_limits s) account)"

text \<open>What a user may use in the window, computed with 128 bits.\<close>

definition max_user_use_in_window :: "u64 \<Rightarrow> u32 \<Rightarrow> i64 \<Rightarrow> u64 \<Rightarrow> u128" where
  "max_user_use_in_window virtual_limit window_size weight total_now =
     ucast virtual_limit * ucast window_size * ucast weight
       div ucast total_now"

definition used_in_window :: "usage_accumulator \<Rightarrow> u32 \<Rightarrow> u128" where
  "used_in_window a window_size =
     ucast (value_ex a) * ucast window_size
       div ucast rate_limiting_precision"

definition within_limit :: "i64 \<Rightarrow> u64 \<Rightarrow> u64 \<Rightarrow> u32 \<Rightarrow> usage_accumulator \<Rightarrow> bool" where
  "within_limit weight total_now virtual_limit window_size a \<longleftrightarrow>
     (0 \<le> sint weight \<and> 0 < total_now \<longrightarrow>
      used_in_window a window_size \<le> max_user_use_in_window virtual_limit window_size weight total_now)"

definition bill_account ::
  "u64 \<Rightarrow> u64 \<Rightarrow> u32 \<Rightarrow> account_name \<Rightarrow> resource_limits \<Rightarrow> resource_limits result" where
  "bill_account cpu net time_slot a s =
     (let st = rl_state s; config = rl_config s
      in rbind (row_get (rl_usage s) a) (\<lambda>usage.
         rbind (get_account_limits s a) (\<lambda>limits.
         rbind (usage_add config cpu net time_slot usage) (\<lambda>usage'.
         eos_assert (within_limit (cpu_weight limits) (total_cpu_weight st) (virtual_cpu_limit st)
                       (account_cpu_usage_average_window config) (cpu_usage usage')) Tx_cpu_usage_exceeded (
         eos_assert (within_limit (net_weight limits) (total_net_weight st) (virtual_net_limit st)
                       (account_net_usage_average_window config) (net_usage usage')) Tx_net_usage_exceeded (
         Inr (s\<lparr>rl_usage := fm_set (rl_usage s) a usage'\<rparr>)))))))"

definition add_transaction_usage ::
  "account_name list \<Rightarrow> u64 \<Rightarrow> u64 \<Rightarrow> u32 \<Rightarrow> resource_limits \<Rightarrow> resource_limits result" where
  "add_transaction_usage accounts cpu net time_slot s =
     rbind (rfold (bill_account cpu net time_slot) accounts s) (\<lambda>s'.
     let st = rl_state s';
         st' = st\<lparr>pending_cpu_usage := pending_cpu_usage st + cpu,
                  pending_net_usage := pending_net_usage st + net\<rparr>
     in eos_assert (pending_cpu_usage st' \<le> lim_max (cpu_limit_parameters (rl_config s')))
          Block_resource_exhausted (
        eos_assert (pending_net_usage st' \<le> lim_max (net_limit_parameters (rl_config s')))
          Block_resource_exhausted (
        Inr (s'\<lparr>rl_state := st'\<rparr>))))"

text \<open>The negation of the least 64-bit integer overflows.\<close>

definition add_pending_ram_usage ::
  "account_name \<Rightarrow> i64 \<Rightarrow> resource_limits \<Rightarrow> resource_limits result" where
  "add_pending_ram_usage account ram_delta s =
     (if ram_delta = 0 then Inr s
      else
        rbind (row_get (rl_usage s) account) (\<lambda>usage.
        eos_assert (sint ram_delta \<le> 0 \<or> ram_delta \<le> u64_max - ram_usage usage) Transaction_exception (
        eos_assert (sint ram_delta \<noteq> - (2 ^ 63)) Undefined_behaviour (
        eos_assert (0 \<le> sint ram_delta \<or> - ram_delta \<le> ram_usage usage) Transaction_exception (
        Inr (s\<lparr>rl_usage := fm_set (rl_usage s) account
                 (usage\<lparr>ram_usage := ram_usage usage + ram_delta\<rparr>)\<rparr>))))))"

definition verify_account_ram_usage :: "resource_limits \<Rightarrow> account_name \<Rightarrow> unit result" where
  "verify_account_ram_usage s account =
     rbind (get_account_limits s account) (\<lambda>limits.
     rbind (row_get (rl_usage s) account) (\<lambda>usage.
     if 0 \<le> sint (ram_bytes limits)
     then eos_assert (ram_usage usage \<le> ram_bytes limits) Ram_usage_exceeded (Inr ())
     else Inr ()))"

definition get_account_ram_usage :: "resource_limits \<Rightarrow> account_name \<Rightarrow> i64 result" where
  "get_account_ram_usage s account = rbind (row_get (rl_usage s) account) (\<lambda>usage. Inr (ram_usage usage))"

definition set_account_limits ::
  "account_name \<Rightarrow> i64 \<Rightarrow> i64 \<Rightarrow> i64 \<Rightarrow> resource_limits \<Rightarrow> (resource_limits \<times> bool) result" where
  "set_account_limits account ram net cpu s =
     rbind (case fm_find (rl_pending s) account of
              None \<Rightarrow> row_get (rl_limits s) account
            | Some pending_limits \<Rightarrow> Inr pending_limits) (\<lambda>limits.
     let decreased_limit =
           (if 0 \<le> sint ram then sint (ram_bytes limits) < 0 \<or> sint ram < sint (ram_bytes limits) else False)
     in Inr (s\<lparr>rl_pending := fm_set (rl_pending s) account
                 (limits\<lparr>ram_bytes := ram, net_weight := net, cpu_weight := cpu\<rparr>)\<rparr>, decreased_limit))"

text \<open>The lambda \<^verbatim>\<open>update_state_and_value\<close>; the new value of the row is \<open>pending_value\<close>.\<close>

definition update_total :: "u64 \<Rightarrow> i64 \<Rightarrow> i64 \<Rightarrow> u64 result" where
  "update_total total_now old pending_value =
     rbind (if 0 < sint old
            then eos_assert (old \<le> total_now) Rate_limiting_state_inconsistent (Inr (total_now - old))
            else Inr total_now) (\<lambda>total_now'.
     if 0 < sint pending_value
     then eos_assert (pending_value \<le> u64_max - total_now') Rate_limiting_state_inconsistent
            (Inr (total_now' + pending_value))
     else Inr total_now')"

text \<open>One round of the loop of \<^verbatim>\<open>process_account_limit_updates\<close>, for the first pending row.\<close>

definition apply_pending ::
  "account_name \<times> resource_limits_object \<Rightarrow> resource_limits \<Rightarrow> resource_limits result" where
  "apply_pending e s =
     (let (a, itr) = e; st = rl_state s
      in rbind (row_get (rl_limits s) a) (\<lambda>rlo.
         rbind (update_total (total_ram_bytes st) (ram_bytes rlo) (ram_bytes itr)) (\<lambda>ram.
         rbind (update_total (total_cpu_weight st) (cpu_weight rlo) (cpu_weight itr)) (\<lambda>cpu.
         rbind (update_total (total_net_weight st) (net_weight rlo) (net_weight itr)) (\<lambda>net.
         Inr (s\<lparr>rl_limits := fm_set (rl_limits s) a
                   (rlo\<lparr>ram_bytes := ram_bytes itr, cpu_weight := cpu_weight itr, net_weight := net_weight itr\<rparr>),
                rl_pending := fm_erase (rl_pending s) a,
                rl_state := st\<lparr>total_ram_bytes := ram, total_cpu_weight := cpu, total_net_weight := net\<rparr>\<rparr>))))))"

definition process_account_limit_updates :: "resource_limits \<Rightarrow> resource_limits result" where
  "process_account_limit_updates s = rfold apply_pending (rl_pending s) s"

definition process_block_usage :: "u32 \<Rightarrow> resource_limits \<Rightarrow> resource_limits result" where
  "process_block_usage num s =
     (let st = rl_state s; config = rl_config s
      in rbind (accumulator_add (pending_cpu_usage st) num (periods (cpu_limit_parameters config))
                  (average_block_cpu_usage st)) (\<lambda>c.
         rbind (update_virtual_cpu_limit config (st\<lparr>average_block_cpu_usage := c\<rparr>)) (\<lambda>st1.
         let st2 = st1\<lparr>pending_cpu_usage := 0\<rparr>
         in rbind (accumulator_add (pending_net_usage st2) num (periods (net_limit_parameters config))
                     (average_block_net_usage st2)) (\<lambda>n.
            rbind (update_virtual_net_limit config (st2\<lparr>average_block_net_usage := n\<rparr>)) (\<lambda>st3.
            Inr (s\<lparr>rl_state := st3\<lparr>pending_net_usage := 0\<rparr>\<rparr>))))))"

definition get_virtual_block_cpu_limit :: "resource_limits \<Rightarrow> u64" where
  "get_virtual_block_cpu_limit s = virtual_cpu_limit (rl_state s)"

definition get_virtual_block_net_limit :: "resource_limits \<Rightarrow> u64" where
  "get_virtual_block_net_limit s = virtual_net_limit (rl_state s)"

definition get_block_cpu_limit :: "resource_limits \<Rightarrow> u64" where
  "get_block_cpu_limit s =
     lim_max (cpu_limit_parameters (rl_config s)) - pending_cpu_usage (rl_state s)"

definition get_block_net_limit :: "resource_limits \<Rightarrow> u64" where
  "get_block_net_limit s =
     lim_max (net_limit_parameters (rl_config s)) - pending_net_usage (rl_state s)"

text \<open>The computation that \<^verbatim>\<open>get_account_cpu_limit_ex\<close> and \<^verbatim>\<open>get_account_net_limit_ex\<close> do for their
  resource.\<close>

definition account_limit_ex ::
  "i64 \<Rightarrow> u64 \<Rightarrow> u64 \<Rightarrow> u64 \<Rightarrow> u32 \<Rightarrow> u32 \<Rightarrow> usage_accumulator \<Rightarrow> (account_resource_limit \<times> bool) result" where
  "account_limit_ex weight total_now virtual_limit block_max window_size greylist_limit a =
     (if sint weight < 0 \<or> total_now = 0 then Inr (\<lparr>used = -1, available = -1, arl_max = -1\<rparr>, False)
      else
        (let greylisted_limit = block_max * ucast greylist_limit;
             greylisted = greylisted_limit < virtual_limit;
             max_use = max_user_use_in_window (if greylisted then greylisted_limit else virtual_limit)
                         window_size weight total_now;
             used_now = integer_divide_ceil (ucast (value_ex a) * ucast window_size)
                          (ucast rate_limiting_precision)
         in rbind (if max_use \<le> used_now then Inr 0 else downgrade_cast_i64 (max_use - used_now)) (\<lambda>av.
            rbind (downgrade_cast_i64 used_now) (\<lambda>us.
            rbind (downgrade_cast_i64 max_use) (\<lambda>mx.
            Inr (\<lparr>used = us, available = av, arl_max = mx\<rparr>, greylisted))))))"

definition get_account_cpu_limit_ex ::
  "resource_limits \<Rightarrow> account_name \<Rightarrow> u32 \<Rightarrow> (account_resource_limit \<times> bool) result" where
  "get_account_cpu_limit_ex s account greylist_limit =
     rbind (row_get (rl_usage s) account) (\<lambda>usage.
     rbind (get_account_limits s account) (\<lambda>limits.
     account_limit_ex (cpu_weight limits) (total_cpu_weight (rl_state s)) (virtual_cpu_limit (rl_state s))
       (lim_max (cpu_limit_parameters (rl_config s))) (account_cpu_usage_average_window (rl_config s))
       greylist_limit (cpu_usage usage)))"

definition get_account_net_limit_ex ::
  "resource_limits \<Rightarrow> account_name \<Rightarrow> u32 \<Rightarrow> (account_resource_limit \<times> bool) result" where
  "get_account_net_limit_ex s account greylist_limit =
     rbind (row_get (rl_usage s) account) (\<lambda>usage.
     rbind (get_account_limits s account) (\<lambda>limits.
     account_limit_ex (net_weight limits) (total_net_weight (rl_state s)) (virtual_net_limit (rl_state s))
       (lim_max (net_limit_parameters (rl_config s))) (account_net_usage_average_window (rl_config s))
       greylist_limit (net_usage usage)))"

definition get_account_cpu_limit ::
  "resource_limits \<Rightarrow> account_name \<Rightarrow> u32 \<Rightarrow> (i64 \<times> bool) result" where
  "get_account_cpu_limit s account greylist_limit =
     rbind (get_account_cpu_limit_ex s account greylist_limit) (\<lambda>(arl, greylisted).
     Inr (available arl, greylisted))"

definition get_account_net_limit ::
  "resource_limits \<Rightarrow> account_name \<Rightarrow> u32 \<Rightarrow> (i64 \<times> bool) result" where
  "get_account_net_limit s account greylist_limit =
     rbind (get_account_net_limit_ex s account greylist_limit) (\<lambda>(arl, greylisted).
     Inr (available arl, greylisted))"

end
