(* ===== verification/Resource_Usage.thy ===== *)
theory Resource_Usage
  imports Resource_Limits
begin

text \<open>
  What the resource limits manager guarantees: the 64 and 128 bit computations are the exact ones on
  naturals, the elastic limits stay in their range, the totals are the sums of the account limits in every
  reachable state, and a billed transaction keeps every account within its share.
\<close>

section \<open>Exact arithmetic\<close>

lemma unat_ucast_mod: "unat (ucast x :: 'b::len word) = unat x mod 2 ^ LENGTH('b)"
  by (simp add: unsigned_ucast_eq take_bit_eq_mod)

lemma unat_ucast_up:
  assumes "LENGTH('a) \<le> LENGTH('b)"
  shows "unat (ucast (x :: 'a::len word) :: 'b::len word) = unat x"
proof -
  have "unat x < 2 ^ LENGTH('b)"
    using less_le_trans [OF unat_bound [of x] power_increasing [OF assms, of "2::nat"]] by simp
  then show ?thesis by (simp add: unat_ucast_mod)
qed

lemma unat_max: "unat (- 1 :: 'a::len word) = 2 ^ LENGTH('a) - 1"
  by (simp add: unsigned_minus_1_eq_mask mask_eq_exp_minus_1)

lemma unat_max_minus: "unat (- 1 - x :: 'a::len word) = 2 ^ LENGTH('a) - 1 - unat x"
proof -
  have "x \<le> - 1" by simp
  then have "unat (- 1 - x) = unat (- 1 :: 'a word) - unat x" by (rule unat_sub)
  then show ?thesis by (simp add: unat_max)
qed

lemma le_max_minus_iff: "y \<le> - 1 - x \<longleftrightarrow> unat x + unat y < 2 ^ LENGTH('a)" for x :: "'a::len word"
proof -
  have "unat x < 2 ^ LENGTH('a)" by (rule unat_bound)
  then show ?thesis unfolding word_le_nat_alt unat_max_minus by linarith
qed

lemma nat_le_pred_iff: "a \<le> 2 ^ n - 1 \<longleftrightarrow> a < (2 ^ n :: nat)"
  using zero_less_power [of "2::nat" n] by linarith

lemma le_max_div_iff:
  fixes x y :: "'a::len word"
  assumes "y \<noteq> 0"
  shows "x \<le> - 1 div y \<longleftrightarrow> unat x * unat y < 2 ^ LENGTH('a)"
proof -
  have y: "0 < unat y" using assms by (simp add: word_unat_eq_iff)
  have "x \<le> - 1 div y \<longleftrightarrow> unat x \<le> (2 ^ LENGTH('a) - 1) div unat y"
    by (simp add: word_le_nat_alt unat_div unat_max)
  also have "\<dots> \<longleftrightarrow> unat x * unat y \<le> 2 ^ LENGTH('a) - 1"
    using y by (simp add: less_eq_div_iff_mult_less_eq)
  also have "\<dots> \<longleftrightarrow> unat x * unat y < 2 ^ LENGTH('a)"
    by (rule nat_le_pred_iff)
  finally show ?thesis .
qed

lemma unat_mult_small: "unat x * unat y < 2 ^ LENGTH('a) \<Longrightarrow> unat (x * y) = unat x * unat y"
  for x y :: "'a::len word"
  by (simp add: unat_mult_lem)

definition ceil_div :: "nat \<Rightarrow> nat \<Rightarrow> nat" where
  "ceil_div a b = a div b + (if 0 < a mod b then 1 else 0)"

lemma ceil_div_le: "ceil_div a b \<le> a"
proof (cases "b \<le> 1")
  case True
  then show ?thesis by (cases b) (auto simp: ceil_div_def)
next
  case False
  then show ?thesis
    by (cases "a = 0") (auto simp: ceil_div_def Suc_le_eq intro: div_less_dividend)
qed

lemma ceil_div_mono: "a \<le> b \<Longrightarrow> ceil_div a c \<le> ceil_div b c"
proof (cases "a div c = b div c")
  case True
  assume "a \<le> b"
  then have "a mod c \<le> b mod c"
    using True by (metis add_le_cancel_left div_mult_mod_eq)
  then show ?thesis using True by (auto simp: ceil_div_def)
next
  case False
  assume "a \<le> b"
  then have "a div c < b div c" using False div_le_mono [of a b c] by simp
  then show ?thesis by (auto simp: ceil_div_def)
qed

text \<open>The least number of units that covers \<open>a\<close>.\<close>

lemma ceil_div_covers: "0 < b \<Longrightarrow> ceil_div a b \<le> k \<longleftrightarrow> a \<le> k * b"
proof -
  assume b: "0 < b"
  have a: "a = a div b * b + a mod b" by simp
  have "a mod b < b" using b by simp
  show ?thesis
  proof (cases "a mod b = 0")
    case True
    then have eq: "a div b * b = a" by (simp add: mod_eq_0_iff_dvd)
    have "a div b \<le> k \<longleftrightarrow> a div b * b \<le> k * b" using b by simp
    then show ?thesis using True unfolding eq by (simp add: ceil_div_def)
  next
    case False
    have "a \<le> k * b \<longleftrightarrow> a div b < k"
    proof
      assume "a \<le> k * b"
      moreover have "a \<noteq> k * b" using False by auto
      ultimately have "a < k * b" by simp
      then show "a div b < k" using b by (simp add: div_less_iff_less_mult)
    next
      assume "a div b < k"
      then show "a \<le> k * b" using b by (simp add: div_less_iff_less_mult)
    qed
    then show ?thesis using False by (simp add: ceil_div_def Suc_le_eq)
  qed
qed

lemma unat_integer_divide_ceil: "unat (integer_divide_ceil a b) = ceil_div (unat a) (unat b)"
  for a b :: "'a::len word"
proof -
  have "unat a div unat b + (if 0 < unat a mod unat b then 1 else 0) < 2 ^ LENGTH('a)"
    using le_less_trans [OF ceil_div_le [of "unat a" "unat b"] unat_bound [of a]] by (simp add: ceil_div_def)
  moreover have "0 < a mod b \<longleftrightarrow> 0 < unat a mod unat b"
    by (simp add: word_less_nat_alt unat_mod)
  ultimately show ?thesis
    unfolding integer_divide_ceil_def ceil_div_def
    by (auto simp: unat_div unat_plus_small)
qed

lemma ratio_mult_Inr:
  "ratio_mult v r = Inr w \<longleftrightarrow>
     unat v * unat (numerator r) < 2 ^ 64 \<and> denominator r \<noteq> 0 \<and>
     unat w = unat v * unat (numerator r) div unat (denominator r)"
proof -
  have "numerator r = 0 \<or> v \<le> - 1 div numerator r \<longleftrightarrow> unat v * unat (numerator r) < 2 ^ 64"
    using le_max_div_iff [of "numerator r" v] by (cases "numerator r = 0") simp_all
  then show ?thesis
    using unat_mult_small [of v "numerator r"]
    by (auto simp: ratio_mult_def result_simps unat_div word_unat_eq_iff)
qed

lemma downgrade_cast_u64_Inr: "downgrade_cast_u64 v = Inr w \<longleftrightarrow> unat w = unat v"
proof (cases "unat v < 2 ^ 64")
  case True
  then have le: "v \<le> 0xFFFFFFFFFFFFFFFF" by (simp add: word_le_nat_alt)
  have "unat (ucast v :: u64) = unat v" using True by (simp add: unat_ucast_mod)
  then have "ucast v = w \<longleftrightarrow> unat w = unat v" by (metis word_unat_eq_iff)
  then show ?thesis using le by (simp add: downgrade_cast_u64_def)
next
  case False
  then have "\<not> v \<le> 0xFFFFFFFFFFFFFFFF" by (simp add: word_le_nat_alt)
  moreover have "unat w < 2 ^ 64" using unat_bound [of w] by simp
  then have "unat w \<noteq> unat v" using False by linarith
  ultimately show ?thesis by (simp add: downgrade_cast_u64_def)
qed

lemma sint_nonneg_small: "unat (w :: i64) < 2 ^ 63 \<Longrightarrow> sint w = int (unat w)"
proof -
  assume "unat w < 2 ^ 63"
  then have "int (unat w) < int (2 ^ 63)" unfolding of_nat_less_iff .
  then show ?thesis using sint_eq_uint_small [of w] by simp
qed

lemma unat_sint_nonneg: "0 \<le> sint (w :: i64) \<Longrightarrow> unat w = nat (sint w)"
proof -
  assume "0 \<le> sint w"
  then have "int (unat w) = sint w"
    using uint_of_int_small [of "sint w", where 'a = 64] sint_range(2) [of w] by simp
  then show ?thesis by (metis nat_int)
qed

lemma downgrade_cast_i64_Inr: "downgrade_cast_i64 v = Inr w \<longleftrightarrow> sint w = int (unat v)"
proof (cases "unat v < 2 ^ 63")
  case True
  then have le: "v \<le> 0x7FFFFFFFFFFFFFFF" by (simp add: word_le_nat_alt)
  have u: "unat (ucast v :: i64) = unat v" using True by (simp add: unat_ucast_mod)
  then have "sint (ucast v :: i64) = int (unat v)" using True sint_nonneg_small [of "ucast v"] by simp
  moreover have "w = ucast v" if "sint w = int (unat v)"
    using that unat_sint_nonneg [of w] u by (metis nat_int of_nat_0_le_iff word_unat_eq_iff)
  ultimately show ?thesis using le by (auto simp: downgrade_cast_i64_def)
next
  case False
  then have "\<not> v \<le> 0x7FFFFFFFFFFFFFFF" by (simp add: word_le_nat_alt)
  moreover have "sint w < 2 ^ 63" using sint_range(2) [of w] by simp
  moreover have "int (2 ^ 63) \<le> int (unat v)" using False unfolding of_nat_le_iff by (rule leI)
  ultimately have "\<not> v \<le> 0x7FFFFFFFFFFFFFFF" "sint w \<noteq> int (unat v)" by simp_all
  then show ?thesis by (simp add: downgrade_cast_i64_def)
qed

section \<open>The moving average\<close>

text \<open>The average of earlier periods that is left in period \<open>ordinal\<close>, as naturals.\<close>

definition decayed :: "usage_accumulator \<Rightarrow> u32 \<Rightarrow> u32 \<Rightarrow> nat" where
  "decayed a ordinal window_size =
     (if ordinal = last_ordinal a then unat (value_ex a)
      else if unat ordinal < unat (last_ordinal a) + unat window_size
      then unat (value_ex a) * (unat window_size - (unat ordinal - unat (last_ordinal a))) div unat window_size
      else 0)"

lemma decayed_le: "decayed a ordinal window_size \<le> unat (value_ex a)"
proof -
  have "v * (w - d) div w \<le> (v :: nat)" for v w d
    using div_le_mono [of "v * (w - d)" "v * w" w] by (cases "w = 0") simp_all
  then show ?thesis by (simp add: decayed_def)
qed

lemma accumulator_decay_Inr:
  assumes "accumulator_decay a ordinal window_size = Inr a'" "last_ordinal a \<noteq> ordinal"
  shows "unat (last_ordinal a) < unat ordinal" "last_ordinal a' = ordinal"
    "unat (value_ex a') = decayed a ordinal window_size"
    "unat (consumed a') = ceil_div (decayed a ordinal window_size) 1000000"
proof -
  have lt: "last_ordinal a < ordinal" using assms(1) by (auto simp: accumulator_decay_def result_simps)
  then show ord: "unat (last_ordinal a) < unat ordinal" by (simp add: word_less_nat_alt)
  let ?in = "(ucast ordinal :: u64) < ucast (last_ordinal a) + ucast window_size"
  let ?r = "\<lparr>numerator = ucast window_size - ucast (ordinal - last_ordinal a), denominator = ucast window_size\<rparr> :: ratio"
  have b: "unat (last_ordinal a) < 2 ^ 32" "unat window_size < 2 ^ 32"
    using unat_bound [of "last_ordinal a"] unat_bound [of window_size] by simp_all
  have "unat (ucast (last_ordinal a) + ucast window_size :: u64) = unat (last_ordinal a) + unat window_size"
    using b by (subst unat_plus_small) (simp_all add: unat_ucast_up)
  then have "in": "?in \<longleftrightarrow> unat ordinal < unat (last_ordinal a) + unat window_size"
    by (simp add: word_less_nat_alt unat_ucast_up)
  have delta: "unat (ordinal - last_ordinal a) = unat ordinal - unat (last_ordinal a)"
    using lt by (intro unat_sub) simp
  obtain v where v: "(if ?in then ratio_mult (value_ex a) ?r else Inr 0) = Inr v"
      and a': "a' = a\<lparr>value_ex := v, last_ordinal := ordinal,
        consumed := accumulator_average (a\<lparr>value_ex := v, last_ordinal := ordinal\<rparr>)\<rparr>"
    using assms(1) lt unfolding accumulator_decay_def Let_def by (auto simp: result_simps)
  have "unat v = decayed a ordinal window_size"
  proof (cases ?in)
    case True
    have "unat (numerator ?r) = unat window_size - (unat ordinal - unat (last_ordinal a))"
      using True ord delta unfolding "in" by (simp add: unat_sub word_le_nat_alt unat_ucast_up)
    then show ?thesis
      using v True ord unfolding "in" by (auto simp: ratio_mult_Inr decayed_def unat_ucast_up)
  next
    case False
    then show ?thesis using v ord unfolding "in" by (auto simp: decayed_def)
  qed
  then show "last_ordinal a' = ordinal" "unat (value_ex a') = decayed a ordinal window_size"
    "unat (consumed a') = ceil_div (decayed a ordinal window_size) 1000000"
    using a' by (simp_all add: accumulator_average_def unat_integer_divide_ceil rate_limiting_precision_def)
qed

lemma accumulator_add_Inr:
  assumes "accumulator_add units ordinal window_size a = Inr a'"
  shows "unat (last_ordinal a) \<le> unat ordinal" "last_ordinal a' = ordinal"
    "unat (value_ex a') = decayed a ordinal window_size + ceil_div (unat units * 1000000) (unat window_size)"
    "unat (consumed a') =
       (if ordinal = last_ordinal a then unat (consumed a)
        else ceil_div (decayed a ordinal window_size) 1000000) + unat units"
    "unat (value_ex a) + ceil_div (unat units * 1000000) (unat window_size) < 2 ^ 64"
proof -
  obtain c a1 where units: "units \<le> u64_max div rate_limiting_precision" "units \<le> u64_max - consumed a"
      and c: "downgrade_cast_u64 (integer_divide_ceil (ucast units * ucast rate_limiting_precision) (ucast window_size)) = Inr c"
      and room: "c \<le> u64_max - value_ex a"
      and a1: "(if last_ordinal a \<noteq> ordinal then accumulator_decay a ordinal window_size else Inr a) = Inr a1"
      and a': "a' = a1\<lparr>consumed := consumed a1 + units, value_ex := value_ex a1 + c\<rparr>"
    using assms by (auto simp: accumulator_add_def result_simps)
  have u: "unat units * 1000000 < 2 ^ 64" "unat (consumed a) + unat units < 2 ^ 64"
    using units le_max_div_iff [of rate_limiting_precision units] le_max_minus_iff [of units "consumed a"]
    by (simp_all add: rate_limiting_precision_def)
  have "unat (ucast units * ucast rate_limiting_precision :: u128) = unat units * 1000000"
    using u(1) by (subst unat_mult_small) (simp_all add: unat_ucast_up rate_limiting_precision_def)
  then have c': "unat c = ceil_div (unat units * 1000000) (unat window_size)"
    using c by (simp add: downgrade_cast_u64_Inr unat_integer_divide_ceil unat_ucast_up)
  show fits: "unat (value_ex a) + ceil_div (unat units * 1000000) (unat window_size) < 2 ^ 64"
    using room le_max_minus_iff [of c "value_ex a"] c' by simp
  have d: "unat (last_ordinal a) \<le> unat ordinal \<and> last_ordinal a1 = ordinal \<and>
      unat (value_ex a1) = decayed a ordinal window_size \<and>
      unat (consumed a1) = (if ordinal = last_ordinal a then unat (consumed a)
        else ceil_div (decayed a ordinal window_size) 1000000)"
  proof (cases "last_ordinal a = ordinal")
    case True
    then show ?thesis using a1 by (simp add: decayed_def)
  next
    case False
    then have "accumulator_decay a ordinal window_size = Inr a1" using a1 by simp
    from accumulator_decay_Inr [OF this False] False show ?thesis by auto
  qed
  have le: "decayed a ordinal window_size < 2 ^ 64"
    using le_less_trans [OF decayed_le unat_bound [of "value_ex a"]] by simp
  have "ceil_div (decayed a ordinal window_size) 1000000 \<le> 2 ^ 64 div 1000000 + 1"
    using div_le_mono [OF less_imp_le [OF le], of 1000000] unfolding ceil_div_def by simp
  moreover have "unat units \<le> 2 ^ 64 div 1000000" using u(1) by simp
  ultimately have "unat (consumed a1) + unat units < 2 ^ 64"
    using d u(2) by (cases "ordinal = last_ordinal a") simp_all
  moreover have "unat (value_ex a1) + unat c < 2 ^ 64"
    using d fits c' decayed_le [of a ordinal window_size] by linarith
  ultimately show "unat (last_ordinal a) \<le> unat ordinal" "last_ordinal a' = ordinal"
    "unat (value_ex a') = decayed a ordinal window_size + ceil_div (unat units * 1000000) (unat window_size)"
    "unat (consumed a') =
       (if ordinal = last_ordinal a then unat (consumed a)
        else ceil_div (decayed a ordinal window_size) 1000000) + unat units"
    using d c' a' by (simp_all add: unat_plus_small)
qed

text \<open>Adding amounts one after the other in the same period: the consumed amount is the average at the start of the
  period, or what was consumed in it before, plus the sum of the amounts.\<close>

lemma accumulator_adds_Inr:
  assumes "rfold (\<lambda>units. accumulator_add units ordinal window_size) us a = Inr a'" "us \<noteq> []"
  shows "unat (last_ordinal a) \<le> unat ordinal \<and> last_ordinal a' = ordinal \<and>
    unat (consumed a') =
      (if ordinal = last_ordinal a then unat (consumed a)
       else ceil_div (decayed a ordinal window_size) 1000000) + sum_list (map unat us)"
  using assms
proof (induction us arbitrary: a)
  case (Cons u us)
  obtain b where b: "accumulator_add u ordinal window_size a = Inr b"
      "rfold (\<lambda>units. accumulator_add units ordinal window_size) us b = Inr a'"
    using Cons.prems(1) by (auto simp: result_simps)
  note A = accumulator_add_Inr [OF b(1)]
  show ?case
  proof (cases "us = []")
    case True
    then show ?thesis using A b(2) by auto
  next
    case False
    then show ?thesis using A Cons.IH [OF b(2)] by auto
  qed
qed simp

section \<open>The elastic limits\<close>

lemma update_elastic_limit_bounds:
  assumes "update_elastic_limit cur avg p = Inr v" "1 \<le> unat (max_multiplier p)"
    "unat (lim_max p) * unat (max_multiplier p) < 2 ^ 64"
  shows "unat (lim_max p) \<le> unat v" "unat v \<le> unat (lim_max p) * unat (max_multiplier p)"
proof -
  have m: "unat (lim_max p * ucast (max_multiplier p)) = unat (lim_max p) * unat (max_multiplier p)"
    using assms(3) by (subst unat_mult_small) (simp_all add: unat_ucast_up)
  obtain r where v: "v = min (max r (lim_max p)) (lim_max p * ucast (max_multiplier p))"
    using assms(1) by (auto simp: update_elastic_limit_def result_simps split: if_splits)
  have "lim_max p \<le> lim_max p * ucast (max_multiplier p)"
    using assms(2) m by (simp add: word_le_nat_alt)
  then have "lim_max p \<le> v" "v \<le> lim_max p * ucast (max_multiplier p)" using v by simp_all
  then show "unat (lim_max p) \<le> unat v" "unat v \<le> unat (lim_max p) * unat (max_multiplier p)"
    using m by (simp_all add: word_le_nat_alt)
qed

text \<open>A limit in its range, with rates that contract and expand.\<close>

definition elastic_ok :: "elastic_limit_parameters \<Rightarrow> u64 \<Rightarrow> bool" where
  "elastic_ok p v \<longleftrightarrow>
     unat (lim_max p) * unat (max_multiplier p) < 2 ^ 64 \<and>
     unat (lim_max p) \<le> unat v \<and> unat v \<le> unat (lim_max p) * unat (max_multiplier p) \<and>
     numerator (contract_rate p) \<le> denominator (contract_rate p) \<and>
     denominator (expand_rate p) \<le> numerator (expand_rate p)"

text \<open>How a limit moves from \<open>v\<close> to \<open>v'\<close> on an average usage.\<close>

definition elastic_step :: "elastic_limit_parameters \<Rightarrow> u64 \<Rightarrow> u64 \<Rightarrow> u64 \<Rightarrow> bool" where
  "elastic_step p avg v v' \<longleftrightarrow>
     (target p < avg \<longrightarrow> unat v' \<le> unat v) \<and> (avg \<le> target p \<longrightarrow> unat v \<le> unat v') \<and>
     (let rate = (if target p < avg then contract_rate p else expand_rate p);
          w = unat v * unat (numerator rate) div unat (denominator rate)
      in unat (lim_max p) \<le> w \<and> w \<le> unat (lim_max p) * unat (max_multiplier p) \<longrightarrow> unat v' = w)"

lemma div_contract: "n \<le> d \<Longrightarrow> v * n div d \<le> (v :: nat)"
  by (metis div_le_dividend div_le_mono div_mult_self_is_m le_trans mult_le_mono2 neq0_conv div_by_0 le0)

lemma div_expand: "d \<le> n \<Longrightarrow> 0 < d \<Longrightarrow> (v :: nat) \<le> v * n div d"
  by (simp add: less_eq_div_iff_mult_less_eq)

lemma update_elastic_limit_step:
  assumes "update_elastic_limit v avg p = Inr v'" "elastic_ok p v"
  shows "elastic_step p avg v v'"
proof -
  define rate where "rate = (if target p < avg then contract_rate p else expand_rate p)"
  obtain r where r: "ratio_mult v rate = Inr r"
      and v': "v' = min (max r (lim_max p)) (lim_max p * ucast (max_multiplier p))"
    using assms(1) by (auto simp: update_elastic_limit_def result_simps rate_def split: if_splits)
  have w: "unat r = unat v * unat (numerator rate) div unat (denominator rate)" "denominator rate \<noteq> 0"
    using r by (simp_all add: ratio_mult_Inr)
  have "unat (lim_max p * ucast (max_multiplier p)) = unat (lim_max p) * unat (max_multiplier p)"
    using assms(2) by (subst unat_mult_small) (simp_all add: unat_ucast_up elastic_ok_def)
  then have v: "unat v' = min (max (unat r) (unat (lim_max p))) (unat (lim_max p) * unat (max_multiplier p))"
    using v' by (simp add: min_def max_def word_le_nat_alt)
  have "unat v' \<le> unat v" if "target p < avg"
    using that assms(2) v w div_contract [of "unat (numerator rate)" "unat (denominator rate)" "unat v"]
    by (simp add: rate_def elastic_ok_def word_le_nat_alt min_le_iff_disj)
  moreover have "unat v \<le> unat v'" if "avg \<le> target p"
  proof -
    have rate: "rate = expand_rate p" using that by (auto simp: rate_def)
    then have "unat v \<le> unat r"
      using assms(2) w div_expand [of "unat (denominator rate)" "unat (numerator rate)" "unat v"]
      by (simp add: elastic_ok_def word_le_nat_alt unat_gt_0)
    then show ?thesis using v assms(2) by (simp add: elastic_ok_def le_max_iff_disj)
  qed
  ultimately show ?thesis using v w(1) by (simp add: elastic_step_def rate_def [symmetric])
qed

section \<open>The invariant of the manager\<close>

definition positive_sum :: "('v \<Rightarrow> i64) \<Rightarrow> ('k \<times> 'v) list \<Rightarrow> nat" where
  "positive_sum f m = sum_list (map (\<lambda>(k, v). nat (sint (f v))) m)"

lemma positive_sum_simps [simp]:
  "positive_sum f [] = 0"
  "positive_sum f ((k, v) # m) = nat (sint (f v)) + positive_sum f m"
  by (simp_all add: positive_sum_def)

lemma positive_sum_set:
  "fm_wf m \<Longrightarrow> positive_sum f (fm_set m k v) + (case fm_find m k of None \<Rightarrow> 0 | Some w \<Rightarrow> nat (sint (f w))) =
     positive_sum f m + nat (sint (f v))"
proof (induction m k v rule: fm_set.induct)
  case (2 k' v' m k v)
  have none: "fm_find m k = None" if "k < k'"
    using "2.prems" that by (force simp: fm_wf_Cons fm_find_None_iff)
  then show ?case
    using 2 by (auto simp: fm_wf_Cons fm_find_def)
qed simp

lemma positive_sum_member: "fm_find m k = Some v \<Longrightarrow> nat (sint (f v)) \<le> positive_sum f m"
  by (induction m) (auto simp: fm_find_def split: if_splits)

definition elastic_valid :: "elastic_limit_parameters \<Rightarrow> bool" where
  "elastic_valid p \<longleftrightarrow> 0 < periods p \<and> 0 < denominator (contract_rate p) \<and> 0 < denominator (expand_rate p)"

lemma elastic_validate_Inr [simp]: "elastic_validate p = Inr u \<longleftrightarrow> elastic_valid p"
  by (auto simp: elastic_validate_def elastic_valid_def result_simps)

definition rl_inv :: "resource_limits \<Rightarrow> bool" where
  "rl_inv s \<longleftrightarrow>
     fm_wf (rl_limits s) \<and> fm_wf (rl_pending s) \<and> fm_wf (rl_usage s) \<and>
     fst ` set (rl_usage s) = fst ` set (rl_limits s) \<and>
     fst ` set (rl_pending s) \<subseteq> fst ` set (rl_limits s) \<and>
     unat (total_ram_bytes (rl_state s)) = positive_sum ram_bytes (rl_limits s) \<and>
     unat (total_cpu_weight (rl_state s)) = positive_sum cpu_weight (rl_limits s) \<and>
     unat (total_net_weight (rl_state s)) = positive_sum net_weight (rl_limits s) \<and>
     elastic_valid (cpu_limit_parameters (rl_config s)) \<and>
     elastic_valid (net_limit_parameters (rl_config s)) \<and>
     account_cpu_usage_average_window (rl_config s) \<noteq> 0 \<and>
     account_net_usage_average_window (rl_config s) \<noteq> 0"

lemma fm_set_key_set: "fst ` set (fm_set m k v) = insert k (fst ` set m)"
  using fm_set_keys [of m k v] by simp

lemma rl_inv_usage:
  assumes "rl_inv s" "fm_find (rl_usage s) a = Some u"
  shows "rl_inv (s\<lparr>rl_usage := fm_set (rl_usage s) a u'\<rparr>)"
proof -
  have "a \<in> fst ` set (rl_usage s)" using fm_find_SomeD [OF assms(2)] by force
  then show ?thesis
    using assms(1) fm_set_keys [of "rl_usage s" a u'] by (auto simp: rl_inv_def fm_wf_set)
qed

lemma fm_find_keys: "fm_find m k \<noteq> None \<longleftrightarrow> k \<in> fst ` set m"
  by (simp add: fm_find_None_iff)

lemma update_total_Inr:
  assumes "nat (sint old) \<le> unat total_now"
  shows "update_total total_now old new = Inr t \<longleftrightarrow>
    unat total_now - nat (sint old) + nat (sint new) < 2 ^ 64 \<and>
    unat t = unat total_now - nat (sint old) + nat (sint new)"
proof -
  let ?t = "if 0 < sint old then total_now - old else total_now"
  have old: "0 < sint old \<Longrightarrow> old \<le> total_now \<and> unat old = nat (sint old)"
    using assms unat_sint_nonneg [of old] by (simp add: word_le_nat_alt)
  then have t: "unat ?t = unat total_now - nat (sint old)" by (simp add: unat_sub)
  have step: "update_total total_now old new =
      (if 0 < sint new then eos_assert (new \<le> u64_max - ?t) Rate_limiting_state_inconsistent (Inr (?t + new))
       else Inr ?t)"
    using old by (simp add: update_total_def)
  show ?thesis
  proof (cases "0 < sint new")
    case True
    then have "unat new = nat (sint new)" by (simp add: unat_sint_nonneg)
    then show ?thesis
      using step True t le_max_minus_iff [of new ?t] unat_plus_small [of ?t new]
      by (auto simp: result_simps word_unat_eq_iff)
  next
    case False
    then show ?thesis using step t unat_bound [of ?t] by (auto simp: word_unat_eq_iff)
  qed
qed

lemma update_total_sum:
  assumes "fm_wf m" "fm_find m a = Some l" "unat total_now = positive_sum f m"
  shows "update_total total_now (f l) (f l') = Inr t \<longleftrightarrow>
    positive_sum f (fm_set m a l') < 2 ^ 64 \<and> unat t = positive_sum f (fm_set m a l')"
proof -
  have le: "nat (sint (f l)) \<le> unat total_now" using positive_sum_member [OF assms(2)] assms(3) by simp
  have "positive_sum f (fm_set m a l') + nat (sint (f l)) = positive_sum f m + nat (sint (f l'))"
    using positive_sum_set [OF assms(1), of f a l'] assms(2) by simp
  then have "positive_sum f (fm_set m a l') = unat total_now - nat (sint (f l)) + nat (sint (f l'))"
    using le assms(3) by linarith
  then show ?thesis using update_total_Inr [OF le] by simp
qed

lemma apply_pending_Inr:
  assumes "rl_inv s" "apply_pending (a, itr) s = Inr s'"
  shows "rl_inv s'" "rl_limits s' = fm_set (rl_limits s) a itr" "rl_pending s' = fm_erase (rl_pending s) a"
    "rl_usage s' = rl_usage s" "rl_config s' = rl_config s"
proof -
  obtain rlo ram cpu net where l: "fm_find (rl_limits s) a = Some rlo"
      and t: "update_total (total_ram_bytes (rl_state s)) (ram_bytes rlo) (ram_bytes itr) = Inr ram"
        "update_total (total_cpu_weight (rl_state s)) (cpu_weight rlo) (cpu_weight itr) = Inr cpu"
        "update_total (total_net_weight (rl_state s)) (net_weight rlo) (net_weight itr) = Inr net"
      and s': "s' = s\<lparr>rl_limits := fm_set (rl_limits s) a
                   (rlo\<lparr>ram_bytes := ram_bytes itr, cpu_weight := cpu_weight itr, net_weight := net_weight itr\<rparr>),
                rl_pending := fm_erase (rl_pending s) a,
                rl_state := (rl_state s)\<lparr>total_ram_bytes := ram, total_cpu_weight := cpu, total_net_weight := net\<rparr>\<rparr>"
    using assms(2) by (auto simp: apply_pending_def Let_def result_simps)
  have itr: "rlo\<lparr>ram_bytes := ram_bytes itr, cpu_weight := cpu_weight itr, net_weight := net_weight itr\<rparr> = itr"
    by simp
  show lim: "rl_limits s' = fm_set (rl_limits s) a itr" and pend: "rl_pending s' = fm_erase (rl_pending s) a"
    and use: "rl_usage s' = rl_usage s" and cfg: "rl_config s' = rl_config s"
    using s' by (simp_all add: itr)
  have inv: "fm_wf (rl_limits s)" "unat (total_ram_bytes (rl_state s)) = positive_sum ram_bytes (rl_limits s)"
      "unat (total_cpu_weight (rl_state s)) = positive_sum cpu_weight (rl_limits s)"
      "unat (total_net_weight (rl_state s)) = positive_sum net_weight (rl_limits s)"
    using assms(1) by (simp_all add: rl_inv_def)
  have tot: "unat ram = positive_sum ram_bytes (rl_limits s')" "unat cpu = positive_sum cpu_weight (rl_limits s')"
      "unat net = positive_sum net_weight (rl_limits s')"
    using t update_total_sum [OF inv(1) l inv(2)] update_total_sum [OF inv(1) l inv(3)]
      update_total_sum [OF inv(1) l inv(4)] unfolding lim by blast+
  have keys: "fst ` set (rl_limits s') = fst ` set (rl_limits s)"
    using fm_set_keys [of "rl_limits s" a itr] fm_find_SomeD [OF l] unfolding lim by force
  have "fst ` set (rl_pending s') \<subseteq> fst ` set (rl_pending s)"
    unfolding pend by (auto simp: fm_erase_def)
  then have sub: "fst ` set (rl_pending s') \<subseteq> fst ` set (rl_limits s)"
    using assms(1) unfolding rl_inv_def by (elim conjE) (rule subset_trans)
  have wf': "fm_wf (rl_limits s')" "fm_wf (rl_pending s')"
    using assms(1) lim pend by (simp_all add: rl_inv_def fm_wf_set fm_wf_erase)
  have st: "total_ram_bytes (rl_state s') = ram" "total_cpu_weight (rl_state s') = cpu"
      "total_net_weight (rl_state s') = net"
    using s' by simp_all
  show "rl_inv s'"
    using assms(1) tot sub wf' unfolding rl_inv_def use cfg st keys by simp
qed

lemma process_account_limit_updates_inv:
  assumes "rl_inv s" "process_account_limit_updates s = Inr s'"
  shows "rl_inv s'"
  using rfold_invariant [where P = rl_inv, OF assms(2) [unfolded process_account_limit_updates_def] assms(1)]
    apply_pending_Inr(1) by (metis surj_pair)

lemma bill_account_Inr:
  assumes "bill_account cpu net slot a s = Inr s'"
  shows "\<exists>u u' l. fm_find (rl_usage s) a = Some u \<and> get_account_limits s a = Inr l \<and>
    usage_add (rl_config s) cpu net slot u = Inr u' \<and>
    within_limit (cpu_weight l) (total_cpu_weight (rl_state s)) (virtual_cpu_limit (rl_state s))
      (account_cpu_usage_average_window (rl_config s)) (cpu_usage u') \<and>
    within_limit (net_weight l) (total_net_weight (rl_state s)) (virtual_net_limit (rl_state s))
      (account_net_usage_average_window (rl_config s)) (net_usage u') \<and>
    s' = s\<lparr>rl_usage := fm_set (rl_usage s) a u'\<rparr>"
  using assms by (auto simp: bill_account_def Let_def result_simps)

lemma update_account_usage_inv:
  assumes "rl_inv s" "update_account_usage accounts slot s = Inr s'"
  shows "rl_inv s'"
  using rfold_invariant [where P = rl_inv, OF assms(2) [unfolded update_account_usage_def] assms(1)] rl_inv_usage
  by (auto simp: result_simps)

lemma bill_accounts_inv:
  assumes "rl_inv s" "rfold (bill_account cpu net slot) accounts s = Inr s'"
  shows "rl_inv s'"
  using rfold_invariant [where P = rl_inv, OF assms(2,1)] rl_inv_usage bill_account_Inr by metis

lemma rl_inv_cong:
  assumes "rl_inv s" "rl_limits s' = rl_limits s" "rl_pending s' = rl_pending s" "rl_usage s' = rl_usage s"
    "rl_config s' = rl_config s"
    "total_ram_bytes (rl_state s') = total_ram_bytes (rl_state s)"
    "total_cpu_weight (rl_state s') = total_cpu_weight (rl_state s)"
    "total_net_weight (rl_state s') = total_net_weight (rl_state s)"
  shows "rl_inv s'"
  using assms(1) unfolding rl_inv_def assms(2-8) .

lemma add_transaction_usage_inv:
  assumes "rl_inv s" "add_transaction_usage accounts cpu net slot s = Inr s'"
  shows "rl_inv s'"
proof -
  obtain s1 where s1: "rfold (bill_account cpu net slot) accounts s = Inr s1"
      and s': "s' = s1\<lparr>rl_state := (rl_state s1)\<lparr>pending_cpu_usage := pending_cpu_usage (rl_state s1) + cpu,
                  pending_net_usage := pending_net_usage (rl_state s1) + net\<rparr>\<rparr>"
    using assms(2) by (auto simp: add_transaction_usage_def Let_def result_simps)
  show ?thesis by (rule rl_inv_cong [OF bill_accounts_inv [OF assms(1) s1]]) (simp_all add: s')
qed

lemma process_block_usage_inv:
  assumes "rl_inv s" "process_block_usage num s = Inr s'"
  shows "rl_inv s'"
  by (rule rl_inv_cong [OF assms(1)])
    (use assms(2) in \<open>auto simp: process_block_usage_def Let_def result_simps update_virtual_cpu_limit_def
       update_virtual_net_limit_def\<close>)

lemma initialize_account_inv:
  assumes "rl_inv s" "initialize_account a s = Inr s'"
  shows "rl_inv s'"
proof -
  have s': "fm_find (rl_limits s) a = None" "s' = s\<lparr>rl_limits := fm_set (rl_limits s) a limits_object_init,
      rl_usage := fm_set (rl_usage s) a usage_object_init\<rparr>"
    using assms(2) by (auto simp: initialize_account_def result_simps)
  have wf: "fm_wf (rl_limits s)" using assms(1) by (simp add: rl_inv_def)
  have "positive_sum f (fm_set (rl_limits s) a limits_object_init) = positive_sum f (rl_limits s)"
    if "f \<in> {ram_bytes, cpu_weight, net_weight}" for f
    using positive_sum_set [OF wf, of f a limits_object_init] s'(1) that by (auto simp: limits_object_init_def)
  then show ?thesis
    using assms(1) unfolding s'(2) rl_inv_def by (simp add: fm_wf_set fm_set_key_set) blast
qed

lemma set_account_limits_inv:
  assumes "rl_inv s" "set_account_limits a ram net cpu s = Inr (s', b)"
  shows "rl_inv s'"
proof -
  obtain l where s': "s' = s\<lparr>rl_pending := fm_set (rl_pending s) a l\<rparr>"
      and f: "fm_find (rl_pending s) a \<noteq> None \<or> fm_find (rl_limits s) a \<noteq> None"
    using assms(2) by (auto simp: set_account_limits_def Let_def result_simps split: option.splits)
  have "a \<in> fst ` set (rl_limits s)"
    using f assms(1) unfolding fm_find_keys rl_inv_def by blast
  then show ?thesis
    using assms(1) fm_set_keys [of "rl_pending s" a l] unfolding s' by (auto simp: rl_inv_def fm_wf_set)
qed

lemma add_pending_ram_usage_inv:
  assumes "rl_inv s" "add_pending_ram_usage a d s = Inr s'"
  shows "rl_inv s'"
  using assms(2) rl_inv_usage [OF assms(1)] assms(1)
  by (auto simp: add_pending_ram_usage_def result_simps split: if_splits)

lemma set_block_parameters_inv:
  assumes "rl_inv s" "set_block_parameters cpu net s = Inr s'"
  shows "rl_inv s'"
proof -
  have v: "elastic_valid cpu" "elastic_valid net"
      and s': "s' = s \<or> s' = s\<lparr>rl_config := (rl_config s)\<lparr>cpu_limit_parameters := cpu, net_limit_parameters := net\<rparr>\<rparr>"
    using assms(2) by (auto simp: set_block_parameters_def result_simps Let_def split: if_splits)
  then show ?thesis using assms(1) by (elim disjE) (simp_all add: rl_inv_def)
qed

text \<open>The operations of the manager as the transitions of one machine.\<close>

datatype rl_op =
    Initialize_account account_name
  | Set_block_parameters elastic_limit_parameters elastic_limit_parameters
  | Update_account_usage "account_name list" u32
  | Add_transaction_usage "account_name list" u64 u64 u32
  | Add_pending_ram_usage account_name i64
  | Set_account_limits account_name i64 i64 i64
  | Process_account_limit_updates
  | Process_block_usage u32

fun rl_exec :: "rl_op \<Rightarrow> resource_limits \<Rightarrow> resource_limits result" where
  "rl_exec (Initialize_account a) s = initialize_account a s"
| "rl_exec (Set_block_parameters c n) s = set_block_parameters c n s"
| "rl_exec (Update_account_usage as t) s = update_account_usage as t s"
| "rl_exec (Add_transaction_usage as c n t) s = add_transaction_usage as c n t s"
| "rl_exec (Add_pending_ram_usage a d) s = add_pending_ram_usage a d s"
| "rl_exec (Set_account_limits a r n c) s = rbind (set_account_limits a r n c s) (\<lambda>(s', decreased). Inr s')"
| "rl_exec Process_account_limit_updates s = process_account_limit_updates s"
| "rl_exec (Process_block_usage n) s = process_block_usage n s"

lemma initialize_database_inv: "rl_inv initialize_database"
  by (simp add: rl_inv_def initialize_database_def default_config_def default_elastic_parameters_def
      elastic_valid_def word_neq_0_conv)

interpretation rl: guarded_machine rl_exec rl_inv
proof
  fix s a t
  assume "rl_inv s" "rl_exec a s = Inr t"
  then show "rl_inv t"
    by (cases a) (auto simp: result_simps intro: initialize_account_inv set_block_parameters_inv
        update_account_usage_inv add_transaction_usage_inv add_pending_ram_usage_inv set_account_limits_inv
        process_account_limit_updates_inv process_block_usage_inv)
qed

section \<open>Applying the pending limits\<close>

abbreviation limit_fields :: "(resource_limits_object \<Rightarrow> i64) set" where
  "limit_fields \<equiv> {ram_bytes, cpu_weight, net_weight}"

lemma positive_sum_set_le: "fm_wf m \<Longrightarrow> positive_sum f (fm_set m k v) \<le> positive_sum f m + nat (sint (f v))"
  using positive_sum_set [of m f k v] by linarith

lemma apply_pending_returns:
  assumes "rl_inv s" "fm_find (rl_limits s) a \<noteq> None"
    and "\<And>f. f \<in> limit_fields \<Longrightarrow> positive_sum f (rl_limits s) + nat (sint (f itr)) < 2 ^ 64"
  shows "\<exists>s'. apply_pending (a, itr) s = Inr s'"
proof -
  obtain l where l: "fm_find (rl_limits s) a = Some l" using assms(2) by blast
  have inv: "fm_wf (rl_limits s)" "unat (total_ram_bytes (rl_state s)) = positive_sum ram_bytes (rl_limits s)"
      "unat (total_cpu_weight (rl_state s)) = positive_sum cpu_weight (rl_limits s)"
      "unat (total_net_weight (rl_state s)) = positive_sum net_weight (rl_limits s)"
    using assms(1) by (simp_all add: rl_inv_def)
  have fits: "\<exists>t :: u64. positive_sum f (fm_set (rl_limits s) a itr) < 2 ^ 64 \<and>
      unat t = positive_sum f (fm_set (rl_limits s) a itr)" if "f \<in> limit_fields" for f
  proof -
    have "positive_sum f (fm_set (rl_limits s) a itr) < 2 ^ 64"
      using le_less_trans [OF positive_sum_set_le [OF inv(1)] assms(3) [OF that]] .
    then show ?thesis
      by (intro exI [of _ "of_nat (positive_sum f (fm_set (rl_limits s) a itr))"]) (simp add: unat_of_nat_small)
  qed
  obtain ram cpu net where "update_total (total_ram_bytes (rl_state s)) (ram_bytes l) (ram_bytes itr) = Inr ram"
      "update_total (total_cpu_weight (rl_state s)) (cpu_weight l) (cpu_weight itr) = Inr cpu"
      "update_total (total_net_weight (rl_state s)) (net_weight l) (net_weight itr) = Inr net"
    unfolding update_total_sum [OF inv(1) l inv(2)] update_total_sum [OF inv(1) l inv(3)]
      update_total_sum [OF inv(1) l inv(4)]
    using fits [of ram_bytes] fits [of cpu_weight] fits [of net_weight] by blast
  then show ?thesis using l by (simp add: apply_pending_def row_get_def)
qed

lemma fm_find_Cons: "fm_find ((k, v) # m) k' = (if k' = k then Some v else fm_find m k')"
  by (simp add: fm_find_def)

lemma fm_erase_hd: "fm_wf ((k, v) # m) \<Longrightarrow> fm_erase ((k, v) # m) k = m"
  by (auto simp: fm_wf_Cons fm_erase_def filter_id_conv)

lemma apply_all_pending:
  assumes "rl_inv s" "rl_pending s = xs"
    and "\<And>f. f \<in> limit_fields \<Longrightarrow> positive_sum f (rl_limits s) + positive_sum f xs < 2 ^ 64"
  shows "\<exists>s'. rfold apply_pending xs s = Inr s' \<and> rl_inv s' \<and> rl_pending s' = [] \<and>
    (\<forall>b. fm_find (rl_limits s') b = (case fm_find xs b of Some l \<Rightarrow> Some l | None \<Rightarrow> fm_find (rl_limits s) b))"
  using assms
proof (induction xs arbitrary: s)
  case (Cons x xs)
  obtain a itr where x: "x = (a, itr)" by (cases x)
  have wf: "fm_wf ((a, itr) # xs)" "fm_wf (rl_limits s)"
    using Cons.prems(1,2) x by (auto simp: rl_inv_def)
  have "a \<in> fst ` set (rl_pending s)" using Cons.prems(2) x by simp
  then have "fm_find (rl_limits s) a \<noteq> None"
    using Cons.prems(1) unfolding fm_find_keys rl_inv_def by blast
  moreover have "positive_sum f (rl_limits s) + nat (sint (f itr)) < 2 ^ 64" if "f \<in> limit_fields" for f
    using Cons.prems(3) [OF that] x by simp
  ultimately obtain s1 where s1: "apply_pending (a, itr) s = Inr s1"
    using apply_pending_returns [OF Cons.prems(1)] by blast
  note A = apply_pending_Inr [OF Cons.prems(1) s1]
  have pend: "rl_pending s1 = xs" using A(3) Cons.prems(2) x fm_erase_hd [OF wf(1)] by simp
  have "positive_sum f (rl_limits s1) + positive_sum f xs < 2 ^ 64" if "f \<in> limit_fields" for f
    using Cons.prems(3) [OF that] x positive_sum_set_le [OF wf(2), of f a itr] A(2) by simp
  then obtain s' where s': "rfold apply_pending xs s1 = Inr s'" "rl_inv s'" "rl_pending s' = []"
      "\<And>b. fm_find (rl_limits s') b = (case fm_find xs b of Some l \<Rightarrow> Some l | None \<Rightarrow> fm_find (rl_limits s1) b)"
    using Cons.IH [OF A(1) pend] by blast
  have none: "fm_find xs a = None" using wf(1) by (force simp: fm_wf_Cons fm_find_None_iff)
  have "fm_find (rl_limits s') b =
      (case fm_find (x # xs) b of Some l \<Rightarrow> Some l | None \<Rightarrow> fm_find (rl_limits s) b)" for b
    using s'(4) [of b] none A(2) x by (simp add: fm_find_Cons split: option.split)
  then show ?case using s1 s' x by simp
qed simp

section \<open>Billing\<close>

lemma within_limit_exact:
  assumes "0 \<le> sint weight" "0 < total_now"
    and "unat limit * unat window_size * unat weight < 2 ^ 128"
  shows "within_limit weight total_now limit window_size a \<longleftrightarrow>
    unat (value_ex a) * unat window_size div 1000000 \<le>
      unat limit * unat window_size * unat weight div unat total_now"
proof -
  have b: "unat limit * unat window_size < 2 ^ 96" "unat (value_ex a) * unat window_size < 2 ^ 96"
  proof -
    have "unat x * unat window_size < 2 ^ 64 * 2 ^ 32" for x :: u64
      using unat_bound [of x] unat_bound [of window_size] by (intro mult_strict_mono) simp_all
    then show "unat limit * unat window_size < 2 ^ 96" "unat (value_ex a) * unat window_size < 2 ^ 96"
      by (simp_all flip: power_add)
  qed
  have "unat (ucast limit * ucast window_size :: u128) = unat limit * unat window_size"
    using b(1) by (subst unat_mult_small) (simp_all add: unat_ucast_up)
  then have "unat (ucast limit * ucast window_size * ucast weight :: u128) =
      unat limit * unat window_size * unat weight"
    using assms(3) by (subst unat_mult_small) (simp_all add: unat_ucast_up)
  moreover have "unat (ucast (value_ex a) * ucast window_size :: u128) = unat (value_ex a) * unat window_size"
    using b(2) by (subst unat_mult_small) (simp_all add: unat_ucast_up)
  ultimately show ?thesis
    using assms(1,2)
    by (simp add: within_limit_def used_in_window_def max_user_use_in_window_def word_le_nat_alt unat_div
        unat_ucast_up rate_limiting_precision_def)
qed

lemma bill_accounts_effect:
  assumes "rfold (bill_account cpu net slot) accounts s = Inr s'" "distinct accounts"
  shows "rl_state s' = rl_state s \<and> rl_config s' = rl_config s \<and> rl_limits s' = rl_limits s \<and>
    rl_pending s' = rl_pending s \<and>
    (\<forall>a. if a \<in> set accounts
         then \<exists>u u' l. fm_find (rl_usage s) a = Some u \<and> fm_find (rl_usage s') a = Some u' \<and>
           get_account_limits s a = Inr l \<and> usage_add (rl_config s) cpu net slot u = Inr u' \<and>
           within_limit (cpu_weight l) (total_cpu_weight (rl_state s)) (virtual_cpu_limit (rl_state s))
             (account_cpu_usage_average_window (rl_config s)) (cpu_usage u') \<and>
           within_limit (net_weight l) (total_net_weight (rl_state s)) (virtual_net_limit (rl_state s))
             (account_net_usage_average_window (rl_config s)) (net_usage u')
         else fm_find (rl_usage s') a = fm_find (rl_usage s) a)"
  using assms
proof (induction accounts arbitrary: s)
  case (Cons x xs)
  obtain s1 where s1: "bill_account cpu net slot x s = Inr s1" "rfold (bill_account cpu net slot) xs s1 = Inr s'"
    using Cons.prems(1) by (auto simp: result_simps)
  obtain u u' l where b: "fm_find (rl_usage s) x = Some u" "get_account_limits s x = Inr l"
      "usage_add (rl_config s) cpu net slot u = Inr u'"
      "within_limit (cpu_weight l) (total_cpu_weight (rl_state s)) (virtual_cpu_limit (rl_state s))
        (account_cpu_usage_average_window (rl_config s)) (cpu_usage u')"
      "within_limit (net_weight l) (total_net_weight (rl_state s)) (virtual_net_limit (rl_state s))
        (account_net_usage_average_window (rl_config s)) (net_usage u')"
      "s1 = s\<lparr>rl_usage := fm_set (rl_usage s) x u'\<rparr>"
    using bill_account_Inr [OF s1(1)] by blast
  have st: "rl_state s1 = rl_state s" "rl_config s1 = rl_config s" "rl_limits s1 = rl_limits s"
      "rl_pending s1 = rl_pending s" "\<And>a. get_account_limits s1 a = get_account_limits s a"
      "\<And>a. fm_find (rl_usage s1) a = (if a = x then Some u' else fm_find (rl_usage s) a)"
    using b(6) by (simp_all add: get_account_limits_def split: option.split)
  have x: "x \<notin> set xs" "distinct xs" using Cons.prems(2) by simp_all
  note IH = Cons.IH [OF s1(2) x(2), unfolded st]
  show ?case
  proof (intro conjI allI, goal_cases)
    case (5 a)
    consider "a = x" | "a \<noteq> x" "a \<in> set xs" | "a \<noteq> x" "a \<notin> set xs" by blast
    then show ?case
    proof cases
      case 1
      then have "fm_find (rl_usage s') x = Some u'" using IH x(1) by auto
      then show ?thesis using 1 b(1-5) by auto
    next
      case 2
      then show ?thesis using spec [OF conjunct2 [OF conjunct2 [OF conjunct2 [OF conjunct2 [OF IH]]]], of a] by simp
    next
      case 3
      then show ?thesis using spec [OF conjunct2 [OF conjunct2 [OF conjunct2 [OF conjunct2 [OF IH]]]], of a] by simp
    qed
  qed (use IH in simp_all)
qed simp

text \<open>With a limit set, what the account used in the window is at most its share of the capacity, in natural
  numbers.\<close>

definition within_share :: "i64 \<Rightarrow> u64 \<Rightarrow> u64 \<Rightarrow> u32 \<Rightarrow> usage_accumulator \<Rightarrow> bool" where
  "within_share weight total_now limit window_size a \<longleftrightarrow>
     (0 \<le> sint weight \<and> 0 < total_now \<longrightarrow>
      unat (value_ex a) * unat window_size div 1000000 \<le>
        unat limit * unat window_size * unat weight div unat total_now)"

lemma within_limit_share:
  assumes "unat limit * unat window_size * unat weight < 2 ^ 128" "within_limit weight total_now limit window_size a"
  shows "within_share weight total_now limit window_size a"
  using within_limit_exact [OF _ _ assms(1)] assms(2) by (auto simp: within_share_def)

lemma billed_transaction:
  assumes "add_transaction_usage accounts cpu net slot s = Inr s'" "distinct accounts"
  defines "st \<equiv> rl_state s" and "cfg \<equiv> rl_config s"
  shows "\<forall>a \<in> set accounts. \<exists>u u' l. fm_find (rl_usage s) a = Some u \<and> fm_find (rl_usage s') a = Some u' \<and>
      get_account_limits s a = Inr l \<and> usage_add cfg cpu net slot u = Inr u' \<and>
      within_limit (cpu_weight l) (total_cpu_weight st) (virtual_cpu_limit st)
        (account_cpu_usage_average_window cfg) (cpu_usage u') \<and>
      within_limit (net_weight l) (total_net_weight st) (virtual_net_limit st)
        (account_net_usage_average_window cfg) (net_usage u')"
    and "\<forall>b. b \<notin> set accounts \<longrightarrow> fm_find (rl_usage s') b = fm_find (rl_usage s) b"
    and "pending_cpu_usage (rl_state s') = pending_cpu_usage st + cpu"
      "pending_cpu_usage (rl_state s') \<le> lim_max (cpu_limit_parameters cfg)"
      "pending_net_usage (rl_state s') = pending_net_usage st + net"
      "pending_net_usage (rl_state s') \<le> lim_max (net_limit_parameters cfg)"
proof -
  obtain s1 where s1: "rfold (bill_account cpu net slot) accounts s = Inr s1"
      and s': "s' = s1\<lparr>rl_state := (rl_state s1)\<lparr>pending_cpu_usage := pending_cpu_usage (rl_state s1) + cpu,
                  pending_net_usage := pending_net_usage (rl_state s1) + net\<rparr>\<rparr>"
      and lim: "pending_cpu_usage (rl_state s1) + cpu \<le> lim_max (cpu_limit_parameters (rl_config s1))"
        "pending_net_usage (rl_state s1) + net \<le> lim_max (net_limit_parameters (rl_config s1))"
    using assms(1) by (auto simp: add_transaction_usage_def Let_def result_simps)
  note E = bill_accounts_effect [OF s1 assms(2), folded st_def cfg_def]
  have st: "rl_state s1 = st" "rl_config s1 = cfg" using E by blast+
  have all: "if b \<in> set accounts
         then \<exists>u u' l. fm_find (rl_usage s) b = Some u \<and> fm_find (rl_usage s1) b = Some u' \<and>
           get_account_limits s b = Inr l \<and> usage_add cfg cpu net slot u = Inr u' \<and>
           within_limit (cpu_weight l) (total_cpu_weight st) (virtual_cpu_limit st)
             (account_cpu_usage_average_window cfg) (cpu_usage u') \<and>
           within_limit (net_weight l) (total_net_weight st) (virtual_net_limit st)
             (account_net_usage_average_window cfg) (net_usage u')
         else fm_find (rl_usage s1) b = fm_find (rl_usage s) b" for b
    using E by blast
  show "\<forall>a \<in> set accounts. \<exists>u u' l. fm_find (rl_usage s) a = Some u \<and> fm_find (rl_usage s') a = Some u' \<and>
      get_account_limits s a = Inr l \<and> usage_add cfg cpu net slot u = Inr u' \<and>
      within_limit (cpu_weight l) (total_cpu_weight st) (virtual_cpu_limit st)
        (account_cpu_usage_average_window cfg) (cpu_usage u') \<and>
      within_limit (net_weight l) (total_net_weight st) (virtual_net_limit st)
        (account_net_usage_average_window cfg) (net_usage u')"
  proof
    fix a assume "a \<in> set accounts"
    then show "\<exists>u u' l. fm_find (rl_usage s) a = Some u \<and> fm_find (rl_usage s') a = Some u' \<and>
        get_account_limits s a = Inr l \<and> usage_add cfg cpu net slot u = Inr u' \<and>
        within_limit (cpu_weight l) (total_cpu_weight st) (virtual_cpu_limit st)
          (account_cpu_usage_average_window cfg) (cpu_usage u') \<and>
        within_limit (net_weight l) (total_net_weight st) (virtual_net_limit st)
          (account_net_usage_average_window cfg) (net_usage u')"
      using all [of a] s' by simp
  qed
  show "\<forall>b. b \<notin> set accounts \<longrightarrow> fm_find (rl_usage s') b = fm_find (rl_usage s) b"
    using all s' by simp
  show "pending_cpu_usage (rl_state s') = pending_cpu_usage st + cpu"
    "pending_cpu_usage (rl_state s') \<le> lim_max (cpu_limit_parameters cfg)"
    "pending_net_usage (rl_state s') = pending_net_usage st + net"
    "pending_net_usage (rl_state s') \<le> lim_max (net_limit_parameters cfg)"
    using lim s' st by simp_all
qed

lemma ram_usage_step:
  assumes "fm_find (rl_usage s) a = Some u" "sint d \<noteq> - (2 ^ 63)"
  shows "if 0 \<le> int (unat (ram_usage u)) + sint d \<and> int (unat (ram_usage u)) + sint d < 2 ^ 64
    then \<exists>s' u'. add_pending_ram_usage a d s = Inr s' \<and> fm_find (rl_usage s') a = Some u' \<and>
      int (unat (ram_usage u')) = int (unat (ram_usage u)) + sint d
    else add_pending_ram_usage a d s = Inl Transaction_exception"
proof -
  let ?v = "unat (ram_usage u)"
  let ?s = "s\<lparr>rl_usage := fm_set (rl_usage s) a (u\<lparr>ram_usage := ram_usage u + d\<rparr>)\<rparr>"
  have v: "uint (ram_usage u) < 2 ^ 64" using uint_lt2p [of "ram_usage u"] by simp
  have up: "d \<le> u64_max - ram_usage u \<longleftrightarrow> int ?v + sint d < 2 ^ 64"
      "int ?v + sint d < 2 ^ 64 \<Longrightarrow> int (unat (ram_usage u + d)) = int ?v + sint d" if "0 < sint d"
  proof -
    have d: "unat d = nat (sint d)" using that by (intro unat_sint_nonneg) simp
    have "int (?v + unat d) = int ?v + sint d" using d that by linarith
    moreover have "?v + unat d < 2 ^ 64 \<longleftrightarrow> int (?v + unat d) < int (2 ^ 64)" by (rule of_nat_less_iff [symmetric])
    ultimately have eq: "?v + unat d < 2 ^ 64 \<longleftrightarrow> int ?v + sint d < 2 ^ 64" by simp
    then show "d \<le> u64_max - ram_usage u \<longleftrightarrow> int ?v + sint d < 2 ^ 64"
      using le_max_minus_iff [of d "ram_usage u"] by simp
    assume "int ?v + sint d < 2 ^ 64"
    then have "unat (ram_usage u + d) = ?v + unat d"
      using eq unat_plus_small [of "ram_usage u" d] by simp
    then show "int (unat (ram_usage u + d)) = int ?v + sint d" using d that by linarith
  qed
  have down: "- d \<le> ram_usage u \<longleftrightarrow> 0 \<le> int ?v + sint d"
      "0 \<le> int ?v + sint d \<Longrightarrow> int (unat (ram_usage u + d)) = int ?v + sint d" if "sint d < 0"
  proof -
    have "- d = of_int (- sint d)" by simp
    moreover have "- sint d < 2 ^ 63" using assms(2) sint_range(1) [of d] by simp
    ultimately have "sint (- d) = - sint d"
      using that sint_of_int_small [of "- sint d", where 'a = 64] by simp
    then have d: "unat (- d) = nat (- sint d)" using that unat_sint_nonneg [of "- d"] by simp
    then show le: "- d \<le> ram_usage u \<longleftrightarrow> 0 \<le> int ?v + sint d" 
      using that unfolding word_le_nat_alt by linarith
    assume "0 \<le> int ?v + sint d"
    then have "unat (ram_usage u - (- d)) = ?v - unat (- d)" using le by (intro unat_sub) simp
    then have "unat (ram_usage u + d) = ?v - nat (- sint d)" using d by simp
    then show "int (unat (ram_usage u + d)) = int ?v + sint d"
      using that \<open>0 \<le> int ?v + sint d\<close> by linarith
  qed
  consider "sint d = 0" | "0 < sint d" | "sint d < 0" by linarith
  then show ?thesis
  proof cases
    case 1
    then have "d = 0" by (metis signed_0 signed_word_eqI)
    then show ?thesis using assms(1) v by (simp add: add_pending_ram_usage_def)
  next
    case 2
    then have d: "d \<noteq> 0" by auto
    then show ?thesis using 2 up [OF 2] assms v
      by (auto simp: add_pending_ram_usage_def row_get_def eos_assert_def)
  next
    case 3
    then have d: "d \<noteq> 0" by auto
    then show ?thesis using 3 down [OF 3] assms v
      by (auto simp: add_pending_ram_usage_def row_get_def eos_assert_def)
  qed
qed

section \<open>Properties\<close>

text \<open>
  C13. Whatever sequence of operations runs on the manager after the initialization of the database, with
  the effects of failing operations undone, the totals are exactly the sums of the positive limits of all
  accounts, each account has one limits row and one usage row, pending limits belong to existing accounts,
  and the parameters never divide by zero.
\<close>

theorem resource_limits_invariant: "rl_inv (run_ops rl_exec ops initialize_database)"
  by (rule rl.run_inv [OF initialize_database_inv])

text \<open>
  C23. Applying the pending limits. From every consistent state in which the old and the new limits together
  stay below \<open>2\<^sup>6\<^sup>4\<close>, the loop ends without an error, no pending row is left, every account has the limits
  that were pending for it and the others keep theirs, and the totals are consistent again.
\<close>

theorem pending_limits_settle:
  assumes "rl_inv s"
    and "\<And>f. f \<in> limit_fields \<Longrightarrow> positive_sum f (rl_limits s) + positive_sum f (rl_pending s) < 2 ^ 64"
  shows "\<exists>s'. process_account_limit_updates s = Inr s' \<and> rl_inv s' \<and> rl_pending s' = [] \<and>
    (\<forall>b. fm_find (rl_limits s') b =
       (case fm_find (rl_pending s) b of Some l \<Rightarrow> Some l | None \<Rightarrow> fm_find (rl_limits s) b))"
  unfolding process_account_limit_updates_def by (rule apply_all_pending [OF assms(1) refl assms(2)])

definition demo_limits :: resource_limits where
  "demo_limits = run_ops rl_exec
     [Initialize_account 1, Initialize_account 2, Set_account_limits 1 4096 10 30] initialize_database"

theorem pending_limits_settle_witness:
  "\<exists>s'. process_account_limit_updates demo_limits = Inr s' \<and> rl_inv s' \<and> rl_pending s' = []"
proof -
  have inv: "rl_inv demo_limits"
    unfolding demo_limits_def by (rule rl.run_inv [OF initialize_database_inv])
  have "positive_sum f (rl_limits demo_limits) + positive_sum f (rl_pending demo_limits) < 2 ^ 64"
    if "f \<in> limit_fields" for f
    using that by (auto simp: demo_limits_def initialize_database_def initialize_account_def row_create_def
        set_account_limits_def limits_object_init_def row_get_def fm_find_Cons Let_def)
  then show ?thesis using pending_limits_settle [OF inv] by blast
qed

text \<open>
  C32. Closing a block. For a limit that lies between the block maximum and its multiple, and rates that contract and
  expand, the virtual limit never grows when the average usage is above the target and never shrinks when it is
  not; it is the old limit times the rate, rounded down, where that lies in the same range. The multiple of the
  block maximum is taken to fit 64 bits. The pending usage of the block is cleared.
\<close>

theorem virtual_limits_follow_usage:
  assumes "process_block_usage num s = Inr s'"
    and "elastic_ok (cpu_limit_parameters (rl_config s)) (get_virtual_block_cpu_limit s)"
    and "elastic_ok (net_limit_parameters (rl_config s)) (get_virtual_block_net_limit s)"
  shows "pending_cpu_usage (rl_state s') = 0 \<and> pending_net_usage (rl_state s') = 0 \<and> rl_config s' = rl_config s \<and>
    elastic_step (cpu_limit_parameters (rl_config s)) (accumulator_average (average_block_cpu_usage (rl_state s')))
      (get_virtual_block_cpu_limit s) (get_virtual_block_cpu_limit s') \<and>
    elastic_step (net_limit_parameters (rl_config s)) (accumulator_average (average_block_net_usage (rl_state s')))
      (get_virtual_block_net_limit s) (get_virtual_block_net_limit s')"
proof -
  let ?st = "rl_state s" and ?st' = "rl_state s'" and ?cfg = "rl_config s"
  have "update_elastic_limit (virtual_cpu_limit ?st) (accumulator_average (average_block_cpu_usage ?st'))
      (cpu_limit_parameters ?cfg) = Inr (virtual_cpu_limit ?st')"
    "update_elastic_limit (virtual_net_limit ?st) (accumulator_average (average_block_net_usage ?st'))
      (net_limit_parameters ?cfg) = Inr (virtual_net_limit ?st')"
    "pending_cpu_usage ?st' = 0" "pending_net_usage ?st' = 0" "rl_config s' = ?cfg"
    using assms(1)
    by (auto simp: process_block_usage_def Let_def result_simps update_virtual_cpu_limit_def
        update_virtual_net_limit_def)
  then show ?thesis
    using assms(2,3) update_elastic_limit_step
    by (simp add: get_virtual_block_cpu_limit_def get_virtual_block_net_limit_def)
qed

theorem virtual_limits_follow_usage_witness:
  "\<exists>s'. process_block_usage 1 initialize_database = Inr s' \<and>
     get_virtual_block_cpu_limit initialize_database = 200000 \<and> unat (get_virtual_block_cpu_limit s') = 200200"
proof -
  have "\<exists>s'. process_block_usage 1 initialize_database = Inr s' \<and>
      accumulator_average (average_block_cpu_usage (rl_state s')) = 0"
    by (simp add: process_block_usage_def initialize_database_def Let_def default_config_def
        default_elastic_parameters_def accumulator_add_def accumulator_init_def rate_limiting_precision_def
        integer_divide_ceil_def downgrade_cast_u64_def accumulator_decay_def ratio_mult_def
        update_virtual_cpu_limit_def update_virtual_net_limit_def update_elastic_limit_def
        accumulator_average_def eos_percent_def)
  then obtain s' where s': "process_block_usage 1 initialize_database = Inr s'"
      "accumulator_average (average_block_cpu_usage (rl_state s')) = 0" by blast
  note eval = initialize_database_def default_config_def default_elastic_parameters_def
    get_virtual_block_cpu_limit_def get_virtual_block_net_limit_def
  have "elastic_ok (cpu_limit_parameters (rl_config initialize_database)) (get_virtual_block_cpu_limit initialize_database)"
    "elastic_ok (net_limit_parameters (rl_config initialize_database)) (get_virtual_block_net_limit initialize_database)"
    by (simp_all add: elastic_ok_def eval)
  from virtual_limits_follow_usage [OF s'(1) this] s' show ?thesis
    by (simp add: elastic_step_def eval eos_percent_def Let_def)
qed

text \<open>
  C24. Billing a transaction. When it succeeds, every billed account has the CPU time and the bytes added to its
  usage, and for either resource, with a limit set, what it used in the window is at most its share of the elastic
  capacity; no other account changes, and the block's CPU and network usage grow by the amounts and stay within
  the block limits. The hypotheses keep the shares below \<open>2\<^sup>1\<^sup>2\<^sup>8\<close> and the block's usage below \<open>2\<^sup>6\<^sup>4\<close>, so that the
  statement is about natural numbers.
\<close>

theorem transaction_within_limits:
  assumes "add_transaction_usage accounts cpu net slot s = Inr s'" "distinct accounts"
    and "a \<in> set accounts" "get_account_limits s a = Inr l"
    and "unat (virtual_cpu_limit (rl_state s)) * unat (account_cpu_usage_average_window (rl_config s)) *
      unat (cpu_weight l) < 2 ^ 128"
    and "unat (virtual_net_limit (rl_state s)) * unat (account_net_usage_average_window (rl_config s)) *
      unat (net_weight l) < 2 ^ 128"
    and "unat (pending_cpu_usage (rl_state s)) + unat cpu < 2 ^ 64"
    and "unat (pending_net_usage (rl_state s)) + unat net < 2 ^ 64"
  shows "(\<exists>u u'. fm_find (rl_usage s) a = Some u \<and> fm_find (rl_usage s') a = Some u' \<and>
      usage_add (rl_config s) cpu net slot u = Inr u' \<and>
      within_share (cpu_weight l) (total_cpu_weight (rl_state s)) (virtual_cpu_limit (rl_state s))
        (account_cpu_usage_average_window (rl_config s)) (cpu_usage u') \<and>
      within_share (net_weight l) (total_net_weight (rl_state s)) (virtual_net_limit (rl_state s))
        (account_net_usage_average_window (rl_config s)) (net_usage u')) \<and>
    (\<forall>b. b \<notin> set accounts \<longrightarrow> fm_find (rl_usage s') b = fm_find (rl_usage s) b) \<and>
    unat (pending_cpu_usage (rl_state s')) = unat (pending_cpu_usage (rl_state s)) + unat cpu \<and>
    unat (pending_cpu_usage (rl_state s')) \<le> unat (lim_max (cpu_limit_parameters (rl_config s))) \<and>
    unat (pending_net_usage (rl_state s')) = unat (pending_net_usage (rl_state s)) + unat net \<and>
    unat (pending_net_usage (rl_state s')) \<le> unat (lim_max (net_limit_parameters (rl_config s)))"
proof -
  note B = billed_transaction [OF assms(1,2)]
  obtain u u' where u: "fm_find (rl_usage s) a = Some u" "fm_find (rl_usage s') a = Some u'"
      "usage_add (rl_config s) cpu net slot u = Inr u'"
      "within_limit (cpu_weight l) (total_cpu_weight (rl_state s)) (virtual_cpu_limit (rl_state s))
        (account_cpu_usage_average_window (rl_config s)) (cpu_usage u')"
      "within_limit (net_weight l) (total_net_weight (rl_state s)) (virtual_net_limit (rl_state s))
        (account_net_usage_average_window (rl_config s)) (net_usage u')"
    using B(1) assms(3,4) by fastforce
  show ?thesis
    using u(1-3) within_limit_share [OF assms(5) u(4)] within_limit_share [OF assms(6) u(5)] B(2-6) assms(7,8)
    by (simp add: unat_plus_small word_le_nat_alt)
qed

definition demo_billing :: resource_limits where
  "demo_billing = run_ops rl_exec [Process_account_limit_updates] demo_limits"

theorem transaction_within_limits_witness:
  "\<exists>s'. add_transaction_usage [1] 5000 100 1 demo_billing = Inr s' \<and>
     unat (pending_cpu_usage (rl_state s')) = 5000 \<and> unat (pending_net_usage (rl_state s')) = 100"
proof -
  note eval = demo_billing_def demo_limits_def initialize_database_def initialize_account_def row_create_def
    set_account_limits_def limits_object_init_def row_get_def fm_find_Cons Let_def
    process_account_limit_updates_def apply_pending_def update_total_def default_config_def
    default_elastic_parameters_def usage_object_init_def fm_erase_def
  have run: "\<exists>s'. add_transaction_usage [1] 5000 100 1 demo_billing = Inr s'"
    by (simp add: eval add_transaction_usage_def bill_account_def usage_add_def accumulator_add_def
        accumulator_init_def rate_limiting_precision_def integer_divide_ceil_def downgrade_cast_u64_def
        accumulator_decay_def ratio_mult_def accumulator_average_def get_account_limits_def
        within_limit_def used_in_window_def max_user_use_in_window_def eos_percent_def)
  then obtain s' where s': "add_transaction_usage [1] 5000 100 1 demo_billing = Inr s'" by blast
  have l: "get_account_limits demo_billing 1 = Inr \<lparr>net_weight = 10, cpu_weight = 30, ram_bytes = 4096\<rparr>"
    by (simp add: eval get_account_limits_def)
  have st: "total_cpu_weight (rl_state demo_billing) = 30" "virtual_cpu_limit (rl_state demo_billing) = 200000"
      "pending_cpu_usage (rl_state demo_billing) = 0"
      "account_cpu_usage_average_window (rl_config demo_billing) = 172800"
      "virtual_net_limit (rl_state demo_billing) = 1048576" "pending_net_usage (rl_state demo_billing) = 0"
      "account_net_usage_average_window (rl_config demo_billing) = 172800"
    by (simp_all add: eval)
  from transaction_within_limits [OF s' _ _ l] show ?thesis using s' by (simp add: st)
qed

text \<open>
  C38. Memory accounting is integer arithmetic: for every delta but the least 64-bit integer, the change is
  applied exactly when the new usage is a 64-bit natural, and is rejected otherwise.
\<close>

theorem ram_usage_exact:
  assumes "fm_find (rl_usage s) a = Some u" "sint d \<noteq> - (2 ^ 63)"
  shows "if 0 \<le> int (unat (ram_usage u)) + sint d \<and> int (unat (ram_usage u)) + sint d < 2 ^ 64
    then \<exists>s' u'. add_pending_ram_usage a d s = Inr s' \<and> fm_find (rl_usage s') a = Some u' \<and>
      int (unat (ram_usage u')) = int (unat (ram_usage u)) + sint d
    else add_pending_ram_usage a d s = Inl Transaction_exception"
  using ram_usage_step [OF assms] .

theorem ram_usage_exact_witness:
  "\<exists>s' u'. add_pending_ram_usage 1 100 demo_limits = Inr s' \<and> fm_find (rl_usage s') 1 = Some u' \<and>
     int (unat (ram_usage u')) = 100"
proof -
  have u: "fm_find (rl_usage demo_limits) 1 = Some usage_object_init"
    by (simp add: demo_limits_def initialize_database_def initialize_account_def row_create_def
        set_account_limits_def row_get_def fm_find_Cons Let_def)
  show ?thesis using ram_usage_exact [OF u, of 100] by (simp add: usage_object_init_def)
qed

end
