(* ===== verification/Eosio_Contract.thy ===== *)
theory Eosio_Contract
  imports Authorization Resource_Usage
begin

text \<open>
  The native handlers of the system contract (\<^verbatim>\<open>eosio_contract.cpp\<close>) over the tables they change: accounts and
  their metadata, codes, the actions table of FIO, permissions and links, resource limits and generated
  transactions. Signed arithmetic on sizes is done modulo \<open>2 ^ 64\<close>, which agrees with the code wherever C++
  defines the result.
\<close>

section \<open>Model\<close>

record account_object =
  creation_date :: block_timestamp_type
  ao_abi :: bytes

record account_metadata_object =
  recv_sequence :: u64
  auth_sequence :: u64
  code_sequence :: u64
  abi_sequence :: u64
  am_code_hash :: digest
  last_code_update :: int
  am_flags :: u32
  am_vm_type :: u8
  am_vm_version :: u8

type_synonym code_key = "digest \<times> u8 \<times> u8"

record code_object =
  co_code :: bytes
  code_ref_count :: u64
  first_block_used :: u32

record fioaction_object =
  contractname :: string
  fa_blocktimestamp :: u64

record apply_state =
  db_accounts :: "(account_name, account_object) flat_map"
  db_metadata :: "(account_name, account_metadata_object) flat_map"
  db_codes :: "(code_key, code_object) flat_map"
  db_fioactions :: "(action_name, fioaction_object) flat_map"
  db_auth :: auth_db
  db_limits :: resource_limits
  db_generated :: "(digest, generated_transaction_object) flat_map"
  validate_ram_usage :: "account_name set"
  account_ram_deltas :: "(account_name, i64) flat_map"

record newaccount =
  new_creator :: account_name
  new_name :: account_name
  new_owner :: authority
  new_active :: authority

record addaction =
  add_action :: name
  add_contract :: string
  add_actor :: name

record remaction =
  rem_action :: name
  rem_actor :: name

record setcode =
  sc_account :: account_name
  sc_vmtype :: u8
  sc_vmversion :: u8
  sc_code :: bytes

record setabi =
  sa_account :: account_name
  sa_abi :: bytes

text \<open>What the handlers read from the controller and the transaction, the hash, the order and packed size of
  keys and the unpacking of action data, which are fc's, and the validation of WASM code.\<close>

record contract_env =
  ce_auth :: auth_env
  ce_key_less :: "public_key_type \<Rightarrow> public_key_type \<Rightarrow> bool"
  ce_pack_size :: "public_key_type \<Rightarrow> u64"
  ce_sha256 :: "bytes \<Rightarrow> digest"
  ce_wasm_validate :: "bytes \<Rightarrow> unit result"
  ce_head_block_time :: u32
  ce_head_block_num :: u32
  ce_enforce_whiteblacklist :: bool
  ce_is_producing_block :: bool
  ce_key_blacklist :: "public_key_type list"
  ce_only_link_to_existing_permission :: bool
  unpack_newaccount :: "bytes \<Rightarrow> newaccount result"
  unpack_addaction :: "bytes \<Rightarrow> addaction result"
  unpack_remaction :: "bytes \<Rightarrow> remaction result"
  unpack_setcode :: "bytes \<Rightarrow> setcode result"
  unpack_setabi :: "bytes \<Rightarrow> setabi result"

subsection \<open>Rows and constants\<close>

definition metadata_init :: account_metadata_object where
  "metadata_init =
     \<lparr>recv_sequence = 0, auth_sequence = 0, code_sequence = 0, abi_sequence = 0, am_code_hash = digest_zero,
      last_code_update = 0, am_flags = 0, am_vm_type = 0, am_vm_version = 0\<rparr>"

definition is_privileged :: "account_metadata_object \<Rightarrow> bool" where
  "is_privileged m \<longleftrightarrow> am_flags m AND 1 \<noteq> 0"

definition set_privileged :: "bool \<Rightarrow> account_metadata_object \<Rightarrow> account_metadata_object" where
  "set_privileged p m = m\<lparr>am_flags := if p then am_flags m OR 1 else am_flags m AND NOT 1\<rparr>"

definition billable_size_v :: "u64 \<Rightarrow> u64" where
  "billable_size_v v = (v + 16 - 1) div 16 * 16"

definition permission_object_size :: u64 where
  "permission_object_size = billable_size_v (billable_size_v (3 * 16 + 4) + 64 + 5 * 32)"

definition permission_link_object_size :: u64 where
  "permission_link_object_size = billable_size_v (40 + 32 * 3)"

definition generated_transaction_object_size :: u64 where
  "generated_transaction_object_size = billable_size_v (96 + 4 + 32 * 5)"

definition overhead_per_account_ram_bytes :: u64 where
  "overhead_per_account_ram_bytes = 2 * 1024"

definition setcode_ram_bytes_multiplier :: u64 where
  "setcode_ram_bytes_multiplier = 10"

definition post_release_200_block_time :: u32 where
  "post_release_200_block_time = 1616596800"

definition eosio_code_name :: name where
  "eosio_code_name = string_to_name ''eosio.code''"

text \<open>The well-known accounts that the handlers compare an actor with.\<close>

definition well_known_accounts :: "name list" where
  "well_known_accounts =
     map string_to_name
       [''eosio'', ''eosio.msig'', ''eosio.wrap'', ''eosio.assert'', ''fio.reqobt'', ''fio.fee'',
        ''fio.address'', ''fio.tpid'', ''fio.token'', ''fio.treasury'', ''fio.system'', ''fio'']"

definition transaction_id_to_sender_id :: "digest \<Rightarrow> u128" where
  "transaction_id_to_sender_id tid = push_bit 64 (ucast (hash3 tid)) OR ucast (hash2 tid)"

text \<open>\<^verbatim>\<open>str.find("eosio.") == 0\<close>.\<close>

definition eosio_prefix :: "string \<Rightarrow> bool" where
  "eosio_prefix str \<longleftrightarrow> take 6 str = ''eosio.''"

subsection \<open>The apply context\<close>

definition require_authorization :: "permission_level list \<Rightarrow> account_name \<Rightarrow> unit result" where
  "require_authorization auths account =
     eos_assert (\<exists>p \<in> set auths. actor p = account) Missing_auth_exception (Inr ())"

definition trx_add_ram_usage :: "account_name \<Rightarrow> i64 \<Rightarrow> apply_state \<Rightarrow> apply_state result" where
  "trx_add_ram_usage account ram_delta s =
     rbind (add_pending_ram_usage account ram_delta (db_limits s)) (\<lambda>rl.
     Inr (s\<lparr>db_limits := rl,
            validate_ram_usage :=
              if 0 < sint ram_delta then insert account (validate_ram_usage s) else validate_ram_usage s\<rparr>))"

definition add_ram_usage :: "account_name \<Rightarrow> i64 \<Rightarrow> apply_state \<Rightarrow> apply_state result" where
  "add_ram_usage account ram_delta s =
     rbind (trx_add_ram_usage account ram_delta s) (\<lambda>s'.
     let p = fm_find (account_ram_deltas s') account
     in Inr (s'\<lparr>account_ram_deltas := fm_set (account_ram_deltas s') account
                  (case p of None \<Rightarrow> ram_delta | Some d \<Rightarrow> d + ram_delta)\<rparr>))"

definition gto_by_sender_id ::
  "(digest, generated_transaction_object) flat_map \<Rightarrow> account_name \<Rightarrow> u128 \<Rightarrow>
     (digest \<times> generated_transaction_object) option" where
  "gto_by_sender_id m sender sender_id =
     find (\<lambda>e. gto_sender (snd e) = sender \<and> gto_sender_id (snd e) = sender_id) m"

definition cancel_deferred_transaction ::
  "u128 \<Rightarrow> account_name \<Rightarrow> apply_state \<Rightarrow> (bool \<times> apply_state) result" where
  "cancel_deferred_transaction sender_id sender s =
     (case gto_by_sender_id (db_generated s) sender sender_id of
        None \<Rightarrow> Inr (False, s)
      | Some (trx_id, gto) \<Rightarrow>
          rbind (add_ram_usage (gto_payer gto)
                   (- (generated_transaction_object_size + of_nat (length (gto_packed_trx gto)))) s) (\<lambda>s'.
          Inr (True, s'\<lparr>db_generated := fm_erase (db_generated s') trx_id\<rparr>)))"

subsection \<open>Checks shared by the handlers\<close>

definition check_factor :: "apply_state \<Rightarrow> permission_level_weight \<Rightarrow> unit \<Rightarrow> unit result" where
  "check_factor s a u =
     eos_assert (fm_find (db_accounts s) (actor (plw_permission a)) \<noteq> None) Action_validate_exception
       (if permission (plw_permission a) = owner_name \<or> permission (plw_permission a) = active_name then Inr ()
        else if permission (plw_permission a) = eosio_code_name then Inr ()
        else
          (case get_permission (db_auth s) (plw_permission a) of
             Inl Permission_query_exception \<Rightarrow> Inl Action_validate_exception
           | Inl e \<Rightarrow> Inl e
           | Inr _ \<Rightarrow> Inr ()))"

definition check_key_list :: "contract_env \<Rightarrow> key_weight \<Rightarrow> unit \<Rightarrow> unit result" where
  "check_key_list env k u =
     (if 0 < length (ce_key_blacklist env)
      then eos_assert (kw_key k \<notin> set (ce_key_blacklist env)) Key_blacklist_exception (Inr ())
      else Inr ())"

definition validate_authority_precondition :: "contract_env \<Rightarrow> authority \<Rightarrow> apply_state \<Rightarrow> unit result" where
  "validate_authority_precondition env auth s =
     rbind (rfold (check_factor s) (auth_accounts auth) ()) (\<lambda>_.
     if ce_enforce_whiteblacklist env \<and> ce_is_producing_block env
     then rfold (check_key_list env) (auth_keys auth) ()
     else Inr ())"

text \<open>The loop that collects the distinct contract names of the actions table.\<close>

definition contract_accounts :: "(action_name, fioaction_object) flat_map \<Rightarrow> name list result" where
  "contract_accounts idx =
     rfold (\<lambda>itr sysaccts.
       rbind (name_set (contractname (snd itr))) (\<lambda>nm.
       Inr (if nm \<in> set sysaccts then sysaccts else nm # sysaccts))) idx []"

text \<open>The test of the actor that the handlers \<^verbatim>\<open>addaction\<close>, \<^verbatim>\<open>remaction\<close> and \<^verbatim>\<open>setcode\<close> share.\<close>

definition assert_system_actor :: "contract_env \<Rightarrow> apply_state \<Rightarrow> account_name \<Rightarrow> unit result" where
  "assert_system_actor env s account =
     (if post_release_200_block_time < ce_head_block_time env
      then
        rbind (contract_accounts (db_fioactions s)) (\<lambda>sysaccts.
        if account \<notin> set sysaccts
        then eos_assert (account \<in> set well_known_accounts) Fio_invalid_account_or_action (Inr ())
        else eos_assert (account \<in> set sysaccts) Fio_invalid_account_or_action (Inr ()))
      else eos_assert (account \<in> set well_known_accounts) Fio_invalid_account_or_action (Inr ()))"

subsection \<open>The handlers\<close>

definition apply_eosio_addaction ::
  "contract_env \<Rightarrow> permission_level list \<Rightarrow> addaction \<Rightarrow> apply_state \<Rightarrow> apply_state result" where
  "apply_eosio_addaction env auths create s =
     rbind (require_authorization auths (add_actor create)) (\<lambda>_.
     rbind (assert_system_actor env s (add_actor create)) (\<lambda>_.
     rbind (name_set (add_contract create)) (\<lambda>contract.
     let name_str = name_to_string (add_action create);
         contract_str = name_to_string contract
     in eos_assert (add_action create \<noteq> 0) Action_validate_exception (
        eos_assert (length name_str \<le> 12) Action_validate_exception (
        eos_assert (add_contract create \<noteq> []) Action_validate_exception (
        eos_assert (length contract_str \<le> 12) Action_validate_exception (
        eos_assert (add_actor create \<noteq> 0) Action_validate_exception (
        eos_assert (add_contract create \<noteq> []) Action_validate_exception (
        eos_assert (fm_find (db_fioactions s) (add_action create) = None) Account_name_exists_exception (
        rbind (row_create (db_fioactions s) (add_action create)
                 \<lparr>contractname = add_contract create,
                  fa_blocktimestamp = of_int (pending_block_time (ce_auth env))\<rparr>) (\<lambda>rows.
        Inr (s\<lparr>db_fioactions := rows\<rparr>))))))))))))"

definition apply_eosio_remaction ::
  "contract_env \<Rightarrow> permission_level list \<Rightarrow> remaction \<Rightarrow> apply_state \<Rightarrow> apply_state result" where
  "apply_eosio_remaction env auths rem s =
     rbind (require_authorization auths (rem_actor rem)) (\<lambda>_.
     rbind (assert_system_actor env s (rem_actor rem)) (\<lambda>_.
     let name_str = name_to_string (rem_action rem)
     in eos_assert (rem_action rem \<noteq> 0) Action_validate_exception (
        eos_assert (length name_str \<le> 12) Action_validate_exception (
        eos_assert (rem_actor rem \<noteq> 0) Action_validate_exception (
        eos_assert (fm_find (db_fioactions s) (rem_action rem) \<noteq> None) Account_name_exists_exception (
        Inr (s\<lparr>db_fioactions := fm_erase (db_fioactions s) (rem_action rem)\<rparr>)))))))"

definition apply_eosio_newaccount ::
  "contract_env \<Rightarrow> permission_level list \<Rightarrow> newaccount \<Rightarrow> apply_state \<Rightarrow> apply_state result" where
  "apply_eosio_newaccount env auths create s =
     rbind (require_authorization auths (new_creator create)) (\<lambda>_.
     eos_assert (validate_authority (ce_key_less env) (new_owner create)) Action_validate_exception (
     eos_assert (validate_authority (ce_key_less env) (new_active create)) Action_validate_exception (
     let name_str = name_to_string (new_name create)
     in eos_assert (new_name create \<noteq> 0) Action_validate_exception (
        eos_assert (length name_str \<le> 12) Action_validate_exception (
        rbind (row_get (db_metadata s) (new_creator create)) (\<lambda>creator.
        eos_assert (is_privileged creator \<or> \<not> eosio_prefix name_str) Action_validate_exception (
        eos_assert (fm_find (db_accounts s) (new_name create) = None) Account_name_exists_exception (
        rbind (row_create (db_accounts s) (new_name create)
                 \<lparr>creation_date = set_time_point (of_int (pending_block_time (ce_auth env))), ao_abi = []\<rparr>) (\<lambda>accounts.
        rbind (row_create (db_metadata s) (new_name create) metadata_init) (\<lambda>metadata.
        let s1 = s\<lparr>db_accounts := accounts, db_metadata := metadata\<rparr>
        in rbind (validate_authority_precondition env (new_owner create) s1) (\<lambda>_.
           rbind (validate_authority_precondition env (new_active create) s1) (\<lambda>_.
           rbind (create_permission (ce_auth env) (new_name create) owner_name 0 (new_owner create) 0 (db_auth s1))
             (\<lambda>(owner_permission, auth1).
           rbind (create_permission (ce_auth env) (new_name create) active_name (po_id owner_permission)
                    (new_active create) 0 auth1) (\<lambda>(active_permission, auth2).
           rbind (initialize_account (new_name create) (db_limits s1)) (\<lambda>rl.
           let ram_delta = overhead_per_account_ram_bytes + 2 * permission_object_size
                 + get_billable_size (ce_pack_size env) (po_auth owner_permission)
                 + get_billable_size (ce_pack_size env) (po_auth active_permission)
           in add_ram_usage (new_name create) ram_delta (s1\<lparr>db_auth := auth2, db_limits := rl\<rparr>))))))))))))))))"

text \<open>\<^verbatim>\<open>setcode\<close> first drops its reference to the old code. The note to the WASM cache that the last
  reference is gone has no effect on the tables.\<close>

definition release_code :: "account_metadata_object \<Rightarrow> digest \<Rightarrow> apply_state \<Rightarrow> (i64 \<times> apply_state) result" where
  "release_code account code_hash s =
     (if am_code_hash account = digest_zero then Inr (0, s)
      else
        (let k = (am_code_hash account, am_vm_type account, am_vm_version account)
         in rbind (row_get (db_codes s) k) (\<lambda>old_code_entry.
            eos_assert (am_code_hash account \<noteq> code_hash) Set_exact_code (
            let old_size = of_nat (length (co_code old_code_entry)) * setcode_ram_bytes_multiplier
            in if code_ref_count old_code_entry = 1
               then Inr (old_size, s\<lparr>db_codes := fm_erase (db_codes s) k\<rparr>)
               else Inr (old_size, s\<lparr>db_codes := fm_set (db_codes s) k
                      (old_code_entry\<lparr>code_ref_count := code_ref_count old_code_entry - 1\<rparr>)\<rparr>)))))"

definition acquire_code :: "contract_env \<Rightarrow> setcode \<Rightarrow> digest \<Rightarrow> apply_state \<Rightarrow> apply_state result" where
  "acquire_code env act code_hash s =
     (if sc_code act = [] then Inr s
      else
        (let k = (code_hash, sc_vmtype act, sc_vmversion act)
         in case fm_find (db_codes s) k of
              Some new_code_entry \<Rightarrow>
                Inr (s\<lparr>db_codes := fm_set (db_codes s) k
                       (new_code_entry\<lparr>code_ref_count := code_ref_count new_code_entry + 1\<rparr>)\<rparr>)
            | None \<Rightarrow>
                rbind (row_create (db_codes s) k
                         \<lparr>co_code = sc_code act, code_ref_count = 1,
                          first_block_used = ce_head_block_num env + 1\<rparr>) (\<lambda>rows.
                Inr (s\<lparr>db_codes := rows\<rparr>))))"

definition apply_eosio_setcode ::
  "contract_env \<Rightarrow> permission_level list \<Rightarrow> setcode \<Rightarrow> apply_state \<Rightarrow> apply_state result" where
  "apply_eosio_setcode env auths act s =
     rbind (require_authorization auths (sc_account act)) (\<lambda>_.
     rbind (assert_system_actor env s (sc_account act)) (\<lambda>_.
     eos_assert (sc_vmtype act = 0) Invalid_contract_vm_type (
     eos_assert (sc_vmversion act = 0) Invalid_contract_vm_version (
     let code_size = length (sc_code act);
         code_hash = (if 0 < code_size then ce_sha256 env (sc_code act) else digest_zero)
     in rbind (if 0 < code_size then ce_wasm_validate env (sc_code act) else Inr ()) (\<lambda>_.
        rbind (row_get (db_metadata s) (sc_account act)) (\<lambda>account.
        let existing_code = (am_code_hash account \<noteq> digest_zero);
            new_size = of_nat code_size * setcode_ram_bytes_multiplier
        in eos_assert (0 < code_size \<or> existing_code) Set_exact_code (
           rbind (release_code account code_hash s) (\<lambda>(old_size, s1).
           rbind (acquire_code env act code_hash s1) (\<lambda>s2.
           let account' = account\<lparr>code_sequence := code_sequence account + 1, am_code_hash := code_hash,
                            am_vm_type := sc_vmtype act, am_vm_version := sc_vmversion act,
                            last_code_update := pending_block_time (ce_auth env)\<rparr>;
               s3 = s2\<lparr>db_metadata := fm_set (db_metadata s2) (sc_account act) account'\<rparr>
           in if new_size \<noteq> old_size then add_ram_usage (sc_account act) (new_size - old_size) s3
              else Inr s3)))))))))"

definition apply_eosio_setabi ::
  "contract_env \<Rightarrow> permission_level list \<Rightarrow> setabi \<Rightarrow> apply_state \<Rightarrow> apply_state result" where
  "apply_eosio_setabi env auths act s =
     rbind (require_authorization auths (sa_account act)) (\<lambda>_.
     rbind (row_get (db_accounts s) (sa_account act)) (\<lambda>account.
     let old_size = (of_nat (length (ao_abi account)) :: i64);
         new_size = of_nat (length (sa_abi act));
         s1 = s\<lparr>db_accounts := fm_set (db_accounts s) (sa_account act) (account\<lparr>ao_abi := sa_abi act\<rparr>)\<rparr>
     in rbind (row_get (db_metadata s1) (sa_account act)) (\<lambda>account_metadata.
        let s2 = s1\<lparr>db_metadata := fm_set (db_metadata s1) (sa_account act)
                       (account_metadata\<lparr>abi_sequence := abi_sequence account_metadata + 1\<rparr>)\<rparr>
        in if new_size \<noteq> old_size then add_ram_usage (sa_account act) (new_size - old_size) s2
           else Inr s2)))"

definition permission_size :: "contract_env \<Rightarrow> authority \<Rightarrow> i64" where
  "permission_size env auth = permission_object_size + get_billable_size (ce_pack_size env) auth"

text \<open>The tests of \<^verbatim>\<open>updateauth\<close> on its arguments.\<close>

definition check_update :: "contract_env \<Rightarrow> updateauth \<Rightarrow> apply_state \<Rightarrow> unit result" where
  "check_update env update s =
     eos_assert (upd_permission update \<noteq> 0) Action_validate_exception (
     eos_assert (\<not> eosio_prefix (name_to_string (upd_permission update))) Action_validate_exception (
     eos_assert (upd_permission update \<noteq> upd_parent update) Action_validate_exception (
     rbind (row_get (db_accounts s) (upd_account update)) (\<lambda>_.
     eos_assert (validate_authority (ce_key_less env) (upd_auth update)) Action_validate_exception (
     eos_assert (upd_permission update = active_name \<longrightarrow> upd_parent update = owner_name)
       Action_validate_exception (
     eos_assert (if upd_permission update = owner_name then upd_parent update = 0 else upd_parent update \<noteq> 0)
       Action_validate_exception (
     eos_assert (auth_waits (upd_auth update) \<noteq> [] \<longrightarrow>
         wait_sec (last (auth_waits (upd_auth update))) \<le> max_transaction_delay (ce_auth env))
       Action_validate_exception (
     validate_authority_precondition env (upd_auth update) s))))))))"

definition apply_eosio_updateauth ::
  "contract_env \<Rightarrow> permission_level list \<Rightarrow> updateauth \<Rightarrow> apply_state \<Rightarrow> apply_state result" where
  "apply_eosio_updateauth env auths update s =
     rbind (require_authorization auths (upd_account update)) (\<lambda>_.
     rbind (check_update env update s) (\<lambda>_.
     rbind (find_permission (db_auth s) (upd_account update, upd_permission update)) (\<lambda>found.
     rbind (if upd_permission update \<noteq> owner_name
            then rbind (get_permission (db_auth s) (upd_account update, upd_parent update)) (\<lambda>parent. Inr (po_id parent))
            else Inr 0) (\<lambda>parent_id.
     case found of
       Some p \<Rightarrow>
         eos_assert (parent_id = po_parent p) Action_validate_exception (
         let old_size = permission_size env (po_auth p);
             s1 = s\<lparr>db_auth := modify_permission (ce_auth env) p (upd_auth update) (db_auth s)\<rparr>;
             new_size = permission_size env (upd_auth update)
         in add_ram_usage (po_owner p) (new_size - old_size) s1)
     | None \<Rightarrow>
         rbind (create_permission (ce_auth env) (upd_account update) (upd_permission update) parent_id
                  (upd_auth update) 0 (db_auth s)) (\<lambda>(p, auth').
         let new_size = permission_size env (po_auth p)
         in add_ram_usage (upd_account update) new_size (s\<lparr>db_auth := auth'\<rparr>))))))"

definition apply_eosio_deleteauth ::
  "contract_env \<Rightarrow> permission_level list \<Rightarrow> deleteauth \<Rightarrow> apply_state \<Rightarrow> apply_state result" where
  "apply_eosio_deleteauth env auths rem s =
     rbind (require_authorization auths (del_account rem)) (\<lambda>_.
     eos_assert (del_permission rem \<noteq> active_name) Action_validate_exception (
     eos_assert (del_permission rem \<noteq> owner_name) Action_validate_exception (
     eos_assert (\<forall>e \<in> set (link_rows (db_auth s)). \<not> (fst (fst e) = del_account rem \<and> snd e = del_permission rem))
       Action_validate_exception (
     rbind (get_permission (db_auth s) (del_account rem, del_permission rem)) (\<lambda>p.
     let old_size = permission_size env (po_auth p)
     in rbind (remove_permission p (db_auth s)) (\<lambda>auth'.
        add_ram_usage (del_account rem) (- old_size) (s\<lparr>db_auth := auth'\<rparr>)))))))"

definition apply_eosio_linkauth ::
  "contract_env \<Rightarrow> permission_level list \<Rightarrow> linkauth \<Rightarrow> apply_state \<Rightarrow> apply_state result" where
  "apply_eosio_linkauth env auths req s =
     eos_assert (link_requirement req \<noteq> 0) Action_validate_exception (
     rbind (require_authorization auths (link_account req)) (\<lambda>_.
     eos_assert (fm_find (db_accounts s) (link_account req) \<noteq> None) Account_query_exception (
     eos_assert (fm_find (db_accounts s) (link_code req) \<noteq> None) Account_query_exception (
     eos_assert (link_requirement req \<noteq> eosio_any_name \<longrightarrow>
         (if ce_only_link_to_existing_permission env
          then perm_by_owner (db_auth s) (link_account req, link_requirement req) \<noteq> None
          else \<exists>p \<in> set (map snd (perm_rows (db_auth s))). po_name p = link_requirement req))
       Permission_query_exception (
     let link_key = (link_account req, link_code req, link_type req);
         links = link_rows (db_auth s)
     in case fm_find links link_key of
          Some required \<Rightarrow>
            eos_assert (required \<noteq> link_requirement req) Action_validate_exception (
            Inr (s\<lparr>db_auth := (db_auth s)\<lparr>link_rows := fm_set links link_key (link_requirement req)\<rparr>\<rparr>))
        | None \<Rightarrow>
            rbind (row_create links link_key (link_requirement req)) (\<lambda>rows.
            add_ram_usage (link_account req) permission_link_object_size
              (s\<lparr>db_auth := (db_auth s)\<lparr>link_rows := rows\<rparr>\<rparr>)))))))"

definition apply_eosio_unlinkauth ::
  "contract_env \<Rightarrow> permission_level list \<Rightarrow> unlinkauth \<Rightarrow> apply_state \<Rightarrow> apply_state result" where
  "apply_eosio_unlinkauth env auths unlink s =
     rbind (require_authorization auths (unl_account unlink)) (\<lambda>_.
     let link_key = (unl_account unlink, unl_code unlink, unl_type unlink)
     in eos_assert (fm_find (link_rows (db_auth s)) link_key \<noteq> None) Action_validate_exception (
        rbind (add_ram_usage (unl_account unlink) (- permission_link_object_size) s) (\<lambda>s1.
        Inr (s1\<lparr>db_auth := (db_auth s1)\<lparr>link_rows := fm_erase (link_rows (db_auth s1)) link_key\<rparr>\<rparr>))))"

definition apply_eosio_canceldelay ::
  "contract_env \<Rightarrow> permission_level list \<Rightarrow> canceldelay \<Rightarrow> apply_state \<Rightarrow> apply_state result" where
  "apply_eosio_canceldelay env auths cancel s =
     rbind (require_authorization auths (actor (canceling_auth cancel))) (\<lambda>_.
     rbind (cancel_deferred_transaction (transaction_id_to_sender_id (cancel_trx_id cancel)) 0 s) (\<lambda>(_, s1).
     Inr s1))"

subsection \<open>Dispatch\<close>

definition newaccount_name :: name where
  "newaccount_name = string_to_name ''newaccount''"

definition setcode_name :: name where
  "setcode_name = string_to_name ''setcode''"

definition setabi_name :: name where
  "setabi_name = string_to_name ''setabi''"

definition addaction_name :: name where
  "addaction_name = string_to_name ''addaction''"

definition remaction_name :: name where
  "remaction_name = string_to_name ''remaction''"

definition data_as :: "name \<Rightarrow> (bytes \<Rightarrow> 'a result) \<Rightarrow> action \<Rightarrow> 'a result" where
  "data_as nm unpack act =
     eos_assert (act_account act = system_account_name) Action_type_exception (
     eos_assert (act_name act = nm) Action_type_exception (unpack (act_data act)))"

text \<open>The handlers that the controller registers, and the call of the one found for an action; an action
  without a native handler changes nothing here.\<close>

definition apply_handlers ::
  "contract_env \<Rightarrow> action \<Rightarrow> (name \<times> (apply_state \<Rightarrow> apply_state result)) list" where
  "apply_handlers env act =
     (let auths = act_authorization act
      in [(newaccount_name, \<lambda>s. rbind (data_as newaccount_name (unpack_newaccount env) act) (\<lambda>d.
             apply_eosio_newaccount env auths d s)),
          (setcode_name, \<lambda>s. rbind (data_as setcode_name (unpack_setcode env) act) (\<lambda>d.
             apply_eosio_setcode env auths d s)),
          (setabi_name, \<lambda>s. rbind (data_as setabi_name (unpack_setabi env) act) (\<lambda>d.
             apply_eosio_setabi env auths d s)),
          (updateauth_name, \<lambda>s. rbind (data_as updateauth_name (unpack_updateauth (ce_auth env)) act) (\<lambda>d.
             apply_eosio_updateauth env auths d s)),
          (deleteauth_name, \<lambda>s. rbind (data_as deleteauth_name (unpack_deleteauth (ce_auth env)) act) (\<lambda>d.
             apply_eosio_deleteauth env auths d s)),
          (linkauth_name, \<lambda>s. rbind (data_as linkauth_name (unpack_linkauth (ce_auth env)) act) (\<lambda>d.
             apply_eosio_linkauth env auths d s)),
          (unlinkauth_name, \<lambda>s. rbind (data_as unlinkauth_name (unpack_unlinkauth (ce_auth env)) act) (\<lambda>d.
             apply_eosio_unlinkauth env auths d s)),
          (addaction_name, \<lambda>s. rbind (data_as addaction_name (unpack_addaction env) act) (\<lambda>d.
             apply_eosio_addaction env auths d s)),
          (remaction_name, \<lambda>s. rbind (data_as remaction_name (unpack_remaction env) act) (\<lambda>d.
             apply_eosio_remaction env auths d s)),
          (canceldelay_name, \<lambda>s. rbind (data_as canceldelay_name (unpack_canceldelay (ce_auth env)) act) (\<lambda>d.
             apply_eosio_canceldelay env auths d s))])"

definition find_apply_handler ::
  "contract_env \<Rightarrow> account_name \<Rightarrow> action \<Rightarrow> (apply_state \<Rightarrow> apply_state result) option" where
  "find_apply_handler env receiver act =
     (if receiver = system_account_name \<and> act_account act = system_account_name
      then map_of (apply_handlers env act) (act_name act)
      else None)"

definition apply_native :: "contract_env \<Rightarrow> account_name \<times> action \<Rightarrow> apply_state \<Rightarrow> apply_state result" where
  "apply_native env ra s =
     (case find_apply_handler env (fst ra) (snd ra) of None \<Rightarrow> Inr s | Some native \<Rightarrow> native s)"

subsection \<open>The accounts of the genesis state\<close>

text \<open>The part of the controller's \<^verbatim>\<open>initialize_database\<close> that fills the tables above. The packed ABI of the
  system contract is an argument.\<close>

record genesis_state =
  initial_timestamp :: int
  initial_key :: public_key_type
  eosio_abi :: bytes

definition null_account_name :: name where
  "null_account_name = string_to_name ''eosio.null''"

definition producers_account_name :: name where
  "producers_account_name = string_to_name ''eosio.prods''"

definition majority_producers_permission_name :: name where
  "majority_producers_permission_name = string_to_name ''prod.major''"

definition minority_producers_permission_name :: name where
  "minority_producers_permission_name = string_to_name ''prod.minor''"

definition create_native_account ::
  "contract_env \<Rightarrow> genesis_state \<Rightarrow> account_name \<Rightarrow> authority \<Rightarrow> authority \<Rightarrow> bool \<Rightarrow> apply_state \<Rightarrow>
     apply_state result" where
  "create_native_account env gen nm owner active privileged s =
     rbind (row_create (db_accounts s) nm
              \<lparr>creation_date = set_time_point (of_int (initial_timestamp gen)),
               ao_abi = if nm = system_account_name then eosio_abi gen else []\<rparr>) (\<lambda>accounts.
     rbind (row_create (db_metadata s) nm (set_privileged privileged metadata_init)) (\<lambda>metadata.
     rbind (create_permission (ce_auth env) nm owner_name 0 owner (initial_timestamp gen) (db_auth s))
       (\<lambda>(owner_permission, auth1).
     rbind (create_permission (ce_auth env) nm active_name (po_id owner_permission) active (initial_timestamp gen) auth1)
       (\<lambda>(active_permission, auth2).
     rbind (initialize_account nm (db_limits s)) (\<lambda>rl1.
     let ram_delta = overhead_per_account_ram_bytes + 2 * permission_object_size
           + get_billable_size (ce_pack_size env) (po_auth owner_permission)
           + get_billable_size (ce_pack_size env) (po_auth active_permission)
     in rbind (add_pending_ram_usage nm ram_delta rl1) (\<lambda>rl2.
        rbind (verify_account_ram_usage rl2 nm) (\<lambda>_.
        Inr (s\<lparr>db_accounts := accounts, db_metadata := metadata, db_auth := auth2, db_limits := rl2\<rparr>))))))))"

definition initial_tables :: apply_state where
  "initial_tables =
     \<lparr>db_accounts = [], db_metadata = [], db_codes = [], db_fioactions = [], db_auth = auth_initialize_database,
      db_limits = initialize_database, db_generated = [], validate_ram_usage = {}, account_ram_deltas = []\<rparr>"

definition initialize_accounts :: "contract_env \<Rightarrow> genesis_state \<Rightarrow> apply_state result" where
  "initialize_accounts env gen =
     (let system_auth = authority_of_key (initial_key gen) 0;
          empty_authority = \<lparr>threshold = 1, auth_keys = [], auth_accounts = [], auth_waits = []\<rparr>;
          active_producers_authority = empty_authority\<lparr>auth_accounts :=
            [\<lparr>plw_permission = (system_account_name, active_name), plw_weight = 1\<rparr>]\<rparr>
      in rbind (create_native_account env gen system_account_name system_auth system_auth True initial_tables) (\<lambda>s1.
         rbind (create_native_account env gen null_account_name empty_authority empty_authority False s1) (\<lambda>s2.
         rbind (create_native_account env gen producers_account_name empty_authority active_producers_authority
                  False s2) (\<lambda>s3.
         rbind (get_permission (db_auth s3) (producers_account_name, active_name)) (\<lambda>active_permission.
         rbind (create_permission (ce_auth env) producers_account_name majority_producers_permission_name
                  (po_id active_permission) active_producers_authority (initial_timestamp gen) (db_auth s3))
           (\<lambda>(majority_permission, auth1).
         rbind (create_permission (ce_auth env) producers_account_name minority_producers_permission_name
                  (po_id majority_permission) active_producers_authority (initial_timestamp gen) auth1)
           (\<lambda>(_, auth2).
         Inr (s3\<lparr>db_auth := auth2\<rparr>))))))))"

end
