(* ===== verification/Contract_Invariant.thy ===== *)
theory Contract_Invariant
  imports Eosio_Contract
begin

text \<open>
  What the native handlers keep of the tables: every account has its metadata, its resource limits and the pair
  of its owner and active permissions, the code table holds each code once with the number of accounts that run
  it, and the contract names of the actions table can be read back.
\<close>

section \<open>Results of the handlers\<close>

lemma fm_set_keys_same:
  assumes "fm_find m k = Some v"
  shows "fst ` set (fm_set m k w) = fst ` set m"
proof -
  have "k \<in> fst ` set m" using assms fm_find_keys [of m k] by simp
  then show ?thesis by (simp only: fm_set_key_set insert_absorb)
qed

lemma find_Some_member: "find P xs = Some x \<Longrightarrow> x \<in> set xs"
  by (auto simp: find_Some_iff)

lemma add_ram_usage_frame:
  assumes "add_ram_usage a d s = Inr t"
  shows "db_accounts t = db_accounts s" "db_metadata t = db_metadata s" "db_codes t = db_codes s"
    "db_fioactions t = db_fioactions s" "db_auth t = db_auth s" "db_generated t = db_generated s"
    "add_pending_ram_usage a d (db_limits s) = Inr (db_limits t)"
  using assms by (auto simp: add_ram_usage_def trx_add_ram_usage_def Let_def result_simps)

lemma add_pending_ram_usage_keys:
  assumes "add_pending_ram_usage a d s = Inr s'"
  shows "fst ` set (rl_usage s') = fst ` set (rl_usage s)"
proof -
  have "rl_usage s' = rl_usage s \<or>
      (\<exists>u u'. fm_find (rl_usage s) a = Some u \<and> rl_usage s' = fm_set (rl_usage s) a u')"
    using assms by (auto simp: add_pending_ram_usage_def result_simps split: if_splits)
  then show ?thesis by (elim disjE exE conjE) (simp_all only: fm_set_keys_same)
qed

lemma newaccount_Inr:
  assumes "apply_eosio_newaccount env auths c s = Inr t"
  obtains oz ac auth1 rl where
    "validate_authority (ce_key_less env) (new_owner c)" "validate_authority (ce_key_less env) (new_active c)"
    "new_name c \<noteq> 0" "fm_find (db_accounts s) (new_name c) = None" "fm_find (db_metadata s) (new_name c) = None"
    "create_permission (ce_auth env) (new_name c) owner_name 0 (new_owner c) 0 (db_auth s) = Inr (oz, auth1)"
    "create_permission (ce_auth env) (new_name c) active_name (po_id oz) (new_active c) 0 auth1 =
       Inr (ac, db_auth t)"
    "initialize_account (new_name c) (db_limits s) = Inr rl"
    "add_pending_ram_usage (new_name c) (overhead_per_account_ram_bytes + 2 * permission_object_size
       + get_billable_size (ce_pack_size env) (po_auth oz) + get_billable_size (ce_pack_size env) (po_auth ac)) rl =
       Inr (db_limits t)"
    "db_accounts t = fm_set (db_accounts s) (new_name c)
       \<lparr>creation_date = set_time_point (of_int (pending_block_time (ce_auth env))), ao_abi = []\<rparr>"
    "db_metadata t = fm_set (db_metadata s) (new_name c) metadata_init"
    "db_codes t = db_codes s" "db_fioactions t = db_fioactions s" "db_generated t = db_generated s"
proof -
  from assms obtain s1 oz ac auth1 auth2 rl where
    *: "validate_authority (ce_key_less env) (new_owner c)" "validate_authority (ce_key_less env) (new_active c)"
    "new_name c \<noteq> 0" "fm_find (db_accounts s) (new_name c) = None" "fm_find (db_metadata s) (new_name c) = None"
    and s1: "s1 = s\<lparr>db_accounts := fm_set (db_accounts s) (new_name c)
       \<lparr>creation_date = set_time_point (of_int (pending_block_time (ce_auth env))), ao_abi = []\<rparr>,
       db_metadata := fm_set (db_metadata s) (new_name c) metadata_init\<rparr>"
    and p: "create_permission (ce_auth env) (new_name c) owner_name 0 (new_owner c) 0 (db_auth s1) = Inr (oz, auth1)"
    "create_permission (ce_auth env) (new_name c) active_name (po_id oz) (new_active c) 0 auth1 = Inr (ac, auth2)"
    "initialize_account (new_name c) (db_limits s1) = Inr rl"
    and r: "add_ram_usage (new_name c) (overhead_per_account_ram_bytes + 2 * permission_object_size
       + get_billable_size (ce_pack_size env) (po_auth oz) + get_billable_size (ce_pack_size env) (po_auth ac))
       (s1\<lparr>db_auth := auth2, db_limits := rl\<rparr>) = Inr t"
    by (auto simp: apply_eosio_newaccount_def Let_def result_simps split: prod.splits)
  show ?thesis
    by (rule that [OF *]) (use p add_ram_usage_frame [OF r] in \<open>simp_all add: s1\<close>)
qed

text \<open>\<^verbatim>\<open>updateauth\<close> changes a permission of the account or adds one.\<close>

lemma updateauth_cases:
  assumes "apply_eosio_updateauth env auths u s = Inr t"
  obtains (modified) p where
      "perm_by_owner (db_auth s) (upd_account u, upd_permission u) = Some p" "upd_account u \<noteq> 0"
      "add_ram_usage (po_owner p) (permission_size env (upd_auth u) - permission_size env (po_auth p))
         (s\<lparr>db_auth := modify_permission (ce_auth env) p (upd_auth u) (db_auth s)\<rparr>) = Inr t"
    | (created) p parent_id auth' where
      "create_permission (ce_auth env) (upd_account u) (upd_permission u) parent_id (upd_auth u) 0 (db_auth s) =
         Inr (p, auth')"
      "parent_id = 0 \<or> (\<exists>q. perm_by_owner (db_auth s) (upd_account u, upd_parent u) = Some q \<and> parent_id = po_id q)"
      "add_ram_usage (upd_account u) (permission_size env (po_auth p)) (s\<lparr>db_auth := auth'\<rparr>) = Inr t"
proof -
  obtain found parent_id where
      found: "find_permission (db_auth s) (upd_account u, upd_permission u) = Inr found"
      and par: "(if upd_permission u \<noteq> owner_name
            then rbind (get_permission (db_auth s) (upd_account u, upd_parent u)) (\<lambda>parent. Inr (po_id parent))
            else Inr 0) = Inr parent_id"
      and step: "(case found of
       Some p \<Rightarrow>
         eos_assert (parent_id = po_parent p) Action_validate_exception (
         add_ram_usage (po_owner p) (permission_size env (upd_auth u) - permission_size env (po_auth p))
           (s\<lparr>db_auth := modify_permission (ce_auth env) p (upd_auth u) (db_auth s)\<rparr>))
     | None \<Rightarrow>
         rbind (create_permission (ce_auth env) (upd_account u) (upd_permission u) parent_id
                  (upd_auth u) 0 (db_auth s)) (\<lambda>(p, auth').
         add_ram_usage (upd_account u) (permission_size env (po_auth p)) (s\<lparr>db_auth := auth'\<rparr>))) = Inr t"
    using assms unfolding apply_eosio_updateauth_def rbind_eq_Inr Let_def by blast
  have f: "perm_by_owner (db_auth s) (upd_account u, upd_permission u) = found" "upd_account u \<noteq> 0"
    using found by (auto simp: find_permission_def result_simps)
  have q: "parent_id = 0 \<or>
      (\<exists>q. perm_by_owner (db_auth s) (upd_account u, upd_parent u) = Some q \<and> parent_id = po_id q)"
    using par by (auto simp: get_permission_def result_simps split: if_splits option.splits)
  show ?thesis
  proof (cases found)
    case None
    then obtain p auth' where "create_permission (ce_auth env) (upd_account u) (upd_permission u) parent_id
         (upd_auth u) 0 (db_auth s) = Inr (p, auth')"
      "add_ram_usage (upd_account u) (permission_size env (po_auth p)) (s\<lparr>db_auth := auth'\<rparr>) = Inr t"
      using step by (auto simp: result_simps)
    then show ?thesis using created [OF _ q] by blast
  next
    case (Some p)
    then have "add_ram_usage (po_owner p) (permission_size env (upd_auth u) - permission_size env (po_auth p))
         (s\<lparr>db_auth := modify_permission (ce_auth env) p (upd_auth u) (db_auth s)\<rparr>) = Inr t"
      using step by (auto simp: result_simps)
    then show ?thesis using modified Some f by blast
  qed
qed

lemma updateauth_Inr:
  assumes "apply_eosio_updateauth env auths u s = Inr t"
  shows "fm_find (db_accounts s) (upd_account u) \<noteq> None" "validate_authority (ce_key_less env) (upd_auth u)"
    and "db_accounts t = db_accounts s" "db_metadata t = db_metadata s" "db_codes t = db_codes s"
      "db_fioactions t = db_fioactions s" "db_generated t = db_generated s"
proof -
  have *: "\<exists>v. row_get (db_accounts s) (upd_account u) = Inr v" "validate_authority (ce_key_less env) (upd_auth u)"
    using assms unfolding apply_eosio_updateauth_def check_update_def rbind_eq_Inr eos_assert_Inr by blast+
  then show "fm_find (db_accounts s) (upd_account u) \<noteq> None" "validate_authority (ce_key_less env) (upd_auth u)"
    by auto
  show "db_accounts t = db_accounts s" "db_metadata t = db_metadata s" "db_codes t = db_codes s"
      "db_fioactions t = db_fioactions s" "db_generated t = db_generated s"
    using assms by (cases rule: updateauth_cases; (drule add_ram_usage_frame)?; simp add: add_ram_usage_frame)+
qed

lemma deleteauth_Inr:
  assumes "apply_eosio_deleteauth env auths r s = Inr t"
  obtains p where "perm_by_owner (db_auth s) (del_account r, del_permission r) = Some p"
    "del_account r \<noteq> 0" "del_permission r \<noteq> active_name" "del_permission r \<noteq> owner_name"
    "remove_permission p (db_auth s) = Inr (db_auth t)"
    "add_pending_ram_usage (del_account r) (- permission_size env (po_auth p)) (db_limits s) = Inr (db_limits t)"
    "db_accounts t = db_accounts s" "db_metadata t = db_metadata s" "db_codes t = db_codes s"
    "db_fioactions t = db_fioactions s" "db_generated t = db_generated s"
proof -
  obtain p auth' where *: "get_permission (db_auth s) (del_account r, del_permission r) = Inr p"
      "del_permission r \<noteq> active_name" "del_permission r \<noteq> owner_name"
      "remove_permission p (db_auth s) = Inr auth'"
      "add_ram_usage (del_account r) (- permission_size env (po_auth p)) (s\<lparr>db_auth := auth'\<rparr>) = Inr t"
    using assms unfolding apply_eosio_deleteauth_def rbind_eq_Inr Let_def eos_assert_Inr by blast
  have p: "perm_by_owner (db_auth s) (del_account r, del_permission r) = Some p" "del_account r \<noteq> 0"
    using *(1) by (auto simp: get_permission_def result_simps split: option.splits)
  show ?thesis by (rule that [OF p *(2,3)]) (use *(4) add_ram_usage_frame [OF *(5)] in simp_all)
qed

text \<open>\<^verbatim>\<open>linkauth\<close> and \<^verbatim>\<open>unlinkauth\<close> write one row of the links.\<close>

lemma linkauth_Inr:
  assumes "apply_eosio_linkauth env auths r s = Inr t"
  defines "k \<equiv> (link_account r, link_code r, link_type r)"
  shows "db_auth t = (db_auth s)\<lparr>link_rows := fm_set (link_rows (db_auth s)) k (link_requirement r)\<rparr>"
    and "if fm_find (link_rows (db_auth s)) k = None
         then add_pending_ram_usage (link_account r) permission_link_object_size (db_limits s) = Inr (db_limits t)
         else db_limits t = db_limits s"
    and "db_accounts t = db_accounts s" "db_metadata t = db_metadata s" "db_codes t = db_codes s"
      "db_fioactions t = db_fioactions s" "db_generated t = db_generated s"
  using assms(1) unfolding k_def
  by (auto simp: apply_eosio_linkauth_def result_simps Let_def dest: add_ram_usage_frame split: option.splits)

lemma unlinkauth_Inr:
  assumes "apply_eosio_unlinkauth env auths r s = Inr t"
  defines "k \<equiv> (unl_account r, unl_code r, unl_type r)"
  shows "fm_find (link_rows (db_auth s)) k \<noteq> None"
    and "db_auth t = (db_auth s)\<lparr>link_rows := fm_erase (link_rows (db_auth s)) k\<rparr>"
    and "add_pending_ram_usage (unl_account r) (- permission_link_object_size) (db_limits s) = Inr (db_limits t)"
    and "db_accounts t = db_accounts s" "db_metadata t = db_metadata s" "db_codes t = db_codes s"
      "db_fioactions t = db_fioactions s" "db_generated t = db_generated s"
  using assms(1) unfolding k_def
  by (auto simp: apply_eosio_unlinkauth_def result_simps Let_def dest: add_ram_usage_frame)

lemma canceldelay_cases:
  assumes "apply_eosio_canceldelay env auths r s = Inr t"
  obtains (none) "t = s"
    | (erased) id g s' where "(id, g) \<in> set (db_generated s)"
      "add_ram_usage (gto_payer g) (- (generated_transaction_object_size + of_nat (length (gto_packed_trx g)))) s =
         Inr s'"
      "t = s'\<lparr>db_generated := fm_erase (db_generated s') id\<rparr>"
proof -
  obtain b where c: "cancel_deferred_transaction (transaction_id_to_sender_id (cancel_trx_id r)) 0 s = Inr (b, t)"
    using assms by (auto simp: apply_eosio_canceldelay_def result_simps)
  show ?thesis
  proof (cases "gto_by_sender_id (db_generated s) 0 (transaction_id_to_sender_id (cancel_trx_id r))")
    case None
    then show ?thesis using c none by (simp add: cancel_deferred_transaction_def)
  next
    case (Some e)
    obtain id g where e: "e = (id, g)" by fastforce
    have m: "(id, g) \<in> set (db_generated s)"
      using find_Some_member [OF Some [unfolded gto_by_sender_id_def]] e by simp
    show ?thesis
      using c erased [OF m] Some unfolding e cancel_deferred_transaction_def
      by (simp only: option.case prod.case rbind_eq_Inr) auto
  qed
qed

lemma setabi_Inr:
  assumes "apply_eosio_setabi env auths r s = Inr t"
  obtains acc m where "fm_find (db_accounts s) (sa_account r) = Some acc"
    "fm_find (db_metadata s) (sa_account r) = Some m"
    "db_accounts t = fm_set (db_accounts s) (sa_account r) (acc\<lparr>ao_abi := sa_abi r\<rparr>)"
    "db_metadata t = fm_set (db_metadata s) (sa_account r) (m\<lparr>abi_sequence := abi_sequence m + 1\<rparr>)"
    "(of_nat (length (sa_abi r)) :: i64) = of_nat (length (ao_abi acc)) \<and> db_limits t = db_limits s \<or>
     add_pending_ram_usage (sa_account r) (of_nat (length (sa_abi r)) - of_nat (length (ao_abi acc))) (db_limits s) =
       Inr (db_limits t)"
    "db_auth t = db_auth s" "db_codes t = db_codes s" "db_fioactions t = db_fioactions s"
    "db_generated t = db_generated s"
proof -
  obtain acc m where *: "fm_find (db_accounts s) (sa_account r) = Some acc"
    "fm_find (db_metadata s) (sa_account r) = Some m"
    and st: "(if (of_nat (length (sa_abi r)) :: i64) \<noteq> of_nat (length (ao_abi acc))
       then add_ram_usage (sa_account r) (of_nat (length (sa_abi r)) - of_nat (length (ao_abi acc)))
         (s\<lparr>db_accounts := fm_set (db_accounts s) (sa_account r) (acc\<lparr>ao_abi := sa_abi r\<rparr>),
            db_metadata := fm_set (db_metadata s) (sa_account r) (m\<lparr>abi_sequence := abi_sequence m + 1\<rparr>)\<rparr>)
       else Inr (s\<lparr>db_accounts := fm_set (db_accounts s) (sa_account r) (acc\<lparr>ao_abi := sa_abi r\<rparr>),
            db_metadata := fm_set (db_metadata s) (sa_account r) (m\<lparr>abi_sequence := abi_sequence m + 1\<rparr>)\<rparr>)) =
       Inr t"
    using assms unfolding apply_eosio_setabi_def rbind_eq_Inr Let_def row_get_Inr
    by (simp split del: if_split cong: if_cong) blast
  show ?thesis
  proof (cases "(of_nat (length (sa_abi r)) :: i64) = of_nat (length (ao_abi acc))")
    case True
    show ?thesis by (rule that [OF *]) (use st True in auto)
  next
    case False
    with st have f: "add_ram_usage (sa_account r) (of_nat (length (sa_abi r)) - of_nat (length (ao_abi acc)))
         (s\<lparr>db_accounts := fm_set (db_accounts s) (sa_account r) (acc\<lparr>ao_abi := sa_abi r\<rparr>),
            db_metadata := fm_set (db_metadata s) (sa_account r) (m\<lparr>abi_sequence := abi_sequence m + 1\<rparr>)\<rparr>) = Inr t"
      by simp
    show ?thesis by (rule that [OF *]) (use add_ram_usage_frame [OF f] in simp_all)
  qed
qed

text \<open>\<^verbatim>\<open>setcode\<close> releases the old code of the account and acquires the new one.\<close>

lemma release_code_frame:
  assumes "release_code m h s = Inr (sz, s1)"
  shows "s1 = s\<lparr>db_codes := db_codes s1\<rparr>"
  using assms by (auto simp: release_code_def Let_def result_simps split: if_splits)

lemma acquire_code_frame:
  assumes "acquire_code env c h s = Inr s1"
  shows "s1 = s\<lparr>db_codes := db_codes s1\<rparr>"
  using assms by (auto simp: acquire_code_def Let_def result_simps split: if_splits option.splits)

definition setcode_hash :: "contract_env \<Rightarrow> setcode \<Rightarrow> digest" where
  "setcode_hash env c = (if sc_code c = [] then digest_zero else ce_sha256 env (sc_code c))"

definition setcode_metadata ::
  "contract_env \<Rightarrow> setcode \<Rightarrow> account_metadata_object \<Rightarrow> account_metadata_object" where
  "setcode_metadata env c m =
     m\<lparr>code_sequence := code_sequence m + 1, am_code_hash := setcode_hash env c, am_vm_type := 0,
       am_vm_version := 0, last_code_update := pending_block_time (ce_auth env)\<rparr>"

lemma setcode_Inr:
  assumes "apply_eosio_setcode env auths c s = Inr t"
  obtains m sz s1 s2 where "fm_find (db_metadata s) (sc_account c) = Some m" "sc_vmtype c = 0" "sc_vmversion c = 0"
    "release_code m (setcode_hash env c) s = Inr (sz, s1)" "acquire_code env c (setcode_hash env c) s1 = Inr s2"
    "db_codes t = db_codes s2"
    "db_metadata t = fm_set (db_metadata s) (sc_account c) (setcode_metadata env c m)"
    "of_nat (length (sc_code c)) * setcode_ram_bytes_multiplier = sz \<and> db_limits t = db_limits s \<or>
     add_pending_ram_usage (sc_account c) (of_nat (length (sc_code c)) * setcode_ram_bytes_multiplier - sz)
       (db_limits s) = Inr (db_limits t)"
    "db_auth t = db_auth s" "db_accounts t = db_accounts s" "db_fioactions t = db_fioactions s"
    "db_generated t = db_generated s"
proof -
  have h: "(if 0 < length (sc_code c) then ce_sha256 env (sc_code c) else digest_zero) = setcode_hash env c"
    by (simp add: setcode_hash_def)
  obtain m sz s1 s2 where m: "row_get (db_metadata s) (sc_account c) = Inr m"
      and v: "sc_vmtype c = 0" "sc_vmversion c = 0"
      and rel: "release_code m (setcode_hash env c) s = Inr (sz, s1)"
      and acq: "acquire_code env c (setcode_hash env c) s1 = Inr s2"
      and st: "(let s3 = s2\<lparr>db_metadata := fm_set (db_metadata s2) (sc_account c)
           (m\<lparr>code_sequence := code_sequence m + 1, am_code_hash := setcode_hash env c,
              am_vm_type := sc_vmtype c, am_vm_version := sc_vmversion c,
              last_code_update := pending_block_time (ce_auth env)\<rparr>)\<rparr>
         in if of_nat (length (sc_code c)) * setcode_ram_bytes_multiplier \<noteq> sz
            then add_ram_usage (sc_account c)
                   (of_nat (length (sc_code c)) * setcode_ram_bytes_multiplier - sz) s3
            else Inr s3) = Inr t"
    using assms unfolding apply_eosio_setcode_def Let_def h rbind_eq_Inr eos_assert_Inr split_paired_Ex prod.case
    by blast
  have f: "s1 = s\<lparr>db_codes := db_codes s1\<rparr>" "s2 = s1\<lparr>db_codes := db_codes s2\<rparr>"
    using release_code_frame [OF rel] acquire_code_frame [OF acq] .
  have s2: "s2 = s\<lparr>db_codes := db_codes s2\<rparr>" by (subst f(2), subst f(1)) simp
  define s3 where "s3 = s\<lparr>db_codes := db_codes s2,
    db_metadata := fm_set (db_metadata s) (sc_account c) (setcode_metadata env c m)\<rparr>"
  have s3: "s2\<lparr>db_metadata := fm_set (db_metadata s2) (sc_account c)
           (m\<lparr>code_sequence := code_sequence m + 1, am_code_hash := setcode_hash env c,
              am_vm_type := sc_vmtype c, am_vm_version := sc_vmversion c,
              last_code_update := pending_block_time (ce_auth env)\<rparr>)\<rparr> = s3"
    by (subst s2, subst (2) s2) (simp add: s3_def v setcode_metadata_def)
  have fin: "s3 = t \<and> of_nat (length (sc_code c)) * setcode_ram_bytes_multiplier = sz \<or>
      add_ram_usage (sc_account c) (of_nat (length (sc_code c)) * setcode_ram_bytes_multiplier - sz) s3 = Inr t"
    using st unfolding s3 Let_def by (auto split: if_splits)
  have m': "fm_find (db_metadata s) (sc_account c) = Some m" using m by simp
  from fin show ?thesis
  proof
    assume "s3 = t \<and> of_nat (length (sc_code c)) * setcode_ram_bytes_multiplier = sz"
    then show ?thesis by (intro that [OF m' v rel acq]) (auto simp: s3_def)
  next
    assume "add_ram_usage (sc_account c) (of_nat (length (sc_code c)) * setcode_ram_bytes_multiplier - sz) s3 = Inr t"
    note F = add_ram_usage_frame [OF this]
    show ?thesis by (rule that [OF m' v rel acq]) (use F in \<open>simp_all add: s3_def\<close>)
  qed
qed

section \<open>The code table\<close>

text \<open>The code an account runs, and the accounts that run a code.\<close>

definition code_of :: "account_metadata_object \<Rightarrow> code_key option" where
  "code_of m =
     (if am_code_hash m = digest_zero then None else Some (am_code_hash m, am_vm_type m, am_vm_version m))"

definition code_users :: "(account_name, account_metadata_object) flat_map \<Rightarrow> code_key \<Rightarrow> account_name set" where
  "code_users md k = {a. \<exists>m. fm_find md a = Some m \<and> code_of m = Some k}"

definition code_table_ok ::
  "(bytes \<Rightarrow> digest) \<Rightarrow> bytes set \<Rightarrow> (account_name, account_metadata_object) flat_map \<Rightarrow>
     (code_key, code_object) flat_map \<Rightarrow> bool" where
  "code_table_ok sha C md codes \<longleftrightarrow>
     (\<forall>k c. fm_find codes k = Some c \<longrightarrow>
        co_code c \<in> C \<and> fst k = sha (co_code c) \<and> code_users md k \<noteq> {} \<and>
        unat (code_ref_count c) = card (code_users md k)) \<and>
     (\<forall>k. code_users md k \<noteq> {} \<longrightarrow> fm_find codes k \<noteq> None)"

definition code_bytes :: "(code_key, code_object) flat_map \<Rightarrow> account_metadata_object \<Rightarrow> u64" where
  "code_bytes codes m =
     (case code_of m of
        None \<Rightarrow> 0
      | Some k \<Rightarrow>
          (case fm_find codes k of
             None \<Rightarrow> 0
           | Some c \<Rightarrow> of_nat (length (co_code c)) * setcode_ram_bytes_multiplier))"

lemma code_table_okD:
  assumes "code_table_ok sha C md codes"
  shows "fm_find codes k = Some c \<Longrightarrow> co_code c \<in> C" "fm_find codes k = Some c \<Longrightarrow> fst k = sha (co_code c)"
    "fm_find codes k = Some c \<Longrightarrow> code_users md k \<noteq> {}"
    "fm_find codes k = Some c \<Longrightarrow> unat (code_ref_count c) = card (code_users md k)"
    "code_users md k \<noteq> {} \<Longrightarrow> fm_find codes k \<noteq> None"
  using assms unfolding code_table_ok_def by blast+

lemma finite_code_users: "finite (code_users md k)"
proof (rule finite_subset)
  show "code_users md k \<subseteq> fst ` set md"
    using fm_find_keys [of md] unfolding code_users_def by fastforce
qed simp

lemma code_users_erase: "code_users (fm_erase md a) k = code_users md k - {a}"
  by (auto simp: code_users_def split: if_splits)

lemma code_users_set:
  "code_users (fm_set md a m) k = (if code_of m = Some k then insert a (code_users md k) else code_users md k - {a})"
  by (auto simp: code_users_def split: if_splits)

lemma code_users_fresh: "fm_find md a = None \<Longrightarrow> code_of m = None \<Longrightarrow> code_users (fm_set md a m) = code_users md"
  by (rule ext) (auto simp: code_users_set code_users_def)

lemma code_table_ok_cong:
  "(\<And>a. map_option code_of (fm_find md a) = map_option code_of (fm_find md' a)) \<Longrightarrow>
     code_table_ok sha C md codes = code_table_ok sha C md' codes"
proof -
  assume *: "\<And>a. map_option code_of (fm_find md a) = map_option code_of (fm_find md' a)"
  have "a \<in> code_users md k \<longleftrightarrow> a \<in> code_users md' k" for a k
    using * [of a] unfolding code_users_def
    by (cases "fm_find md a"; cases "fm_find md' a") auto
  then have "code_users md = code_users md'" by blast
  then show ?thesis by (simp add: code_table_ok_def)
qed

lemma release_code_cases:
  assumes "release_code m h s = Inr (sz, s1)"
  obtains (fresh) "code_of m = None" "sz = 0" "s1 = s"
    | (drop) k c where "code_of m = Some k" "fm_find (db_codes s) k = Some c" "fst k \<noteq> h"
      "sz = of_nat (length (co_code c)) * setcode_ram_bytes_multiplier"
      "db_codes s1 = (if code_ref_count c = 1 then fm_erase (db_codes s) k
         else fm_set (db_codes s) k (c\<lparr>code_ref_count := code_ref_count c - 1\<rparr>))"
proof (cases "code_of m")
  case None
  then show ?thesis using assms fresh by (auto simp: release_code_def code_of_def split: if_splits)
next
  case (Some k)
  then have k: "am_code_hash m \<noteq> digest_zero" "k = (am_code_hash m, am_vm_type m, am_vm_version m)"
    by (auto simp: code_of_def split: if_splits)
  obtain c where c: "row_get (db_codes s) k = Inr c"
    using assms k by (auto simp: release_code_def result_simps Let_def)
  then have *: "fm_find (db_codes s) k = Some c" by simp
  show ?thesis
    by (rule drop [OF Some *])
      (use assms * k in \<open>auto simp: release_code_def result_simps Let_def split: if_splits\<close>)
qed

text \<open>A change at one code.\<close>

lemma code_table_ok_step:
  assumes ok: "code_table_ok sha C md codes"
    and users: "\<And>k'. k' \<noteq> k \<Longrightarrow> code_users md' k' = code_users md k'"
    and rows: "\<And>k'. k' \<noteq> k \<Longrightarrow> fm_find codes' k' = fm_find codes k'"
    and at: "case fm_find codes' k of
       None \<Rightarrow> code_users md' k = {}
     | Some c \<Rightarrow> co_code c \<in> C \<and> fst k = sha (co_code c) \<and> code_users md' k \<noteq> {} \<and>
         unat (code_ref_count c) = card (code_users md' k)"
  shows "code_table_ok sha C md' codes'"
  unfolding code_table_ok_def
proof (rule conjI; rule allI)
  fix k'
  show "\<forall>c. fm_find codes' k' = Some c \<longrightarrow> co_code c \<in> C \<and> fst k' = sha (co_code c) \<and> code_users md' k' \<noteq> {} \<and>
      unat (code_ref_count c) = card (code_users md' k')"
  proof (cases "k' = k")
    case True
    then show ?thesis using at by (auto split: option.splits)
  next
    case False
    then show ?thesis using code_table_okD [OF ok, of k'] users rows by auto
  qed
  show "code_users md' k' \<noteq> {} \<longrightarrow> fm_find codes' k' \<noteq> None"
  proof (cases "k' = k")
    case True
    then show ?thesis using at by (auto split: option.splits)
  next
    case False
    then show ?thesis using code_table_okD [OF ok, of k'] users rows by auto
  qed
qed

lemma release_code_ok:
  assumes ok: "code_table_ok sha C (db_metadata s) (db_codes s)"
    and m: "fm_find (db_metadata s) a = Some m" and r: "release_code m h s = Inr (sz, s1)"
  shows "code_table_ok sha C (fm_erase (db_metadata s) a) (db_codes s1)"
  using r
proof (cases rule: release_code_cases)
  case fresh
  then have "code_users (fm_erase (db_metadata s) a) = code_users (db_metadata s)"
    using m by (auto simp: code_users_erase code_users_def fun_eq_iff)
  then show ?thesis using ok fresh(3) by (simp add: code_table_ok_def)
next
  case (drop k c)
  let ?U = "code_users (db_metadata s)"
  have a: "a \<in> ?U k" using drop(1) m by (simp add: code_users_def)
  have other: "?U k' - {a} = ?U k'" if "k' \<noteq> k" for k' using that drop(1) m by (auto simp: code_users_def)
  have card: "card (?U k - {a}) = card (?U k) - 1" using a finite_code_users by simp
  note ref = code_table_okD(4) [OF ok drop(2)]
  have rows: "fm_find (db_codes s1) k' = fm_find (db_codes s) k'" if "k' \<noteq> k" for k' using drop(5) that by simp
  show ?thesis
  proof (rule code_table_ok_step [OF ok, of k])
    show "case fm_find (db_codes s1) k of
        None \<Rightarrow> code_users (fm_erase (db_metadata s) a) k = {}
      | Some c \<Rightarrow> co_code c \<in> C \<and> fst k = sha (co_code c) \<and> code_users (fm_erase (db_metadata s) a) k \<noteq> {} \<and>
          unat (code_ref_count c) = card (code_users (fm_erase (db_metadata s) a) k)"
    proof (cases "code_ref_count c = 1")
      case True
      then have "card (?U k) = 1" using ref by simp
      then have "?U k - {a} = {}" using a by (auto simp: card_1_singleton_iff)
      then show ?thesis using drop(5) True by (simp add: code_users_erase)
    next
      case False
      have ge: "1 \<le> card (?U k)" using a finite_code_users [of "db_metadata s" k] by (simp add: Suc_le_eq card_gt_0_iff) blast
      have "unat (code_ref_count c) \<noteq> 1" using False by (metis unsigned_1 unsigned_word_eqI)
      then have "card (?U k - {a}) \<noteq> 0" using ge card ref by linarith
      then have ne: "?U k - {a} \<noteq> {}" by (metis card.empty)
      have "unat (code_ref_count c - 1) = unat (code_ref_count c) - unat (1 :: u64)"
        by (rule unat_minus_small) (use ge ref in \<open>simp add: word_le_nat_alt\<close>)
      then have "unat (code_ref_count c - 1) = card (?U k - {a})" using ref card by simp
      then show ?thesis
        using drop(2,5) False ne code_table_okD(1,2) [OF ok drop(2)] by (simp add: code_users_erase)
    qed
  qed (use rows other in \<open>simp_all add: code_users_erase\<close>)
qed

lemma release_code_bytes:
  assumes ok: "code_table_ok sha C (db_metadata s) (db_codes s)"
    and m: "fm_find (db_metadata s) a = Some m" and r: "release_code m h s = Inr (sz, s1)"
  shows "sz = code_bytes (db_codes s) m"
    and "fm_find (db_metadata s) b = Some m' \<Longrightarrow> b \<noteq> a \<Longrightarrow>
      code_bytes (db_codes s1) m' = code_bytes (db_codes s) m'"
proof -
  show "sz = code_bytes (db_codes s) m"
    using r by (cases rule: release_code_cases) (simp_all add: code_bytes_def)
  assume b: "fm_find (db_metadata s) b = Some m'" "b \<noteq> a"
  show "code_bytes (db_codes s1) m' = code_bytes (db_codes s) m'"
    using r
  proof (cases rule: release_code_cases)
    case (drop k c)
    have False if "code_ref_count c = 1" "code_of m' = Some k"
    proof -
      have "{a, b} \<subseteq> code_users (db_metadata s) k" using that(2) drop(1) m b by (simp add: code_users_def)
      then have "card {a, b} \<le> card (code_users (db_metadata s) k)" by (rule card_mono [OF finite_code_users])
      then show False using code_table_okD(4) [OF ok drop(2)] that(1) b(2) by simp
    qed
    then show ?thesis using drop(2,5) by (auto simp: code_bytes_def split: option.splits)
  qed simp
qed

text \<open>A reference is added for an account that has none.\<close>

lemma card_accounts_bound:
  assumes "A \<subseteq> UNIV - {0 :: u64}"
  shows "card A < 2 ^ 64"
proof -
  have "card A \<le> card (UNIV - {0 :: u64})" by (rule card_mono) (use assms in auto)
  also have "\<dots> = CARD(u64) - 1" by (subst card_Diff_singleton) simp_all
  finally show ?thesis by (simp add: card_word)
qed

lemma subset_nonzero: "0 \<notin> X \<Longrightarrow> Y \<subseteq> X \<Longrightarrow> Y \<subseteq> UNIV - {0}"
  by blast

lemma acquire_code_cases:
  assumes "acquire_code env c h s = Inr s1"
  obtains (clear) "sc_code c = []" "s1 = s"
    | (shared) e where "sc_code c \<noteq> []" "fm_find (db_codes s) (h, sc_vmtype c, sc_vmversion c) = Some e"
      "db_codes s1 = fm_set (db_codes s) (h, sc_vmtype c, sc_vmversion c)
         (e\<lparr>code_ref_count := code_ref_count e + 1\<rparr>)"
    | (stored) e where "sc_code c \<noteq> []" "fm_find (db_codes s) (h, sc_vmtype c, sc_vmversion c) = None"
      "db_codes s1 = fm_set (db_codes s) (h, sc_vmtype c, sc_vmversion c) e" "co_code e = sc_code c"
      "code_ref_count e = 1"
proof (cases "sc_code c = []")
  case True
  then show ?thesis using assms clear by (simp add: acquire_code_def)
next
  case False
  show ?thesis
  proof (cases "fm_find (db_codes s) (h, sc_vmtype c, sc_vmversion c)")
    case None
    show ?thesis
      by (rule stored [OF False None]) (use assms False None in \<open>auto simp: acquire_code_def Let_def result_simps\<close>)
  next
    case (Some e)
    show ?thesis by (rule shared [OF False Some]) (use assms False Some in \<open>auto simp: acquire_code_def Let_def\<close>)
  qed
qed

lemma acquire_code_ok:
  assumes ok: "code_table_ok sha C md (db_codes s)" and a: "fm_find md a = None"
    and r: "acquire_code env c h s = Inr s1"
    and h: "sc_code c \<noteq> [] \<Longrightarrow> h = sha (sc_code c) \<and> sc_code c \<in> C"
    and m: "code_of m = (if sc_code c = [] then None else Some (h, sc_vmtype c, sc_vmversion c))"
    and small: "insert a (fst ` set md) \<subseteq> UNIV - {0}"
  shows "code_table_ok sha C (fm_set md a m) (db_codes s1)"
proof -
  let ?k = "(h, sc_vmtype c, sc_vmversion c)"
  have a': "a \<notin> code_users md k" for k using a by (simp add: code_users_def)
  have other: "code_users (fm_set md a m) k = code_users md k" if "k \<noteq> ?k \<or> sc_code c = []" for k
    using that m a' by (auto simp: code_users_set)
  have same: "code_users (fm_set md a m) ?k = insert a (code_users md ?k)" if "sc_code c \<noteq> []"
    using that m by (simp add: code_users_set)
  have card: "card (insert a (code_users md ?k)) = card (code_users md ?k) + 1"
    using a' finite_code_users by simp
  have "insert a (code_users md ?k) \<subseteq> UNIV - {0}"
    using small fm_find_keys [of md] unfolding code_users_def by fastforce
  then have bound: "card (code_users md ?k) + 1 < 2 ^ 64" using card_accounts_bound card by metis
  show ?thesis
    using r
  proof (cases rule: acquire_code_cases)
    case clear
    then have "code_users (fm_set md a m) = code_users md" using other by blast
    then show ?thesis using ok clear by (simp add: code_table_ok_def)
  next
    case (shared e)
    have "unat (code_ref_count e + 1) = card (code_users md ?k) + 1"
      using bound code_table_okD(4) [OF ok shared(2)] unat_plus_small [of "code_ref_count e" 1] by simp
    then show ?thesis
      using shared code_table_okD(1,2) [OF ok shared(2)] same card other
      by (intro code_table_ok_step [OF ok, of ?k]) simp_all
  next
    case (stored e)
    have "code_users md ?k = {}" using stored(2) code_table_okD(5) [OF ok] by blast
    then show ?thesis
      using stored h same other by (intro code_table_ok_step [OF ok, of ?k]) simp_all
  qed
qed

lemma acquire_code_bytes:
  assumes ok: "code_table_ok sha C md (db_codes s)" and inj: "inj_on sha C"
    and r: "acquire_code env c h s = Inr s1"
    and h: "sc_code c \<noteq> [] \<Longrightarrow> h = sha (sc_code c) \<and> sc_code c \<in> C"
    and m: "code_of m = (if sc_code c = [] then None else Some (h, sc_vmtype c, sc_vmversion c))"
  shows "code_bytes (db_codes s1) m = of_nat (length (sc_code c)) * setcode_ram_bytes_multiplier"
    and "fm_find md b = Some m' \<Longrightarrow> code_bytes (db_codes s1) m' = code_bytes (db_codes s) m'"
proof -
  let ?k = "(h, sc_vmtype c, sc_vmversion c)"
  have same: "co_code e = sc_code c" if "fm_find (db_codes s) ?k = Some e" "sc_code c \<noteq> []" for e
    using inj code_table_okD(1,2) [OF ok that(1)] h [OF that(2)] by (simp add: inj_on_def)
  show "code_bytes (db_codes s1) m = of_nat (length (sc_code c)) * setcode_ram_bytes_multiplier"
    using r by (cases rule: acquire_code_cases) (use m same in \<open>simp_all add: code_bytes_def\<close>)
  assume b: "fm_find md b = Some m'"
  have row: "fm_find (db_codes s) k \<noteq> None" if "code_of m' = Some k" for k
    using code_table_okD(5) [OF ok, of k] b that by (auto simp: code_users_def)
  show "code_bytes (db_codes s1) m' = code_bytes (db_codes s) m'"
    using r by (cases rule: acquire_code_cases) (use row in \<open>auto simp: code_bytes_def split: option.splits\<close>)
qed

section \<open>The invariant of the tables\<close>

definition accounts_inv :: "apply_state \<Rightarrow> bool" where
  "accounts_inv s \<longleftrightarrow>
     fm_wf (db_accounts s) \<and> fm_wf (db_metadata s) \<and> rl_inv (db_limits s) \<and>
     fst ` set (db_metadata s) = fst ` set (db_accounts s) \<and>
     fst ` set (rl_usage (db_limits s)) = fst ` set (db_accounts s) \<and>
     0 \<notin> fst ` set (db_accounts s)"

text \<open>The owner permission of an account is a root of the tree and the active permission its child.\<close>

definition has_owner_active :: "auth_db \<Rightarrow> account_name \<Rightarrow> bool" where
  "has_owner_active db a \<longleftrightarrow>
     (\<exists>i oz j ac. i \<noteq> 0 \<and> fm_find (perm_rows db) i = Some oz \<and> po_owner oz = a \<and> po_name oz = owner_name \<and>
        po_parent oz = 0 \<and>
        fm_find (perm_rows db) j = Some ac \<and> po_owner ac = a \<and> po_name ac = active_name \<and> po_parent ac = i)"

definition permissions_inv :: "apply_state \<Rightarrow> bool" where
  "permissions_inv s \<longleftrightarrow>
     perm_inv (db_auth s) \<and> fm_wf (link_rows (db_auth s)) \<and>
     (\<forall>a \<in> fst ` set (db_accounts s). has_owner_active (db_auth s) a) \<and>
     (\<forall>i p. fm_find (perm_rows (db_auth s)) i = Some p \<and> i \<noteq> 0 \<longrightarrow> po_owner p \<in> fst ` set (db_accounts s)) \<and>
     (\<forall>p. fm_find (perm_rows (db_auth s)) 0 = Some p \<longrightarrow> po_owner p = 0)"

definition actions_inv :: "apply_state \<Rightarrow> bool" where
  "actions_inv s \<longleftrightarrow>
     fm_wf (db_fioactions s) \<and>
     (\<forall>k f. fm_find (db_fioactions s) k = Some f \<longrightarrow> contractname f \<noteq> [] \<and> returns (name_set (contractname f)))"

text \<open>\<open>C\<close> is a set of codes without hash collisions that has every code ever set.\<close>

definition contract_inv :: "contract_env \<Rightarrow> bytes set \<Rightarrow> apply_state \<Rightarrow> bool" where
  "contract_inv env C s \<longleftrightarrow>
     accounts_inv s \<and> permissions_inv s \<and> actions_inv s \<and> fm_wf (db_generated s) \<and>
     code_table_ok (ce_sha256 env) C (db_metadata s) (db_codes s)"

definition codes_ok :: "contract_env \<Rightarrow> bytes set \<Rightarrow> bool" where
  "codes_ok env C \<longleftrightarrow> inj_on (ce_sha256 env) C \<and> digest_zero \<notin> ce_sha256 env ` C"

lemma accounts_inv_ram:
  assumes "accounts_inv s" "add_pending_ram_usage a d (db_limits s) = Inr rl"
  shows "accounts_inv (s\<lparr>db_limits := rl\<rparr>)"
  using assms(1) add_pending_ram_usage_inv [OF _ assms(2)] add_pending_ram_usage_keys [OF assms(2)]
  by (simp add: accounts_inv_def)

lemma accounts_inv_cong:
  "db_accounts t = db_accounts s \<Longrightarrow> db_metadata t = db_metadata s \<Longrightarrow> db_limits t = db_limits s \<Longrightarrow>
     accounts_inv t = accounts_inv s"
  by (simp add: accounts_inv_def)

lemma permissions_inv_cong:
  "fst ` set (db_accounts t) = fst ` set (db_accounts s) \<Longrightarrow> db_auth t = db_auth s \<Longrightarrow>
     permissions_inv t = permissions_inv s"
  by (simp add: permissions_inv_def)

lemma actions_inv_cong: "db_fioactions t = db_fioactions s \<Longrightarrow> actions_inv t = actions_inv s"
  by (simp add: actions_inv_def)

subsection \<open>Accounts and limits\<close>

text \<open>A step that leaves the rows of accounts and metadata and bills memory at most once.\<close>

lemma accounts_inv_step:
  assumes inv: "accounts_inv s"
    and "fst ` set (db_accounts t) = fst ` set (db_accounts s)" "fst ` set (db_metadata t) = fst ` set (db_metadata s)"
    and "fm_wf (db_accounts t)" "fm_wf (db_metadata t)"
    and "db_limits t = db_limits s \<or> (\<exists>a d. add_pending_ram_usage a d (db_limits s) = Inr (db_limits t))"
  shows "accounts_inv t"
proof -
  have "rl_inv (db_limits t) \<and> fst ` set (rl_usage (db_limits t)) = fst ` set (rl_usage (db_limits s))"
    using assms(6) inv add_pending_ram_usage_inv add_pending_ram_usage_keys unfolding accounts_inv_def by metis
  then show ?thesis using assms by (simp add: accounts_inv_def)
qed

text \<open>A new account with its rows.\<close>

lemma new_account_accounts_inv:
  assumes inv: "accounts_inv s" and a: "a \<noteq> 0"
    and i: "initialize_account a (db_limits s) = Inr rl" and u: "add_pending_ram_usage a d rl = Inr (db_limits t)"
    and t: "db_accounts t = fm_set (db_accounts s) a acc" "db_metadata t = fm_set (db_metadata s) a m"
  shows "accounts_inv t"
proof -
  have "rl_inv rl" using initialize_account_inv [OF _ i] inv by (simp add: accounts_inv_def)
  then have "rl_inv (db_limits t)" by (rule add_pending_ram_usage_inv [OF _ u])
  moreover have "fst ` set (rl_usage (db_limits t)) = insert a (fst ` set (rl_usage (db_limits s)))"
  proof -
    have "rl_usage rl = fm_set (rl_usage (db_limits s)) a usage_object_init"
      using i by (auto simp: initialize_account_def result_simps)
    then show ?thesis using add_pending_ram_usage_keys [OF u] by (simp add: fm_set_key_set)
  qed
  ultimately show ?thesis using inv a by (simp add: accounts_inv_def t fm_wf_set fm_set_key_set)
qed

subsection \<open>Permissions\<close>

lemma has_owner_active_mono:
  assumes "has_owner_active db a"
    and "\<And>i p. fm_find (perm_rows db) i = Some p \<Longrightarrow> po_name p = owner_name \<or> po_name p = active_name \<Longrightarrow>
      \<exists>p'. fm_find (perm_rows db') i = Some p' \<and> po_owner p' = po_owner p \<and> po_name p' = po_name p \<and>
        po_parent p' = po_parent p"
  shows "has_owner_active db' a"
proof -
  obtain i oz j ac where *: "i \<noteq> 0" "fm_find (perm_rows db) i = Some oz" "po_owner oz = a" "po_name oz = owner_name"
      "po_parent oz = 0" "fm_find (perm_rows db) j = Some ac" "po_owner ac = a" "po_name ac = active_name"
      "po_parent ac = i"
    using assms(1) unfolding has_owner_active_def by blast
  show ?thesis
    unfolding has_owner_active_def
    using assms(2) [OF *(2)] assms(2) [OF *(6)] * by metis
qed

lemma permissions_invD:
  assumes "permissions_inv s"
  shows "perm_inv (db_auth s)" "fm_wf (link_rows (db_auth s))"
    "\<And>a. a \<in> fst ` set (db_accounts s) \<Longrightarrow> has_owner_active (db_auth s) a"
    "\<And>i p. fm_find (perm_rows (db_auth s)) i = Some p \<Longrightarrow> i \<noteq> 0 \<Longrightarrow> po_owner p \<in> fst ` set (db_accounts s)"
    "\<And>p. fm_find (perm_rows (db_auth s)) 0 = Some p \<Longrightarrow> po_owner p = 0"
  using assms unfolding permissions_inv_def by blast+

text \<open>A step that keeps the accounts and changes only rows of permissions.\<close>

lemma permissions_inv_step:
  assumes inv: "permissions_inv s" and acc: "fst ` set (db_accounts t) = fst ` set (db_accounts s)"
    and p: "perm_inv (db_auth t)" and l: "link_rows (db_auth t) = link_rows (db_auth s)"
    and keep: "\<And>i p. fm_find (perm_rows (db_auth s)) i = Some p \<Longrightarrow> po_name p = owner_name \<or> po_name p = active_name \<Longrightarrow>
      \<exists>p'. fm_find (perm_rows (db_auth t)) i = Some p' \<and> po_owner p' = po_owner p \<and> po_name p' = po_name p \<and>
        po_parent p' = po_parent p"
    and own: "\<And>i p. fm_find (perm_rows (db_auth t)) i = Some p \<Longrightarrow>
      i \<noteq> 0 \<and> po_owner p \<in> fst ` set (db_accounts s) \<or>
      (\<exists>q. fm_find (perm_rows (db_auth s)) i = Some q \<and> po_owner q = po_owner p)"
  shows "permissions_inv t"
  unfolding permissions_inv_def acc l
proof (intro conjI ballI allI impI)
  show "has_owner_active (db_auth t) a" if "a \<in> fst ` set (db_accounts s)" for a
    using has_owner_active_mono [OF permissions_invD(3) [OF inv that] keep] .
  show "po_owner q \<in> fst ` set (db_accounts s)"
    if "fm_find (perm_rows (db_auth t)) i = Some q \<and> i \<noteq> 0" for i q
    using own [of i q] that permissions_invD(4) [OF inv, of i] by metis
  show "po_owner q = 0" if "fm_find (perm_rows (db_auth t)) 0 = Some q" for q
    using own [OF that] permissions_invD(5) [OF inv] by metis
qed (use p permissions_invD(2) [OF inv] in simp_all)

lemma create_permission_permissions_inv:
  assumes inv: "permissions_inv s" and acc: "fst ` set (db_accounts t) = fst ` set (db_accounts s)"
    and c: "create_permission env a nm parent_id auth ts (db_auth s) = Inr (p, db_auth t)"
    and a: "a \<in> fst ` set (db_accounts s)"
    and q: "fm_find (perm_rows (db_auth s)) parent_id = Some q" "parent_id \<noteq> 0 \<Longrightarrow> po_owner q = a"
  shows "permissions_inv t"
proof -
  note pi = permissions_invD(1) [OF inv]
  note C = create_permission_Inr [OF c]
  have ow: "po_owner p = a" using C(4) by simp
  have pn: "perm_next (db_auth s) \<noteq> 0" using perm_invD(3) [OF pi] by simp
  have new: "fm_find (perm_rows (db_auth t)) i =
      (if i = perm_next (db_auth s) then Some p else fm_find (perm_rows (db_auth s)) i)" for i
    using C(5) by simp
  show ?thesis
  proof (rule permissions_inv_step [OF inv acc])
    show "perm_inv (db_auth t)" using create_permission_inv [OF pi c q] .
    show "link_rows (db_auth t) = link_rows (db_auth s)" using C(5) by simp
    show "\<exists>p'. fm_find (perm_rows (db_auth t)) i = Some p' \<and> po_owner p' = po_owner r \<and> po_name p' = po_name r \<and>
        po_parent p' = po_parent r" if "fm_find (perm_rows (db_auth s)) i = Some r" for i r
      using that C(2) unfolding new by auto
    show "i \<noteq> 0 \<and> po_owner r \<in> fst ` set (db_accounts s) \<or>
        (\<exists>q. fm_find (perm_rows (db_auth s)) i = Some q \<and> po_owner q = po_owner r)"
      if "fm_find (perm_rows (db_auth t)) i = Some r" for i r
      using that a pn ow unfolding new by (cases "i = perm_next (db_auth s)") simp_all
  qed
qed

lemma updateauth_permissions_inv:
  assumes inv: "permissions_inv s" and acc: "0 \<notin> fst ` set (db_accounts s)"
    and r: "apply_eosio_updateauth env auths u s = Inr t"
  shows "permissions_inv t"
  using r
proof (cases rule: updateauth_cases)
  case (modified p)
  note pi = permissions_invD(1) [OF inv]
  obtain i where i: "fm_find (perm_rows (db_auth s)) i = Some p"
    using perm_by_owner_Some(1) [OF modified(1) perm_invD(1) [OF pi]] by blast
  have auth: "db_auth t = modify_permission (ce_auth env) p (upd_auth u) (db_auth s)"
    using add_ram_usage_frame(5) [OF modified(3)] by simp
  have rows: "fm_find (perm_rows (db_auth t)) j = (if j = i then
      Some (p\<lparr>po_auth := upd_auth u, last_updated := pending_block_time (ce_auth env)\<rparr>)
      else fm_find (perm_rows (db_auth s)) j)" for j
    using perm_invD(5) [OF pi i] by (simp add: auth modify_permission_def)
  show ?thesis
  proof (rule permissions_inv_step [OF inv])
    show "perm_inv (db_auth t)" using modify_permission_inv [OF pi i] auth by simp
    show "link_rows (db_auth t) = link_rows (db_auth s)" using auth by (simp add: modify_permission_def)
    show "\<exists>p'. fm_find (perm_rows (db_auth t)) j = Some p' \<and> po_owner p' = po_owner q \<and> po_name p' = po_name q \<and>
        po_parent p' = po_parent q" if "fm_find (perm_rows (db_auth s)) j = Some q" for j q
      using that i unfolding rows by (cases "j = i") simp_all
    show "j \<noteq> 0 \<and> po_owner q \<in> fst ` set (db_accounts s) \<or>
        (\<exists>q'. fm_find (perm_rows (db_auth s)) j = Some q' \<and> po_owner q' = po_owner q)"
      if "fm_find (perm_rows (db_auth t)) j = Some q" for j q
      using that i unfolding rows by (cases "j = i") auto
  qed (simp add: updateauth_Inr(3) [OF r])
next
  case (created p parent_id auth')
  note pi = permissions_invD(1) [OF inv]
  have auth: "db_auth t = auth'" using add_ram_usage_frame(5) [OF created(3)] by simp
  have a: "upd_account u \<in> fst ` set (db_accounts s)"
    using updateauth_Inr(1) [OF r] fm_find_keys by metis
  obtain q where q: "fm_find (perm_rows (db_auth s)) parent_id = Some q" "parent_id \<noteq> 0 \<Longrightarrow> po_owner q = upd_account u"
  proof (cases "parent_id = 0")
    case True
    then show ?thesis using that perm_invD(4) [OF pi] by blast
  next
    case False
    then obtain q where q: "perm_by_owner (db_auth s) (upd_account u, upd_parent u) = Some q" "parent_id = po_id q"
      using created(2) by blast
    note Q = perm_by_owner_Some [OF q(1) perm_invD(1) [OF pi]]
    then obtain j where j: "fm_find (perm_rows (db_auth s)) j = Some q" by blast
    show ?thesis by (rule that [of q]) (use j perm_invD(5) [OF pi j] q(2) Q(2) in simp_all)
  qed
  have "fst ` set (db_accounts t) = fst ` set (db_accounts s)" by (simp add: updateauth_Inr(3) [OF r])
  from create_permission_permissions_inv [OF inv this created(1) [folded auth] a q] show ?thesis by blast
qed

lemma deleteauth_permissions_inv:
  assumes inv: "permissions_inv s" and r: "apply_eosio_deleteauth env auths d s = Inr t"
  shows "permissions_inv t"
  using r
proof (rule deleteauth_Inr)
  fix p
  note pi = permissions_invD(1) [OF inv]
  assume p: "perm_by_owner (db_auth s) (del_account d, del_permission d) = Some p" "del_account d \<noteq> 0"
    and nm: "del_permission d \<noteq> active_name" "del_permission d \<noteq> owner_name"
    and rem: "remove_permission p (db_auth s) = Inr (db_auth t)" and acc: "db_accounts t = db_accounts s"
  note P = perm_by_owner_Some [OF p(1) perm_invD(1) [OF pi]]
  then obtain i where i: "fm_find (perm_rows (db_auth s)) i = Some p" by blast
  have id: "po_id p = i" using perm_invD(5) [OF pi i] .
  have "i \<noteq> 0" using permissions_invD(5) [OF inv] i P(2) p(2) by (metis fst_conv)
  note inv' = remove_permission_inv [OF pi i this rem]
  have auth: "db_auth t = (db_auth s)\<lparr>usage_rows := fm_erase (usage_rows (db_auth s)) (usage_id p),
      perm_rows := fm_erase (perm_rows (db_auth s)) i\<rparr>"
    using rem id by (auto simp: remove_permission_def result_simps)
  have "po_name p \<noteq> active_name" "po_name p \<noteq> owner_name" using P(3) nm by simp_all
  then have other: "q \<noteq> p" if "po_name q = owner_name \<or> po_name q = active_name" for q using that by metis
  have rows: "fm_find (perm_rows (db_auth t)) j = (if j = i then None else fm_find (perm_rows (db_auth s)) j)" for j
    by (simp add: auth)
  show ?thesis
  proof (rule permissions_inv_step [OF inv _ inv'])
    show "\<exists>p'. fm_find (perm_rows (db_auth t)) j = Some p' \<and> po_owner p' = po_owner q \<and> po_name p' = po_name q \<and>
        po_parent p' = po_parent q"
      if "fm_find (perm_rows (db_auth s)) j = Some q" "po_name q = owner_name \<or> po_name q = active_name" for j q
      using that(1) other [OF that(2)] i unfolding rows by (cases "j = i") simp_all
    show "j \<noteq> 0 \<and> po_owner q \<in> fst ` set (db_accounts s) \<or>
        (\<exists>q'. fm_find (perm_rows (db_auth s)) j = Some q' \<and> po_owner q' = po_owner q)"
      if "fm_find (perm_rows (db_auth t)) j = Some q" for j q
      using that unfolding rows by (cases "j = i") auto
  qed (simp_all add: acc auth)
qed

lemma new_account_permissions_inv:
  assumes inv: "permissions_inv s"
    and c1: "create_permission env a owner_name 0 auth ts (db_auth s) = Inr (oz, auth1)"
    and c2: "create_permission env a active_name (po_id oz) auth' ts auth1 = Inr (ac, db_auth t)"
    and t: "db_accounts t = fm_set (db_accounts s) a acc"
  shows "permissions_inv t"
proof -
  let ?a = a let ?n = "perm_next (db_auth s)"
  note pi = permissions_invD(1) [OF inv]
  note C1 = create_permission_Inr [OF c1] and C2 = create_permission_Inr [OF c2]
  obtain z where "fm_find (perm_rows (db_auth s)) 0 = Some z" using perm_invD(4) [OF pi] by blast
  then have pi1: "perm_inv auth1" by (rule create_permission_inv [OF pi c1]) simp
  have oz: "fm_find (perm_rows auth1) (po_id oz) = Some oz" "po_owner oz = ?a" "po_id oz = ?n"
    using C1(4,5) by simp_all
  have pi2: "perm_inv (db_auth t)" by (rule create_permission_inv [OF pi1 c2 oz(1)]) (simp add: oz(2))
  have n: "?n \<noteq> 0" "perm_next auth1 = ?n + 1" using perm_invD(3) [OF pi] C1(5) by simp_all
  have rows: "fm_find (perm_rows (db_auth t)) i =
      (if i = ?n + 1 then Some ac else if i = ?n then Some oz else fm_find (perm_rows (db_auth s)) i)" for i
    using C1(5) C2(5) n by simp
  have keys: "fst ` set (db_accounts t) = insert ?a (fst ` set (db_accounts s))" by (simp add: t fm_set_key_set)
  have new: "has_owner_active (db_auth t) ?a"
    unfolding has_owner_active_def
    by (rule exI [of _ ?n], rule exI [of _ oz], rule exI [of _ "?n + 1"], rule exI [of _ ac])
      (use C1(4) C2(4) n oz in \<open>simp add: rows\<close>)
  have old: "fm_find (perm_rows (db_auth t)) i = Some p" if "fm_find (perm_rows (db_auth s)) i = Some p" for i p
    using that perm_invD(6) [OF pi that] by (simp add: rows)
  show ?thesis
    unfolding permissions_inv_def keys
  proof (intro conjI ballI allI impI)
    show "fm_wf (link_rows (db_auth t))" using permissions_invD(2) [OF inv] C1(5) C2(5) by simp
    show "has_owner_active (db_auth t) b" if "b \<in> insert ?a (fst ` set (db_accounts s))" for b
    proof (cases "b = ?a")
      case False
      then have "has_owner_active (db_auth s) b" using that permissions_invD(3) [OF inv] by blast
      then show ?thesis by (rule has_owner_active_mono) (use old in blast)
    qed (use new in simp)
    show "po_owner p \<in> insert ?a (fst ` set (db_accounts s))"
      if "fm_find (perm_rows (db_auth t)) i = Some p \<and> i \<noteq> 0" for i p
      using that permissions_invD(4) [OF inv, of i p] C1(4) C2(4) by (auto simp: rows split: if_splits)
    show "po_owner p = 0" if "fm_find (perm_rows (db_auth t)) 0 = Some p" for p
      using that permissions_invD(5) [OF inv, of p] n by (simp add: rows split: if_splits)
  qed (rule pi2)
qed

lemma links_frame:
  "perm_rows (db\<lparr>link_rows := l\<rparr>) = perm_rows db" "usage_rows (db\<lparr>link_rows := l\<rparr>) = usage_rows db"
  "perm_next (db\<lparr>link_rows := l\<rparr>) = perm_next db" "usage_next (db\<lparr>link_rows := l\<rparr>) = usage_next db"
  by simp_all

lemma perm_inv_links: "perm_inv (db\<lparr>link_rows := l\<rparr>) = perm_inv db"
  unfolding perm_inv_def links_frame ..

lemma has_owner_active_links: "has_owner_active (db\<lparr>link_rows := l\<rparr>) a = has_owner_active db a"
  unfolding has_owner_active_def links_frame ..

lemma permissions_inv_links:
  assumes "permissions_inv s" "db_accounts t = db_accounts s" "db_auth t = (db_auth s)\<lparr>link_rows := l\<rparr>" "fm_wf l"
  shows "permissions_inv t"
  unfolding permissions_inv_def assms(2,3) perm_inv_links has_owner_active_links links_frame
proof (intro conjI)
  show "fm_wf (link_rows ((db_auth s)\<lparr>link_rows := l\<rparr>))" using assms(4) by simp
qed (use permissions_invD [OF assms(1)] in blast)+

section \<open>Every native action keeps the invariant\<close>

definition action_code :: "contract_env \<Rightarrow> account_name \<times> action \<Rightarrow> bytes option" where
  "action_code env ra =
     (case unpack_setcode env (act_data (snd ra)) of
        Inl _ \<Rightarrow> None
      | Inr c \<Rightarrow> if sc_code c = [] then None else Some (sc_code c))"

definition action_code_in :: "contract_env \<Rightarrow> bytes set \<Rightarrow> account_name \<times> action \<Rightarrow> bool" where
  "action_code_in env C ra \<longleftrightarrow> (case action_code env ra of None \<Rightarrow> True | Some c \<Rightarrow> c \<in> C)"

lemma apply_native_cases:
  assumes "apply_native env ra s = Inr t"
  obtains "t = s"
    | d where "apply_eosio_newaccount env (act_authorization (snd ra)) d s = Inr t"
    | d where "apply_eosio_setcode env (act_authorization (snd ra)) d s = Inr t"
        "unpack_setcode env (act_data (snd ra)) = Inr d"
    | d where "apply_eosio_setabi env (act_authorization (snd ra)) d s = Inr t"
    | d where "apply_eosio_updateauth env (act_authorization (snd ra)) d s = Inr t"
    | d where "apply_eosio_deleteauth env (act_authorization (snd ra)) d s = Inr t"
    | d where "apply_eosio_linkauth env (act_authorization (snd ra)) d s = Inr t"
    | d where "apply_eosio_unlinkauth env (act_authorization (snd ra)) d s = Inr t"
    | d where "apply_eosio_addaction env (act_authorization (snd ra)) d s = Inr t"
    | d where "apply_eosio_remaction env (act_authorization (snd ra)) d s = Inr t"
    | d where "apply_eosio_canceldelay env (act_authorization (snd ra)) d s = Inr t"
  using assms
  by (auto simp: apply_native_def find_apply_handler_def apply_handlers_def data_as_def Let_def result_simps
      split: if_splits)

lemma setcode_code_of:
  assumes "codes_ok env C" "sc_code c \<noteq> [] \<Longrightarrow> sc_code c \<in> C" "sc_vmtype c = 0" "sc_vmversion c = 0"
  shows "code_of (setcode_metadata env c m) =
    (if sc_code c = [] then None else Some (setcode_hash env c, sc_vmtype c, sc_vmversion c))"
proof (cases "sc_code c = []")
  case False
  then have "ce_sha256 env (sc_code c) \<noteq> digest_zero" using assms(1,2) by (metis codes_ok_def imageI)
  then show ?thesis using False assms(3,4) by (simp add: code_of_def setcode_metadata_def setcode_hash_def)
qed (simp add: code_of_def setcode_metadata_def setcode_hash_def)

lemma setcode_inv:
  assumes ok: "codes_ok env C" and inv: "contract_inv env C s" and r: "apply_eosio_setcode env auths c s = Inr t"
    and C: "sc_code c \<noteq> [] \<Longrightarrow> sc_code c \<in> C"
  shows "code_table_ok (ce_sha256 env) C (db_metadata t) (db_codes t)" "accounts_inv t"
proof -
  let ?a = "sc_account c" and ?h = "setcode_hash env c"
  have acc: "accounts_inv s" and tab: "code_table_ok (ce_sha256 env) C (db_metadata s) (db_codes s)"
    using inv by (simp_all add: contract_inv_def)
  from r obtain m sz s1 s2 where
    m: "fm_find (db_metadata s) ?a = Some m" and v: "sc_vmtype c = 0" "sc_vmversion c = 0"
    and rel: "release_code m ?h s = Inr (sz, s1)" and acq: "acquire_code env c ?h s1 = Inr s2"
    and t: "db_codes t = db_codes s2" "db_metadata t = fm_set (db_metadata s) ?a (setcode_metadata env c m)"
      "db_accounts t = db_accounts s"
    and lim: "of_nat (length (sc_code c)) * setcode_ram_bytes_multiplier = sz \<and> db_limits t = db_limits s \<or>
     add_pending_ram_usage (sc_account c) (of_nat (length (sc_code c)) * setcode_ram_bytes_multiplier - sz)
       (db_limits s) = Inr (db_limits t)"
    by (rule setcode_Inr)
  have keys: "fst ` set (db_metadata t) = fst ` set (db_metadata s)" using fm_set_keys_same [OF m] t(2) by simp
  show "accounts_inv t"
    by (rule accounts_inv_step [OF acc _ keys])
      (use lim acc in \<open>auto simp: t fm_wf_set accounts_inv_def\<close>)
  have "code_table_ok (ce_sha256 env) C (fm_erase (db_metadata s) ?a) (db_codes s1)"
    by (rule release_code_ok [OF tab m rel])
  then have "code_table_ok (ce_sha256 env) C
      (fm_set (fm_erase (db_metadata s) ?a) ?a (setcode_metadata env c m)) (db_codes s2)"
  proof (rule acquire_code_ok [OF _ _ acq])
    show "sc_code c \<noteq> [] \<Longrightarrow> ?h = ce_sha256 env (sc_code c) \<and> sc_code c \<in> C" using C by (simp add: setcode_hash_def)
    show "code_of (setcode_metadata env c m) =
        (if sc_code c = [] then None else Some (?h, sc_vmtype c, sc_vmversion c))"
      by (rule setcode_code_of [OF ok C v])
    show "insert ?a (fst ` set (fm_erase (db_metadata s) ?a)) \<subseteq> UNIV - {0}"
    proof -
      have a: "?a \<in> fst ` set (db_metadata s)" using fm_find_keys [of "db_metadata s" ?a] m by simp
      have z: "0 \<notin> fst ` set (db_metadata s)" using acc by (simp add: accounts_inv_def)
      have "fst ` set (fm_erase (db_metadata s) ?a) \<subseteq> fst ` set (db_metadata s)"
        by (auto simp: fm_erase_def)
      with a have "insert ?a (fst ` set (fm_erase (db_metadata s) ?a)) \<subseteq> fst ` set (db_metadata s)"
        by (simp only: insert_subset)
      then show ?thesis by (rule subset_nonzero [OF z])
    qed
  qed simp
  then show "code_table_ok (ce_sha256 env) C (db_metadata t) (db_codes t)"
    using code_table_ok_cong [of "fm_set (fm_erase (db_metadata s) ?a) ?a (setcode_metadata env c m)" "db_metadata t"]
    by (simp add: t(1,2))
qed

lemma addaction_Inr:
  assumes "apply_eosio_addaction env auths c s = Inr t"
  obtains f where "t = s\<lparr>db_fioactions := fm_set (db_fioactions s) (add_action c) f\<rparr>" "contractname f \<noteq> []"
    "returns (name_set (contractname f))"
proof -
  obtain nm rows where *: "name_set (add_contract c) = Inr nm" "add_contract c \<noteq> []" "t = s\<lparr>db_fioactions := rows\<rparr>"
      "row_create (db_fioactions s) (add_action c) \<lparr>contractname = add_contract c,
         fa_blocktimestamp = of_int (pending_block_time (ce_auth env))\<rparr> = Inr rows"
    using assms unfolding apply_eosio_addaction_def Let_def rbind_eq_Inr eos_assert_Inr by blast
  show ?thesis by (rule that) (use * in auto)
qed

lemma remaction_Inr:
  assumes "apply_eosio_remaction env auths c s = Inr t"
  shows "t = s\<lparr>db_fioactions := fm_erase (db_fioactions s) (rem_action c)\<rparr>"
  using assms by (auto simp: apply_eosio_remaction_def Let_def result_simps)

text \<open>A native action that leaves codes and the code of every account alone.\<close>

lemma contract_inv_step:
  assumes inv: "contract_inv env C s"
    and "db_codes t = db_codes s" "\<And>a. map_option code_of (fm_find (db_metadata t) a) = map_option code_of (fm_find (db_metadata s) a)"
    and "accounts_inv t" "permissions_inv t" "db_fioactions t = db_fioactions s" "fm_wf (db_generated t)"
  shows "contract_inv env C t"
  using assms code_table_ok_cong [of "db_metadata t" "db_metadata s"]
  by (simp add: contract_inv_def actions_inv_cong [of t s])

lemma contract_invD:
  assumes "contract_inv env C s"
  shows "accounts_inv s" "permissions_inv s" "actions_inv s" "fm_wf (db_generated s)"
    "code_table_ok (ce_sha256 env) C (db_metadata s) (db_codes s)" "fm_wf (db_accounts s)" "fm_wf (db_metadata s)"
    "0 \<notin> fst ` set (db_accounts s)"
  using assms by (simp_all add: contract_inv_def accounts_inv_def)

text \<open>The native actions that only change permissions, links or generated transactions.\<close>

lemma contract_inv_auth:
  assumes inv: "contract_inv env C s" and "permissions_inv t" "fm_wf (db_generated t)"
    and "db_limits t = db_limits s \<or> (\<exists>a d. add_pending_ram_usage a d (db_limits s) = Inr (db_limits t))"
    and t: "db_accounts t = db_accounts s" "db_metadata t = db_metadata s" "db_codes t = db_codes s"
      "db_fioactions t = db_fioactions s"
  shows "contract_inv env C t"
proof -
  have "accounts_inv t"
    by (rule accounts_inv_step [OF contract_invD(1) [OF inv]]) (use assms(4) contract_invD [OF inv] in \<open>simp_all add: t\<close>)
  then show ?thesis using assms by (intro contract_inv_step [OF inv]) simp_all
qed

lemma apply_native_inv:
  assumes ok: "codes_ok env C" and inv: "contract_inv env C s" and r: "apply_native env ra s = Inr t"
    and C: "action_code_in env C ra"
  shows "contract_inv env C t"
  using r
proof (cases rule: apply_native_cases)
  case 1
  then show ?thesis using inv by simp
next
  case (2 d)
  have "code_of metadata_init = None" by (simp add: code_of_def metadata_init_def)
  then have md: "code_table_ok (ce_sha256 env) C (db_metadata t) (db_codes t)"
    using contract_invD(5) [OF inv] 2
    by (elim newaccount_Inr) (simp add: code_table_ok_def code_users_fresh)
  have "actions_inv t" "fm_wf (db_generated t)"
    using contract_invD(3,4) [OF inv] 2 by (auto elim!: newaccount_Inr simp: actions_inv_def)
  then show ?thesis
    using md contract_invD(1,2) [OF inv] 2 new_account_accounts_inv new_account_permissions_inv
    unfolding contract_inv_def by (elim newaccount_Inr) metis
next
  case (3 d)
  have "sc_code d \<in> C" if "sc_code d \<noteq> []" using C 3(2) that by (simp add: action_code_in_def action_code_def)
  note S = setcode_inv [OF ok inv 3(1) this]
  have "db_auth t = db_auth s" "db_accounts t = db_accounts s" "db_fioactions t = db_fioactions s"
    "db_generated t = db_generated s"
    using 3(1) by (auto elim: setcode_Inr)
  then show ?thesis
    using S contract_invD(2-4) [OF inv] permissions_inv_cong [of t s] actions_inv_cong [of t s]
    by (simp add: contract_inv_def)
next
  case (4 d)
  then show ?thesis
  proof (rule setabi_Inr)
    fix acc m
    assume f: "fm_find (db_accounts s) (sa_account d) = Some acc" "fm_find (db_metadata s) (sa_account d) = Some m"
      and t: "db_accounts t = fm_set (db_accounts s) (sa_account d) (acc\<lparr>ao_abi := sa_abi d\<rparr>)"
        "db_metadata t = fm_set (db_metadata s) (sa_account d) (m\<lparr>abi_sequence := abi_sequence m + 1\<rparr>)"
        "db_auth t = db_auth s" "db_codes t = db_codes s" "db_fioactions t = db_fioactions s"
        "db_generated t = db_generated s"
      and l: "(of_nat (length (sa_abi d)) :: i64) = of_nat (length (ao_abi acc)) \<and> db_limits t = db_limits s \<or>
       add_pending_ram_usage (sa_account d) (of_nat (length (sa_abi d)) - of_nat (length (ao_abi acc))) (db_limits s) =
         Inr (db_limits t)"
    have keys: "fst ` set (db_accounts t) = fst ` set (db_accounts s)" "fst ` set (db_metadata t) = fst ` set (db_metadata s)"
      using fm_set_keys_same [OF f(1)] fm_set_keys_same [OF f(2)] t(1,2) by simp_all
    have "accounts_inv t"
      by (rule accounts_inv_step [OF contract_invD(1) [OF inv] keys])
        (use l contract_invD(6,7) [OF inv] in \<open>auto simp: t fm_wf_set\<close>)
    moreover have "permissions_inv t" using permissions_inv_cong [OF keys(1) t(3)] contract_invD(2) [OF inv] by simp
    ultimately show ?thesis
      using contract_invD(4) [OF inv] f(2) t by (intro contract_inv_step [OF inv]) (simp_all add: code_of_def)
  qed
next
  case (5 d)
  have ram: "\<exists>a x. add_pending_ram_usage a x (db_limits s) = Inr (db_limits t)"
    using 5
  proof (cases rule: updateauth_cases)
    case (modified p)
    show ?thesis using add_ram_usage_frame(7) [OF modified(3)] by auto
  next
    case (created p parent_id auth')
    show ?thesis using add_ram_usage_frame(7) [OF created(3)] by auto
  qed
  show ?thesis
    by (rule contract_inv_auth [OF inv])
      (use ram updateauth_permissions_inv [OF contract_invD(2,8) [OF inv] 5] updateauth_Inr [OF 5]
        contract_invD(4) [OF inv] in simp_all)
next
  case (6 d)
  then obtain p :: permission_object where ram: "add_pending_ram_usage (del_account d) (- permission_size env (po_auth p)) (db_limits s) =
        Inr (db_limits t)"
      and t: "db_accounts t = db_accounts s" "db_metadata t = db_metadata s" "db_codes t = db_codes s"
      "db_fioactions t = db_fioactions s" "db_generated t = db_generated s"
    by (rule deleteauth_Inr) blast
  show ?thesis
    by (rule contract_inv_auth [OF inv])
      (use ram t deleteauth_permissions_inv [OF contract_invD(2) [OF inv] 6] contract_invD(4) [OF inv] in auto)
next
  case (7 d)
  note L = linkauth_Inr [OF 7]
  have "permissions_inv t"
    by (rule permissions_inv_links [OF contract_invD(2) [OF inv] L(3,1)])
      (rule fm_wf_set [OF permissions_invD(2) [OF contract_invD(2) [OF inv]]])
  moreover have "db_limits t = db_limits s \<or> (\<exists>a x. add_pending_ram_usage a x (db_limits s) = Inr (db_limits t))"
    using L(2) by (auto split: if_splits)
  ultimately show ?thesis
    using L(3-7) contract_invD(4) [OF inv] by (intro contract_inv_auth [OF inv]) simp_all
next
  case (8 d)
  note L = unlinkauth_Inr [OF 8]
  have "permissions_inv t"
    by (rule permissions_inv_links [OF contract_invD(2) [OF inv] L(4,2)])
      (rule fm_wf_erase [OF permissions_invD(2) [OF contract_invD(2) [OF inv]]])
  then show ?thesis
    by (rule contract_inv_auth [OF inv]) (use L contract_invD(4) [OF inv] in auto)
next
  case (9 d)
  then obtain f where t: "t = s\<lparr>db_fioactions := fm_set (db_fioactions s) (add_action d) f\<rparr>" "contractname f \<noteq> []"
    "returns (name_set (contractname f))" by (rule addaction_Inr)
  have "actions_inv t" using contract_invD(3) [OF inv] t by (auto simp: actions_inv_def fm_wf_set)
  then show ?thesis
    using inv accounts_inv_cong [of t s] permissions_inv_cong [of t s] by (simp add: contract_inv_def t(1))
next
  case (10 d)
  note t = remaction_Inr [OF 10]
  have "actions_inv t" using contract_invD(3) [OF inv] t by (auto simp: actions_inv_def fm_wf_erase)
  then show ?thesis
    using inv accounts_inv_cong [of t s] permissions_inv_cong [of t s] by (simp add: contract_inv_def t)
next
  case (11 d)
  then show ?thesis
  proof (cases rule: canceldelay_cases)
    case none
    then show ?thesis using inv by simp
  next
    case (erased id g s')
    note F = add_ram_usage_frame [OF erased(2)]
    have "permissions_inv t" using permissions_inv_cong [of t s] F contract_invD(2) [OF inv] erased(3) by simp
    moreover have "fm_wf (db_generated t)" using F erased(3) contract_invD(4) [OF inv] by (simp add: fm_wf_erase)
    moreover have "\<exists>a d. add_pending_ram_usage a d (db_limits s) = Inr (db_limits t)" using F(7) erased(3) by auto
    ultimately show ?thesis using F erased(3) by (intro contract_inv_auth [OF inv]) simp_all
  qed
qed

section \<open>The genesis state\<close>

lemma create_native_account_Inr:
  assumes "create_native_account env gen nm owner active pr s = Inr t"
  obtains oz ac auth1 rl where
    "create_permission (ce_auth env) nm owner_name 0 owner (initial_timestamp gen) (db_auth s) = Inr (oz, auth1)"
    "create_permission (ce_auth env) nm active_name (po_id oz) active (initial_timestamp gen) auth1 =
       Inr (ac, db_auth t)"
    "initialize_account nm (db_limits s) = Inr rl"
    "add_pending_ram_usage nm (overhead_per_account_ram_bytes + 2 * permission_object_size
       + get_billable_size (ce_pack_size env) (po_auth oz) + get_billable_size (ce_pack_size env) (po_auth ac)) rl =
       Inr (db_limits t)"
    "db_accounts t = fm_set (db_accounts s) nm \<lparr>creation_date = set_time_point (of_int (initial_timestamp gen)),
       ao_abi = if nm = system_account_name then eosio_abi gen else []\<rparr>"
    "db_metadata t = fm_set (db_metadata s) nm (set_privileged pr metadata_init)"
    "fm_find (db_metadata s) nm = None"
    "db_codes t = db_codes s" "db_fioactions t = db_fioactions s" "db_generated t = db_generated s"
  using assms by (auto simp: create_native_account_def Let_def result_simps)

lemma create_native_account_inv:
  assumes inv: "contract_inv env C s" and nm: "nm \<noteq> 0"
    and r: "create_native_account env gen nm owner active pr s = Inr t"
  shows "contract_inv env C t"
  using r
proof (rule create_native_account_Inr)
  fix oz ac :: permission_object and auth1 rl
  assume c: "create_permission (ce_auth env) nm owner_name 0 owner (initial_timestamp gen) (db_auth s) = Inr (oz, auth1)"
    "create_permission (ce_auth env) nm active_name (po_id oz) active (initial_timestamp gen) auth1 = Inr (ac, db_auth t)"
    and l: "initialize_account nm (db_limits s) = Inr rl"
    "add_pending_ram_usage nm (overhead_per_account_ram_bytes + 2 * permission_object_size
       + get_billable_size (ce_pack_size env) (po_auth oz) + get_billable_size (ce_pack_size env) (po_auth ac)) rl =
       Inr (db_limits t)"
    and t: "db_accounts t = fm_set (db_accounts s) nm \<lparr>creation_date = set_time_point (of_int (initial_timestamp gen)),
       ao_abi = if nm = system_account_name then eosio_abi gen else []\<rparr>"
    "db_metadata t = fm_set (db_metadata s) nm (set_privileged pr metadata_init)"
    and f: "fm_find (db_metadata s) nm = None"
    and same: "db_codes t = db_codes s" "db_fioactions t = db_fioactions s" "db_generated t = db_generated s"
  have "code_of (set_privileged pr metadata_init) = None"
    by (simp add: code_of_def set_privileged_def metadata_init_def)
  then have "code_table_ok (ce_sha256 env) C (db_metadata t) (db_codes t)"
    using contract_invD(5) [OF inv] by (simp add: t same code_table_ok_def code_users_fresh [OF f])
  then show ?thesis
    unfolding contract_inv_def
    using new_account_accounts_inv [OF contract_invD(1) [OF inv] nm l t]
      new_account_permissions_inv [OF contract_invD(2) [OF inv] c t(1)]
      contract_invD(3,4) [OF inv] actions_inv_cong [OF same(2)] same(3)
    by simp
qed

lemma initial_tables_inv: "contract_inv env C initial_tables"
  by (simp add: contract_inv_def accounts_inv_def permissions_inv_def actions_inv_def initial_tables_def
      initialize_inv initialize_database_inv code_table_ok_def code_users_def)
    (simp add: initialize_database_def auth_initialize_database_def fm_find_def)

lemma genesis_names:
  "system_account_name = 6138663577826885632" "null_account_name = 6138663588472832000"
  "producers_account_name = 6138663589497696256" "majority_producers_permission_name = 12531424605554196480"
  "minority_producers_permission_name = 12531424609916272640"
  unfolding system_account_name_def null_account_name_def producers_account_name_def
    majority_producers_permission_name_def minority_producers_permission_name_def by code_simp+

lemma initialize_accounts_inv:
  assumes "initialize_accounts env gen = Inr s"
  shows "contract_inv env C s"
proof -
  let ?p = "\<lparr>threshold = 1, auth_keys = [], auth_accounts =
      [\<lparr>plw_permission = (system_account_name, active_name), plw_weight = 1\<rparr>], auth_waits = []\<rparr>"
  obtain s1 s2 s3 act maj min auth1 auth2 where
    c: "create_native_account env gen system_account_name (authority_of_key (initial_key gen) 0)
          (authority_of_key (initial_key gen) 0) True initial_tables = Inr s1"
      "create_native_account env gen null_account_name \<lparr>threshold = 1, auth_keys = [], auth_accounts = [], auth_waits = []\<rparr>
         \<lparr>threshold = 1, auth_keys = [], auth_accounts = [], auth_waits = []\<rparr> False s1 = Inr s2"
      "create_native_account env gen producers_account_name
         \<lparr>threshold = 1, auth_keys = [], auth_accounts = [], auth_waits = []\<rparr> ?p False s2 = Inr s3"
    and g: "get_permission (db_auth s3) (producers_account_name, active_name) = Inr act"
    and p1: "create_permission (ce_auth env) producers_account_name majority_producers_permission_name
        (po_id act) ?p (initial_timestamp gen) (db_auth s3) = Inr (maj, auth1)"
    and p2: "create_permission (ce_auth env) producers_account_name minority_producers_permission_name
        (po_id maj) ?p (initial_timestamp gen) auth1 = Inr (min, auth2)"
    and s: "s = s3\<lparr>db_auth := auth2\<rparr>"
    using assms by (auto simp: initialize_accounts_def Let_def result_simps)
  have nz: "system_account_name \<noteq> 0" "null_account_name \<noteq> 0" "producers_account_name \<noteq> 0"
    by (simp_all add: genesis_names)
  note I1 = create_native_account_inv [OF initial_tables_inv [of env C] nz(1) c(1)]
  note I2 = create_native_account_inv [OF I1 nz(2) c(2)]
  note I3 = create_native_account_inv [OF I2 nz(3) c(3)]
  note pi = permissions_invD(1) [OF contract_invD(2) [OF I3]]
  have a: "producers_account_name \<in> fst ` set (db_accounts s3)"
    using c(3) by (rule create_native_account_Inr) (simp add: fm_set_key_set)
  have "perm_by_owner (db_auth s3) (producers_account_name, active_name) = Some act"
    using g by (auto simp: get_permission_def result_simps split: option.splits)
  note A = perm_by_owner_Some [OF this perm_invD(1) [OF pi]]
  then obtain i where i: "fm_find (perm_rows (db_auth s3)) i = Some act" by blast
  then have q: "fm_find (perm_rows (db_auth s3)) (po_id act) = Some act" using perm_invD(5) [OF pi i] by simp
  define s4 where "s4 = s3\<lparr>db_auth := auth1\<rparr>"
  have P4: "permissions_inv s4"
    by (rule create_permission_permissions_inv [OF contract_invD(2) [OF I3] _ _ a q])
      (use p1 A(2) in \<open>simp_all add: s4_def\<close>)
  have q': "fm_find (perm_rows (db_auth s4)) (po_id maj) = Some maj"
    using create_permission_Inr(4,5) [OF p1] by (simp add: s4_def)
  have P5: "permissions_inv s"
    by (rule create_permission_permissions_inv [OF P4 _ _ _ q'])
      (use p2 a create_permission_Inr(4) [OF p1] in \<open>simp_all add: s s4_def\<close>)
  then show ?thesis
    using I3 accounts_inv_cong [of s s3] actions_inv_cong [of s s3] by (simp add: contract_inv_def s)
qed

interpretation ct: conditional_machine "apply_native env" "action_code_in env C"
    "\<lambda>s. codes_ok env C \<longrightarrow> contract_inv env C s"
  by unfold_locales (use apply_native_inv in blast)

section \<open>Properties\<close>

text \<open>
  C4. From the genesis state on, whatever native actions are applied, every account has its metadata, its
  resource limits and usage, a root permission \<^verbatim>\<open>owner\<close> and its child \<^verbatim>\<open>active\<close>; every permission belongs to an
  account; each row of the code table has the hash of its code and counts exactly the accounts that run it, and
  every contract name of the actions table can be read back. The codes that are set come from a set without
  hash collisions.
\<close>

theorem native_actions_keep_tables:
  assumes "codes_ok env C" "list_all (action_code_in env C) ops" "initialize_accounts env gen = Inr s"
  shows "contract_inv env C (run_ops (apply_native env) ops s)"
  using ct.run_ok_inv [OF assms(2)] initialize_accounts_inv [OF assms(3)] assms(1) by blast

definition demo_name :: name where
  "demo_name = string_to_name ''alice''"

definition demo_newaccount :: newaccount where
  "demo_newaccount = \<lparr>new_creator = system_account_name, new_name = demo_name, new_owner = authority_of_key [8] 0,
     new_active = authority_of_key [9] 0\<rparr>"

definition demo_setcode :: setcode where
  "demo_setcode = \<lparr>sc_account = system_account_name, sc_vmtype = 0, sc_vmversion = 0, sc_code = [1, 2, 3]\<rparr>"

definition demo_contract_env :: contract_env where
  "demo_contract_env =
     \<lparr>ce_auth = demo_auth_env, ce_key_less = (\<lambda>a b. hd a < hd b), ce_pack_size = (\<lambda>_. 34),
      ce_sha256 = (\<lambda>c. Digest (of_nat (length c)) 0 0 0), ce_wasm_validate = (\<lambda>_. Inr ()),
      ce_head_block_time = 0, ce_head_block_num = 1, ce_enforce_whiteblacklist = False,
      ce_is_producing_block = False, ce_key_blacklist = [], ce_only_link_to_existing_permission = True,
      unpack_newaccount = (\<lambda>_. Inr demo_newaccount),
      unpack_addaction = (\<lambda>_. Inl (Other_exception ''unpack'')),
      unpack_remaction = (\<lambda>_. Inl (Other_exception ''unpack'')),
      unpack_setcode = (\<lambda>_. Inr demo_setcode),
      unpack_setabi = (\<lambda>_. Inl (Other_exception ''unpack''))\<rparr>"

definition demo_genesis :: genesis_state where
  "demo_genesis = \<lparr>initial_timestamp = 5, initial_key = [1], eosio_abi = [0, 1]\<rparr>"

lemma demo_genesis_returns: "\<exists>s. initialize_accounts demo_contract_env demo_genesis = Inr s"
  by (simp add: initialize_accounts_def create_native_account_def create_permission_def row_create_def row_get_def
      demo_contract_env_def demo_genesis_def initial_tables_def auth_initialize_database_def initialize_database_def
      initialize_account_def add_pending_ram_usage_def verify_account_ram_usage_def get_account_limits_def
      perm_by_owner_def get_permission_def fm_find_def genesis_names permission_name_values Let_def
      limits_object_init_def usage_object_init_def overhead_per_account_ram_bytes_def permission_object_size_def
      billable_size_v_def get_billable_size_def authority_of_key_def)

definition demo_action :: "name \<Rightarrow> account_name \<times> action" where
  "demo_action nm = (system_account_name, \<lparr>act_account = system_account_name, act_name = nm,
     act_authorization = [(system_account_name, active_name)], act_data = []\<rparr>)"

lemma demo_codes: "codes_ok demo_contract_env {[1, 2, 3]}" "action_code_in demo_contract_env {[1, 2, 3]} ra"
  by (simp_all add: codes_ok_def demo_contract_env_def digest_zero_def action_code_in_def action_code_def demo_setcode_def)

theorem native_actions_keep_tables_witness:
  "\<exists>s. initialize_accounts demo_contract_env demo_genesis = Inr s \<and>
     contract_inv demo_contract_env {[1, 2, 3]}
       (run_ops (apply_native demo_contract_env) [demo_action newaccount_name, demo_action setcode_name] s)"
proof -
  obtain s where s: "initialize_accounts demo_contract_env demo_genesis = Inr s" using demo_genesis_returns by blast
  show ?thesis
    by (rule exI [of _ s], rule conjI [OF s],
        rule native_actions_keep_tables [OF demo_codes(1) _ s]) (simp add: demo_codes)
qed

end
