(* ===== verification/Contract_Ledger.thy ===== *)
theory Contract_Ledger
  imports Contract_Invariant
begin

text \<open>
  The memory ledger of the native handlers, and the validity of the authorities they store: what an account is
  billed changes by exactly what its rows occupy.
\<close>

section \<open>Sums over tables\<close>

definition fm_sum :: "('k \<Rightarrow> 'v \<Rightarrow> u64) \<Rightarrow> ('k, 'v) flat_map \<Rightarrow> u64" where
  "fm_sum f m = sum_list (map (\<lambda>(k, v). f k v) m)"

definition fm_at :: "('k \<Rightarrow> 'v \<Rightarrow> u64) \<Rightarrow> ('k, 'v) flat_map \<Rightarrow> 'k \<Rightarrow> u64" where
  "fm_at f m k = (case fm_find m k of None \<Rightarrow> 0 | Some v \<Rightarrow> f k v)"

lemma fm_sum_set: "fm_wf m \<Longrightarrow> fm_sum f (fm_set m k v) = fm_sum f m - fm_at f m k + f k v"
proof (induction m k v rule: fm_set.induct)
  case (2 k' v' m k v)
  have none: "fm_find m k = None" if "k < k'"
    using "2.prems" that by (force simp: fm_wf_Cons fm_find_None_iff)
  then show ?case
    using 2 by (auto simp: fm_wf_Cons fm_find_def fm_sum_def fm_at_def split: option.splits)
qed (simp add: fm_sum_def fm_at_def)

lemma fm_sum_erase: "fm_wf m \<Longrightarrow> fm_sum f (fm_erase m k) = fm_sum f m - fm_at f m k"
proof (induction m)
  case (Cons e m)
  obtain k' v' where e: "e = (k', v')" by fastforce
  have none: "fm_find m k = None" if "k' = k"
    using Cons.prems that e by (force simp: fm_wf_Cons fm_find_None_iff)
  then show ?case
    using Cons e
    by (auto simp: fm_wf_Cons fm_sum_def fm_at_def fm_find_Cons fm_erase_def split: option.splits)
qed (simp add: fm_sum_def fm_at_def fm_erase_def)

section \<open>What an account occupies and what it is billed\<close>

definition perm_bytes :: "contract_env \<Rightarrow> account_name \<Rightarrow> nat \<Rightarrow> permission_object \<Rightarrow> u64" where
  "perm_bytes env a i p = (if po_owner p = a \<and> i \<noteq> 0 then permission_size env (po_auth p) else 0)"

definition link_bytes :: "account_name \<Rightarrow> link_key \<Rightarrow> permission_name \<Rightarrow> u64" where
  "link_bytes a k r = (if fst k = a then permission_link_object_size else 0)"

definition gto_bytes :: "account_name \<Rightarrow> digest \<Rightarrow> generated_transaction_object \<Rightarrow> u64" where
  "gto_bytes a i g =
     (if gto_payer g = a then generated_transaction_object_size + of_nat (length (gto_packed_trx g)) else 0)"

definition account_bytes :: "apply_state \<Rightarrow> account_name \<Rightarrow> u64" where
  "account_bytes s a =
     (case fm_find (db_accounts s) a of
        None \<Rightarrow> 0
      | Some acc \<Rightarrow> overhead_per_account_ram_bytes + of_nat (length (ao_abi acc)))"

definition running_bytes :: "apply_state \<Rightarrow> account_name \<Rightarrow> u64" where
  "running_bytes s a = (case fm_find (db_metadata s) a of None \<Rightarrow> 0 | Some m \<Rightarrow> code_bytes (db_codes s) m)"

definition footprint :: "contract_env \<Rightarrow> apply_state \<Rightarrow> account_name \<Rightarrow> u64" where
  "footprint env s a =
     account_bytes s a + running_bytes s a + fm_sum (perm_bytes env a) (perm_rows (db_auth s))
     + fm_sum (link_bytes a) (link_rows (db_auth s)) + fm_sum (gto_bytes a) (db_generated s)"

definition billed :: "resource_limits \<Rightarrow> account_name \<Rightarrow> u64" where
  "billed rl a = (case fm_find (rl_usage rl) a of None \<Rightarrow> 0 | Some u \<Rightarrow> ram_usage u)"

definition ram_balance :: "contract_env \<Rightarrow> apply_state \<Rightarrow> account_name \<Rightarrow> u64" where
  "ram_balance env s a = billed (db_limits s) a - footprint env s a"

lemma billed_add:
  assumes "add_pending_ram_usage a d rl = Inr rl'"
  shows "billed rl' b = billed rl b + (if b = a then d else 0)"
  using assms by (auto simp: add_pending_ram_usage_def billed_def result_simps split: if_splits)

lemma billed_initialize: "initialize_account a rl = Inr rl' \<Longrightarrow> billed rl' b = billed rl b"
  by (auto simp: initialize_account_def billed_def result_simps usage_object_init_def)

text \<open>A step whose bill is the change of the footprint keeps the balance.\<close>

lemma ram_balance_step:
  assumes "billed (db_limits t) b = billed (db_limits s) b + (footprint env t b - footprint env s b)"
  shows "ram_balance env t b = ram_balance env s b"
  using assms by (simp add: ram_balance_def)

lemma account_bytes_cong: "db_accounts t = db_accounts s \<Longrightarrow> account_bytes t = account_bytes s"
  by (simp add: account_bytes_def fun_eq_iff)

lemma running_bytes_cong:
  "db_metadata t = db_metadata s \<Longrightarrow> db_codes t = db_codes s \<Longrightarrow> running_bytes t = running_bytes s"
  by (rule ext) (simp add: running_bytes_def cong: option.case_cong)

subsection \<open>Rows of permissions\<close>

lemma perm_bytes_modify:
  assumes inv: "perm_inv db" and p: "fm_find (perm_rows db) i = Some p" "i \<noteq> 0"
  shows "fm_sum (perm_bytes env b) (perm_rows (modify_permission aenv p auth db)) =
    fm_sum (perm_bytes env b) (perm_rows db)
    + (if b = po_owner p then permission_size env auth - permission_size env (po_auth p) else 0)"
  using perm_invD(5) [OF inv p(1)] p
  by (simp add: modify_permission_def fm_sum_set [OF perm_invD(1) [OF inv]] fm_at_def perm_bytes_def)

lemma perm_bytes_create:
  assumes inv: "perm_inv db" and c: "create_permission aenv a nm parent auth ts db = Inr (p, db')"
  shows "fm_sum (perm_bytes env b) (perm_rows db') =
    fm_sum (perm_bytes env b) (perm_rows db) + (if b = a then permission_size env auth else 0)"
  using create_permission_Inr [OF c] perm_invD(3) [OF inv]
  by (simp add: fm_sum_set [OF perm_invD(1) [OF inv]] fm_at_def perm_bytes_def)

lemma perm_bytes_remove:
  assumes inv: "perm_inv db" and p: "fm_find (perm_rows db) i = Some p" "i \<noteq> 0"
    and r: "remove_permission p db = Inr db'"
  shows "fm_sum (perm_bytes env b) (perm_rows db') =
    fm_sum (perm_bytes env b) (perm_rows db) - (if b = po_owner p then permission_size env (po_auth p) else 0)"
proof -
  have "perm_rows db' = fm_erase (perm_rows db) i"
    using r perm_invD(5) [OF inv p(1)] by (auto simp: remove_permission_def result_simps)
  then show ?thesis using p by (simp add: fm_sum_erase [OF perm_invD(1) [OF inv]] fm_at_def perm_bytes_def)
qed

subsection \<open>The handlers\<close>

lemma newaccount_balance:
  assumes inv: "contract_inv env C s" and r: "apply_eosio_newaccount env auths c s = Inr t"
  shows "ram_balance env t b = ram_balance env s b"
  using r
proof (rule newaccount_Inr)
  fix oz ac :: permission_object and auth1 rl
  let ?a = "new_name c"
  assume none: "fm_find (db_accounts s) ?a = None" "fm_find (db_metadata s) ?a = None"
    and c: "create_permission (ce_auth env) ?a owner_name 0 (new_owner c) 0 (db_auth s) = Inr (oz, auth1)"
      "create_permission (ce_auth env) ?a active_name (po_id oz) (new_active c) 0 auth1 = Inr (ac, db_auth t)"
    and l: "initialize_account ?a (db_limits s) = Inr rl"
      "add_pending_ram_usage ?a (overhead_per_account_ram_bytes + 2 * permission_object_size
         + get_billable_size (ce_pack_size env) (po_auth oz) + get_billable_size (ce_pack_size env) (po_auth ac)) rl =
         Inr (db_limits t)"
    and t: "db_accounts t = fm_set (db_accounts s) ?a
         \<lparr>creation_date = set_time_point (of_int (pending_block_time (ce_auth env))), ao_abi = []\<rparr>"
      "db_metadata t = fm_set (db_metadata s) ?a metadata_init"
      "db_codes t = db_codes s" "db_generated t = db_generated s"
  note pi = permissions_invD(1) [OF contract_invD(2) [OF inv]]
  have z: "\<exists>z. fm_find (perm_rows (db_auth s)) 0 = Some z" using perm_invD(4) [OF pi] by blast
  have pi1: "perm_inv auth1" using create_permission_inv [OF pi c(1)] z by blast
  have auths: "po_auth oz = new_owner c" "po_auth ac = new_active c"
    using create_permission_Inr(4) [OF c(1)] create_permission_Inr(4) [OF c(2)] by simp_all
  have perms: "fm_sum (perm_bytes env b) (perm_rows (db_auth t)) = fm_sum (perm_bytes env b) (perm_rows (db_auth s))
      + (if b = ?a then permission_size env (new_owner c) + permission_size env (new_active c) else 0)"
    using perm_bytes_create [OF pi c(1)] perm_bytes_create [OF pi1 c(2)] by (simp add: algebra_simps)
  have links: "link_rows (db_auth t) = link_rows (db_auth s)"
    using create_permission_Inr(5) [OF c(1)] create_permission_Inr(5) [OF c(2)] by simp
  have acc: "account_bytes t b = account_bytes s b + (if b = ?a then overhead_per_account_ram_bytes else 0)"
    using none(1) by (simp add: account_bytes_def t(1))
  have run: "running_bytes t b = running_bytes s b"
    using none(2) by (simp add: running_bytes_def t(2,3) code_bytes_def code_of_def metadata_init_def cong: option.case_cong)
  show ?thesis
    by (rule ram_balance_step)
      (simp add: billed_add [OF l(2)] billed_initialize [OF l(1)] footprint_def perms links acc run t(4) auths
        permission_size_def)
qed

lemma updateauth_balance:
  assumes inv: "contract_inv env C s" and r: "apply_eosio_updateauth env auths u s = Inr t"
  shows "ram_balance env t b = ram_balance env s b"
proof -
  note U = updateauth_Inr [OF r] and pi = permissions_invD(1) [OF contract_invD(2) [OF inv]]
  note same = account_bytes_cong [OF U(3)] running_bytes_cong [OF U(4,5)]
  show ?thesis
    using r
  proof (cases rule: updateauth_cases)
    case (modified p)
    note F = add_ram_usage_frame [OF modified(3)]
    note P = perm_by_owner_Some [OF modified(1) perm_invD(1) [OF pi]]
    then obtain i where i: "fm_find (perm_rows (db_auth s)) i = Some p" by blast
    have "i \<noteq> 0" using permissions_invD(5) [OF contract_invD(2) [OF inv]] i P(2) modified(2) by (metis fst_conv)
    note B = perm_bytes_modify [OF pi i this, of env b "ce_auth env" "upd_auth u"]
    have "link_rows (db_auth t) = link_rows (db_auth s)" using F(5) by (simp add: modify_permission_def)
    moreover have "billed (db_limits t) b = billed (db_limits s) b +
        (if b = po_owner p then permission_size env (upd_auth u) - permission_size env (po_auth p) else 0)"
      using billed_add [OF F(7)] by simp
    ultimately show ?thesis
      using B F(5) by (intro ram_balance_step) (simp add: footprint_def same U(7))
  next
    case (created p parent_id auth')
    note F = add_ram_usage_frame [OF created(3)]
    note B = perm_bytes_create [OF pi created(1), of env b]
    have "link_rows (db_auth t) = link_rows (db_auth s)" using F(5) create_permission_Inr(5) [OF created(1)] by simp
    moreover have "billed (db_limits t) b = billed (db_limits s) b +
        (if b = upd_account u then permission_size env (upd_auth u) else 0)"
      using billed_add [OF F(7)] create_permission_Inr(4) [OF created(1)] by simp
    ultimately show ?thesis
      using B F(5) by (intro ram_balance_step) (simp add: footprint_def same U(7))
  qed
qed

lemma remove_permission_links: "remove_permission p db = Inr db' \<Longrightarrow> link_rows db' = link_rows db"
  by (auto simp: remove_permission_def result_simps)

lemma deleteauth_balance:
  assumes inv: "contract_inv env C s" and r: "apply_eosio_deleteauth env auths d s = Inr t"
  shows "ram_balance env t b = ram_balance env s b"
  using r
proof (rule deleteauth_Inr)
  fix p :: permission_object
  note pi = permissions_invD(1) [OF contract_invD(2) [OF inv]]
  assume p: "perm_by_owner (db_auth s) (del_account d, del_permission d) = Some p" "del_account d \<noteq> 0"
    and rem: "remove_permission p (db_auth s) = Inr (db_auth t)"
    and l: "add_pending_ram_usage (del_account d) (- permission_size env (po_auth p)) (db_limits s) = Inr (db_limits t)"
    and t: "db_accounts t = db_accounts s" "db_metadata t = db_metadata s" "db_codes t = db_codes s"
      "db_generated t = db_generated s"
  note P = perm_by_owner_Some [OF p(1) perm_invD(1) [OF pi]]
  then obtain i where i: "fm_find (perm_rows (db_auth s)) i = Some p" by blast
  have "i \<noteq> 0" using permissions_invD(5) [OF contract_invD(2) [OF inv]] i P(2) p(2) by (metis fst_conv)
  note B = perm_bytes_remove [OF pi i this rem, of env b]
  have "link_rows (db_auth t) = link_rows (db_auth s)" by (rule remove_permission_links [OF rem])
  then show ?thesis
    using B P(2) billed_add [OF l, of b]
    by (intro ram_balance_step)
      (simp add: footprint_def account_bytes_cong [OF t(1)] running_bytes_cong [OF t(2,3)] t(4))
qed

lemma link_step_balance:
  assumes t: "db_accounts t = db_accounts s" "db_metadata t = db_metadata s" "db_codes t = db_codes s"
      "db_generated t = db_generated s" "db_auth t = (db_auth s)\<lparr>link_rows := l\<rparr>"
    and "billed (db_limits t) b = billed (db_limits s) b
      + (fm_sum (link_bytes b) l - fm_sum (link_bytes b) (link_rows (db_auth s)))"
  shows "ram_balance env t b = ram_balance env s b"
  using assms(6)
  by (intro ram_balance_step)
    (simp add: footprint_def account_bytes_cong [OF t(1)] running_bytes_cong [OF t(2,3)] t(4,5))

lemma linkauth_balance:
  assumes inv: "contract_inv env C s" and r: "apply_eosio_linkauth env auths d s = Inr t"
  shows "ram_balance env t b = ram_balance env s b"
proof -
  note L = linkauth_Inr [OF r] and wf = permissions_invD(2) [OF contract_invD(2) [OF inv]]
  show ?thesis
  proof (rule link_step_balance [OF L(3-5,7,1)])
    show "billed (db_limits t) b = billed (db_limits s) b + (fm_sum (link_bytes b)
        (fm_set (link_rows (db_auth s)) (link_account d, link_code d, link_type d) (link_requirement d))
        - fm_sum (link_bytes b) (link_rows (db_auth s)))"
      using L(2) billed_add [of "link_account d" permission_link_object_size "db_limits s" "db_limits t" b]
      by (auto simp: fm_sum_set [OF wf] fm_at_def link_bytes_def split: if_splits)
  qed
qed

lemma unlinkauth_balance:
  assumes inv: "contract_inv env C s" and r: "apply_eosio_unlinkauth env auths d s = Inr t"
  shows "ram_balance env t b = ram_balance env s b"
proof -
  note L = unlinkauth_Inr [OF r] and wf = permissions_invD(2) [OF contract_invD(2) [OF inv]]
  show ?thesis
  proof (rule link_step_balance [OF L(4-6,8,2)])
    show "billed (db_limits t) b = billed (db_limits s) b + (fm_sum (link_bytes b)
        (fm_erase (link_rows (db_auth s)) (unl_account d, unl_code d, unl_type d))
        - fm_sum (link_bytes b) (link_rows (db_auth s)))"
      using L(1) billed_add [OF L(3), of b]
      by (auto simp: fm_sum_erase [OF wf] fm_at_def link_bytes_def)
  qed
qed

lemma canceldelay_balance:
  assumes inv: "contract_inv env C s" and r: "apply_eosio_canceldelay env auths d s = Inr t"
  shows "ram_balance env t b = ram_balance env s b"
  using r
proof (cases rule: canceldelay_cases)
  case (erased id g s')
  note F = add_ram_usage_frame [OF erased(2)] and wf = contract_invD(4) [OF inv]
  have t: "db_accounts t = db_accounts s" "db_metadata t = db_metadata s" "db_codes t = db_codes s"
      "db_auth t = db_auth s" "db_generated t = fm_erase (db_generated s) id" "db_limits t = db_limits s'"
    using F erased(3) by simp_all
  have "fm_find (db_generated s) id = Some g" using erased(1) fm_find_Some_iff [OF wf] by blast
  then have "fm_sum (gto_bytes b) (db_generated t) = fm_sum (gto_bytes b) (db_generated s)
      - (if b = gto_payer g then generated_transaction_object_size + of_nat (length (gto_packed_trx g)) else 0)"
    by (simp add: t(5) fm_sum_erase [OF wf] fm_at_def gto_bytes_def)
  then show ?thesis
    using billed_add [OF F(7), of b]
    by (intro ram_balance_step)
      (simp add: footprint_def account_bytes_cong [OF t(1)] running_bytes_cong [OF t(2,3)] t(4,6))
qed simp

lemma setabi_balance:
  assumes r: "apply_eosio_setabi env auths d s = Inr t"
  shows "ram_balance env t b = ram_balance env s b"
  using r
proof (rule setabi_Inr)
  fix acc m
  let ?a = "sa_account d"
  assume f: "fm_find (db_accounts s) ?a = Some acc" "fm_find (db_metadata s) ?a = Some m"
    and t: "db_accounts t = fm_set (db_accounts s) ?a (acc\<lparr>ao_abi := sa_abi d\<rparr>)"
      "db_metadata t = fm_set (db_metadata s) ?a (m\<lparr>abi_sequence := abi_sequence m + 1\<rparr>)"
      "db_auth t = db_auth s" "db_codes t = db_codes s" "db_generated t = db_generated s"
    and l: "(of_nat (length (sa_abi d)) :: i64) = of_nat (length (ao_abi acc)) \<and> db_limits t = db_limits s \<or>
       add_pending_ram_usage ?a (of_nat (length (sa_abi d)) - of_nat (length (ao_abi acc))) (db_limits s) =
         Inr (db_limits t)"
  have run: "running_bytes t b = running_bytes s b"
    using f(2) by (simp add: running_bytes_def t(2,4) code_bytes_def code_of_def cong: option.case_cong)
  have acc: "account_bytes t b =
      account_bytes s b + (if b = ?a then of_nat (length (sa_abi d)) - of_nat (length (ao_abi acc)) else 0)"
    using f(1) by (simp add: account_bytes_def t(1))
  have "billed (db_limits t) b = billed (db_limits s) b
      + (if b = ?a then of_nat (length (sa_abi d)) - of_nat (length (ao_abi acc)) else 0)"
    using l billed_add by auto
  then show ?thesis by (intro ram_balance_step) (simp add: footprint_def acc run t(3,5))
qed

lemma setcode_balance:
  assumes ok: "codes_ok env C" and inv: "contract_inv env C s" and r: "apply_eosio_setcode env auths c s = Inr t"
    and C: "sc_code c \<noteq> [] \<Longrightarrow> sc_code c \<in> C"
  shows "ram_balance env t b = ram_balance env s b"
  using r
proof (rule setcode_Inr)
  fix m sz s1 s2
  let ?a = "sc_account c" and ?h = "setcode_hash env c" and ?md = "db_metadata s"
  let ?new = "of_nat (length (sc_code c)) * setcode_ram_bytes_multiplier"
  assume m: "fm_find ?md ?a = Some m" and v: "sc_vmtype c = 0" "sc_vmversion c = 0"
    and rel: "release_code m ?h s = Inr (sz, s1)" and acq: "acquire_code env c ?h s1 = Inr s2"
    and t: "db_codes t = db_codes s2" "db_metadata t = fm_set ?md ?a (setcode_metadata env c m)"
      "db_auth t = db_auth s" "db_accounts t = db_accounts s" "db_generated t = db_generated s"
    and l: "?new = sz \<and> db_limits t = db_limits s \<or>
       add_pending_ram_usage ?a (?new - sz) (db_limits s) = Inr (db_limits t)"
  note tab = contract_invD(5) [OF inv]
  note tab1 = release_code_ok [OF tab m rel]
  have h: "?h = ce_sha256 env (sc_code c) \<and> sc_code c \<in> C" if "sc_code c \<noteq> []"
    using C that by (simp add: setcode_hash_def)
  have code: "code_of (setcode_metadata env c m) =
      (if sc_code c = [] then None else Some (?h, sc_vmtype c, sc_vmversion c))"
    by (rule setcode_code_of [OF ok C v])
  note inj = conjunct1 [OF ok [unfolded codes_ok_def]]
  note A = acquire_code_bytes [OF tab1 inj acq h code]
  have run: "running_bytes t b = running_bytes s b + (if b = ?a then ?new - sz else 0)"
  proof (cases "b = ?a")
    case True
    then show ?thesis using A(1) m release_code_bytes(1) [OF tab m rel] by (simp add: running_bytes_def t(1,2))
  next
    case False
    show ?thesis
    proof (cases "fm_find ?md b")
      case None
      then show ?thesis using False by (simp add: running_bytes_def t(1,2))
    next
      case (Some m')
      have "fm_find (fm_erase ?md ?a) b = Some m'" using Some False by simp
      then have "code_bytes (db_codes s2) m' = code_bytes (db_codes s) m'"
        using A(2) release_code_bytes(2) [OF tab m rel Some False] by simp
      then show ?thesis using Some False by (simp add: running_bytes_def t(1,2))
    qed
  qed
  have "billed (db_limits t) b = billed (db_limits s) b + (if b = ?a then ?new - sz else 0)"
    using l billed_add by auto
  then show ?thesis
    by (intro ram_balance_step) (simp add: footprint_def run account_bytes_cong [OF t(4)] t(3,5))
qed

lemma ram_balance_actions: "ram_balance env (s\<lparr>db_fioactions := x\<rparr>) b = ram_balance env s b"
  by (simp add: ram_balance_def footprint_def account_bytes_def running_bytes_def cong: option.case_cong)

lemma apply_native_balance:
  assumes ok: "codes_ok env C" and inv: "contract_inv env C s" and r: "apply_native env ra s = Inr t"
    and C: "action_code_in env C ra"
  shows "ram_balance env t b = ram_balance env s b"
  using r
proof (cases rule: apply_native_cases)
  case (3 d)
  have "sc_code d \<in> C" if "sc_code d \<noteq> []" using C 3(2) that by (simp add: action_code_in_def action_code_def)
  then show ?thesis by (rule setcode_balance [OF ok inv 3(1)])
next
  case (9 d)
  then obtain f where "t = s\<lparr>db_fioactions := fm_set (db_fioactions s) (add_action d) f\<rparr>" by (rule addaction_Inr)
  then show ?thesis by (simp add: ram_balance_actions)
next
  case (10 d)
  then show ?thesis using remaction_Inr [OF 10] by (simp add: ram_balance_actions)
next
  case (2 d)
  then show ?thesis by (rule newaccount_balance [OF inv])
next
  case (4 d)
  then show ?thesis by (rule setabi_balance)
next
  case (5 d)
  then show ?thesis by (rule updateauth_balance [OF inv])
next
  case (6 d)
  then show ?thesis by (rule deleteauth_balance [OF inv])
next
  case (7 d)
  then show ?thesis by (rule linkauth_balance [OF inv])
next
  case (8 d)
  then show ?thesis by (rule unlinkauth_balance [OF inv])
next
  case (11 d)
  then show ?thesis by (rule canceldelay_balance [OF inv])
qed simp

interpretation ld: conditional_machine "apply_native env" "action_code_in env C"
    "\<lambda>t. codes_ok env C \<longrightarrow> contract_inv env C t \<and> (\<forall>b. ram_balance env t b = ram_balance env s b)"
  by unfold_locales (use apply_native_inv apply_native_balance in metis)

section \<open>Authorities\<close>

definition stored_valid :: "contract_env \<Rightarrow> apply_state \<Rightarrow> apply_state \<Rightarrow> bool" where
  "stored_valid env s t \<longleftrightarrow>
     (\<forall>i p. fm_find (perm_rows (db_auth t)) i = Some p \<longrightarrow>
        validate_authority (ce_key_less env) (po_auth p) \<or>
        (\<exists>q. fm_find (perm_rows (db_auth s)) i = Some q \<and> po_auth q = po_auth p))"

lemma stored_valid_refl: "stored_valid env s s"
  by (simp add: stored_valid_def)

text \<open>A step that writes rows with valid authorities only.\<close>

lemma stored_valid_step:
  assumes s: "stored_valid env s t"
    and "\<And>i p. fm_find (perm_rows (db_auth t')) i = Some p \<Longrightarrow>
      fm_find (perm_rows (db_auth t)) i = Some p \<or> validate_authority (ce_key_less env) (po_auth p)"
  shows "stored_valid env s t'"
  using assms unfolding stored_valid_def by blast

lemma create_permission_rows:
  assumes "create_permission env a nm parent auth ts db = Inr (p, db')" "fm_find (perm_rows db') i = Some r"
  shows "fm_find (perm_rows db) i = Some r \<or> po_auth r = auth"
  using create_permission_Inr(4,5) [OF assms(1)] assms(2) by (auto split: if_splits)

lemma remove_permission_rows:
  assumes "remove_permission p db = Inr db'" "fm_find (perm_rows db') i = Some r"
  shows "fm_find (perm_rows db) i = Some r"
proof -
  have "perm_rows db' = fm_erase (perm_rows db) (po_id p)"
    using assms(1) by (auto simp: remove_permission_def result_simps)
  then show ?thesis using assms(2) by (simp split: if_splits)
qed

lemma apply_native_stored_valid:
  assumes inv: "stored_valid env s t" and r: "apply_native env ra t = Inr t'"
  shows "stored_valid env s t'"
  using r
proof (cases rule: apply_native_cases)
  case 1
  then show ?thesis using inv by simp
next
  case (2 d)
  show ?thesis
  proof (rule stored_valid_step [OF inv])
    fix i p
    assume "fm_find (perm_rows (db_auth t')) i = Some p"
    then show "fm_find (perm_rows (db_auth t)) i = Some p \<or> validate_authority (ce_key_less env) (po_auth p)"
      using 2 create_permission_rows by (elim newaccount_Inr) metis
  qed
next
  case (5 d)
  note v = updateauth_Inr(2) [OF 5]
  show ?thesis
    using 5
  proof (cases rule: updateauth_cases)
    case (modified p)
    show ?thesis
      by (rule stored_valid_step [OF inv])
        (use v add_ram_usage_frame(5) [OF modified(3)] in \<open>auto simp: modify_permission_def split: if_splits\<close>)
  next
    case (created p parent_id auth')
    show ?thesis
      by (rule stored_valid_step [OF inv])
        (use v add_ram_usage_frame(5) [OF created(3)] create_permission_Inr(4,5) [OF created(1)]
          in \<open>auto split: if_splits\<close>)
  qed
next
  case (6 d)
  then show ?thesis
    by (elim deleteauth_Inr, intro stored_valid_step [OF inv]) (use remove_permission_rows in blast)
next
  case (7 d)
  then show ?thesis using inv linkauth_Inr(1) [OF 7] by (simp add: stored_valid_def)
next
  case (8 d)
  then show ?thesis using inv unlinkauth_Inr(2) [OF 8] by (simp add: stored_valid_def)
next
  case (9 d)
  then show ?thesis using inv by (elim addaction_Inr) (simp add: stored_valid_def)
next
  case (10 d)
  then show ?thesis using inv remaction_Inr [OF 10] by (simp add: stored_valid_def)
next
  case (11 d)
  then show ?thesis
    by (cases rule: canceldelay_cases) (use inv add_ram_usage_frame(5) in \<open>auto simp: stored_valid_def\<close>)
next
  case (3 d)
  then show ?thesis using inv by (elim setcode_Inr) (simp add: stored_valid_def)
next
  case (4 d)
  then show ?thesis using inv by (elim setabi_Inr) (simp add: stored_valid_def)
qed

interpretation sv: guarded_machine "apply_native env" "stored_valid env s"
  by unfold_locales (rule apply_native_stored_valid)

section \<open>An account on the genesis state\<close>

lemma contract_action_names:
  "newaccount_name = 11148770977341390848" "demo_name = 3773036822876127232"
  unfolding newaccount_name_def demo_name_def by code_simp+

lemma demo_name_string: "name_to_string 3773036822876127232 = ''alice''"
  by code_simp

lemma demo_genesis_newaccount:
  "\<exists>s t. initialize_accounts demo_contract_env demo_genesis = Inr s \<and>
     apply_native demo_contract_env (demo_action newaccount_name) s = Inr t \<and>
     (\<exists>p. fm_find (perm_rows (db_auth t)) 9 = Some p \<and> fm_find (perm_rows (db_auth s)) 9 = None)"
  by (simp add: initialize_accounts_def create_native_account_def create_permission_def row_create_def row_get_def
      demo_contract_env_def demo_genesis_def initial_tables_def auth_initialize_database_def initialize_database_def
      initialize_account_def add_pending_ram_usage_def verify_account_ram_usage_def get_account_limits_def
      perm_by_owner_def get_permission_def fm_find_def genesis_names permission_name_values Let_def
      limits_object_init_def usage_object_init_def overhead_per_account_ram_bytes_def permission_object_size_def
      billable_size_v_def get_billable_size_def authority_of_key_def
      apply_native_def find_apply_handler_def apply_handlers_def data_as_def contract_action_names demo_action_def
      apply_eosio_newaccount_def demo_newaccount_def require_authorization_def demo_name_string
      validate_authority_precondition_def validate_authority_def is_privileged_def set_privileged_def
      metadata_init_def add_ram_usage_def trx_add_ram_usage_def)

section \<open>Properties\<close>

text \<open>
  C5. The memory ledger is exact: what an account name is billed minus what its rows occupy - account and ABI,
  code, permissions, links and deferred transactions - is the same before and after any sequence of native
  actions, in 64-bit arithmetic. So an account that is created by an action is billed exactly what it occupies.
\<close>

theorem ram_ledger_exact:
  assumes "codes_ok env C" "contract_inv env C s" "list_all (action_code_in env C) ops"
  shows "ram_balance env (run_ops (apply_native env) ops s) a = ram_balance env s a"
  using ld.run_ok_inv [OF assms(3), of s s] assms(1,2) by blast

theorem ram_ledger_exact_witness:
  "\<exists>s t. initialize_accounts demo_contract_env demo_genesis = Inr s \<and>
     apply_native demo_contract_env (demo_action newaccount_name) s = Inr t \<and>
     ram_balance demo_contract_env t demo_name = ram_balance demo_contract_env s demo_name"
proof -
  obtain s t where s: "initialize_accounts demo_contract_env demo_genesis = Inr s"
      "apply_native demo_contract_env (demo_action newaccount_name) s = Inr t"
    using demo_genesis_newaccount by blast
  have "ram_balance demo_contract_env
      (run_ops (apply_native demo_contract_env) [demo_action newaccount_name] s) demo_name =
      ram_balance demo_contract_env s demo_name"
    by (rule ram_ledger_exact [OF demo_codes(1) initialize_accounts_inv [OF s(1)]]) (simp add: demo_codes)
  then show ?thesis using s by auto
qed

text \<open>
  C17. Every authority in the permission table is well formed: after any sequence of native actions a permission
  has an authority that passes \<^verbatim>\<open>validate\<close>, or it has the authority it had at the start.
\<close>

theorem stored_authorities_valid:
  assumes "fm_find (perm_rows (db_auth (run_ops (apply_native env) ops s))) i = Some p"
  shows "validate_authority (ce_key_less env) (po_auth p) \<or>
    (\<exists>q. fm_find (perm_rows (db_auth s)) i = Some q \<and> po_auth q = po_auth p)"
  using sv.run_inv [OF stored_valid_refl, of env s ops] assms unfolding stored_valid_def by blast

theorem stored_authorities_valid_witness:
  "\<exists>s t p. apply_native demo_contract_env (demo_action newaccount_name) s = Inr t \<and>
     fm_find (perm_rows (db_auth t)) 9 = Some p \<and> validate_authority (ce_key_less demo_contract_env) (po_auth p)"
proof -
  obtain s t p where *: "apply_native demo_contract_env (demo_action newaccount_name) s = Inr t"
      "fm_find (perm_rows (db_auth t)) 9 = Some p" "fm_find (perm_rows (db_auth s)) 9 = None"
    using demo_genesis_newaccount by blast
  have "validate_authority (ce_key_less demo_contract_env) (po_auth p) \<or>
      (\<exists>q. fm_find (perm_rows (db_auth s)) 9 = Some q \<and> po_auth q = po_auth p)"
    by (rule stored_authorities_valid [where ops = "[demo_action newaccount_name]"]) (use * in simp)
  then show ?thesis using * by auto
qed

end
