(* ===== verification/Contract_Tables.thy ===== *)
theory Contract_Tables
  imports Contract_Ledger
begin

text \<open>
  The primary tables of contracts (\<^verbatim>\<open>apply_context.cpp\<close>, \<^verbatim>\<open>apply_context.hpp\<close>, \<^verbatim>\<open>contract_table_objects.hpp\<close>): storing,
  changing and removing rows, iterators over them and the cache of the iterators that a contract has been given.
  A table is known by its chainbase identifier and a row by the identifier of its table and its primary key. The
  cache holds pointers to rows and tables; a pointer to a row is the key of the row, since a row is only removed
  through the cache that drops its pointer, and a pointer to a table is its identifier, which chainbase does not
  reuse. Reading through the pointer of a removed table is undefined. An \<^verbatim>\<open>int\<close> iterator is an unbounded
  integer: the model does not show that an action with \<open>2\<^sup>3\<^sup>1\<close> or more iterators wraps them around. The source states
  the bound for end iterators, and the cache lives for one action only.
\<close>

section \<open>Model\<close>

record table_id_object =
  tid_code :: account_name
  tid_scope :: name
  tid_table :: name
  tid_payer :: account_name
  tid_count :: u32

record key_value_object =
  kv_id :: nat
  kv_payer :: account_name
  kv_value :: "u8 list"

type_synonym row_key = "nat \<times> u64"

definition table_id_object_size :: u64 where
  "table_id_object_size = billable_size_v (44 + 32 * 2)"

definition key_value_object_size :: u64 where
  "key_value_object_size = billable_size_v (32 + 8 + 4 + 32 * 2)"

record iterator_cache =
  table_cache :: "(nat, int) flat_map"
  end_iterator_to_table :: "nat list"
  iterator_to_object :: "row_key option list"
  object_to_iterator :: "(row_key, nat) flat_map"

definition iterator_cache_init :: iterator_cache where
  "iterator_cache_init =
     \<lparr>table_cache = [], end_iterator_to_table = [], iterator_to_object = [], object_to_iterator = []\<rparr>"

definition end_iterator_to_index :: "int \<Rightarrow> nat" where
  "end_iterator_to_index ei = nat (- ei - 2)"

definition index_to_end_iterator :: "nat \<Rightarrow> int" where
  "index_to_end_iterator indx = - (int indx + 2)"

definition cache_table :: "nat \<Rightarrow> iterator_cache \<Rightarrow> int \<times> iterator_cache" where
  "cache_table i c =
     (case fm_find (table_cache c) i of
        Some ei \<Rightarrow> (ei, c)
      | None \<Rightarrow>
          (let ei = index_to_end_iterator (length (end_iterator_to_table c))
           in (ei, c\<lparr>end_iterator_to_table := end_iterator_to_table c @ [i],
                     table_cache := fm_set (table_cache c) i ei\<rparr>)))"

text \<open>The two lookups by table identifier: the pointer to the table and its end iterator.\<close>

definition cache_get_table :: "iterator_cache \<Rightarrow> nat \<Rightarrow> nat result" where
  "cache_get_table c i =
     eos_assert (fm_find (table_cache c) i \<noteq> None) (Other_exception ''table_not_in_cache'') (Inr i)"

definition get_end_iterator_by_table_id :: "iterator_cache \<Rightarrow> nat \<Rightarrow> int result" where
  "get_end_iterator_by_table_id c i =
     (case fm_find (table_cache c) i of
        None \<Rightarrow> Inl (Other_exception ''table_not_in_cache'')
      | Some ei \<Rightarrow> Inr ei)"

definition find_table_by_end_iterator :: "iterator_cache \<Rightarrow> int \<Rightarrow> nat option result" where
  "find_table_by_end_iterator c ei =
     eos_assert (ei < -1) (Other_exception ''invalid_table_iterator'')
       (let indx = end_iterator_to_index ei
        in Inr (if length (end_iterator_to_table c) \<le> indx then None
                else Some (end_iterator_to_table c ! indx)))"

definition cache_get :: "iterator_cache \<Rightarrow> int \<Rightarrow> row_key result" where
  "cache_get c iterator =
     eos_assert (iterator \<noteq> -1) (Other_exception ''invalid_table_iterator'') (
     eos_assert (0 \<le> iterator) (Other_exception ''table_operation_not_permitted'') (
     eos_assert (nat iterator < length (iterator_to_object c)) (Other_exception ''invalid_table_iterator'')
       (case iterator_to_object c ! nat iterator of
          None \<Rightarrow> Inl (Other_exception ''table_operation_not_permitted'')
        | Some k \<Rightarrow> Inr k)))"

definition cache_remove :: "int \<Rightarrow> iterator_cache \<Rightarrow> iterator_cache result" where
  "cache_remove iterator c =
     eos_assert (iterator \<noteq> -1) (Other_exception ''invalid_table_iterator'') (
     eos_assert (0 \<le> iterator) (Other_exception ''table_operation_not_permitted'') (
     eos_assert (nat iterator < length (iterator_to_object c)) (Other_exception ''invalid_table_iterator'')
       (case iterator_to_object c ! nat iterator of
          None \<Rightarrow> Inr c
        | Some k \<Rightarrow> Inr (c\<lparr>iterator_to_object := (iterator_to_object c)[nat iterator := None],
                           object_to_iterator := fm_erase (object_to_iterator c) k\<rparr>))))"

definition cache_add :: "row_key \<Rightarrow> iterator_cache \<Rightarrow> int \<times> iterator_cache" where
  "cache_add k c =
     (case fm_find (object_to_iterator c) k of
        Some i \<Rightarrow> (int i, c)
      | None \<Rightarrow>
          (int (length (iterator_to_object c)),
           c\<lparr>iterator_to_object := iterator_to_object c @ [Some k],
             object_to_iterator := fm_set (object_to_iterator c) k (length (iterator_to_object c))\<rparr>))"

subsection \<open>Tables and rows\<close>

text \<open>What the operations read of the action that runs.\<close>

record table_env =
  te_receiver :: account_name
  te_account :: account_name
  te_privileged :: bool
  te_ram_restrictions :: bool
  te_ram_billing_in_notify :: bool
  te_auths :: "permission_level list"

record table_state =
  ts_apply :: apply_state
  ts_tables :: "(nat, table_id_object) flat_map"
  ts_next_table :: nat
  ts_rows :: "(row_key, key_value_object) flat_map"
  ts_next_row :: nat
  ts_cache :: iterator_cache

definition update_db_usage :: "table_env \<Rightarrow> account_name \<Rightarrow> i64 \<Rightarrow> table_state \<Rightarrow> table_state result" where
  "update_db_usage env payer delta s =
     rbind (if 0 < sint delta \<and> \<not> (te_privileged env \<or> payer = te_receiver env \<or> te_ram_restrictions env)
            then eos_assert (te_ram_billing_in_notify env \<or> te_receiver env = te_account env)
                   (Other_exception ''subjective_block_production_exception'')
                   (require_authorization (te_auths env) payer)
            else Inr ()) (\<lambda>_.
     rbind (add_ram_usage payer delta (ts_apply s)) (\<lambda>a. Inr (s\<lparr>ts_apply := a\<rparr>)))"

definition find_table :: "account_name \<Rightarrow> name \<Rightarrow> name \<Rightarrow> table_state \<Rightarrow> nat option" where
  "find_table code scope table s =
     map_option fst (find (\<lambda>e. tid_code (snd e) = code \<and> tid_scope (snd e) = scope \<and> tid_table (snd e) = table)
       (ts_tables s))"

definition find_or_create_table ::
  "table_env \<Rightarrow> account_name \<Rightarrow> name \<Rightarrow> name \<Rightarrow> account_name \<Rightarrow> table_state \<Rightarrow> (nat \<times> table_state) result" where
  "find_or_create_table env code scope table payer s =
     (case find_table code scope table s of
        Some i \<Rightarrow> Inr (i, s)
      | None \<Rightarrow>
          rbind (update_db_usage env payer table_id_object_size s) (\<lambda>s1.
          Inr (ts_next_table s1,
               s1\<lparr>ts_tables := fm_set (ts_tables s1) (ts_next_table s1)
                     \<lparr>tid_code = code, tid_scope = scope, tid_table = table, tid_payer = payer, tid_count = 0\<rparr>,
                   ts_next_table := ts_next_table s1 + 1\<rparr>)))"

text \<open>A table is read through a pointer.\<close>

definition table_at :: "table_state \<Rightarrow> nat \<Rightarrow> table_id_object result" where
  "table_at s i = (case fm_find (ts_tables s) i of None \<Rightarrow> Inl Undefined_behaviour | Some t \<Rightarrow> Inr t)"

definition row_at :: "table_state \<Rightarrow> row_key \<Rightarrow> key_value_object result" where
  "row_at s k = (case fm_find (ts_rows s) k of None \<Rightarrow> Inl Undefined_behaviour | Some r \<Rightarrow> Inr r)"

definition remove_table :: "table_env \<Rightarrow> nat \<Rightarrow> table_id_object \<Rightarrow> table_state \<Rightarrow> table_state result" where
  "remove_table env i tid s =
     rbind (update_db_usage env (tid_payer tid) (- table_id_object_size) s) (\<lambda>s1.
     Inr (s1\<lparr>ts_tables := fm_erase (ts_tables s1) i\<rparr>))"

definition row_size :: "u8 list \<Rightarrow> u64" where
  "row_size buffer = of_nat (length buffer) + key_value_object_size"

definition db_store_i64 ::
  "table_env \<Rightarrow> account_name \<Rightarrow> name \<Rightarrow> name \<Rightarrow> account_name \<Rightarrow> u64 \<Rightarrow> u8 list \<Rightarrow> table_state \<Rightarrow>
     (int \<times> table_state) result" where
  "db_store_i64 env code scope table payer i buffer s =
     rbind (find_or_create_table env code scope table payer s) (\<lambda>(tableid, s1).
     eos_assert (payer \<noteq> 0) (Other_exception ''invalid_table_payer'') (
     rbind (row_create (ts_rows s1) (tableid, i)
              \<lparr>kv_id = ts_next_row s1, kv_payer = payer, kv_value = buffer\<rparr>) (\<lambda>rows.
     rbind (table_at s1 tableid) (\<lambda>tab.
     rbind (update_db_usage env payer (row_size buffer)
              (s1\<lparr>ts_rows := rows, ts_next_row := ts_next_row s1 + 1,
                  ts_tables := fm_set (ts_tables s1) tableid (tab\<lparr>tid_count := tid_count tab + 1\<rparr>)\<rparr>)) (\<lambda>s2.
     let (ei, c1) = cache_table tableid (ts_cache s2); (it, c2) = cache_add (tableid, i) c1
     in Inr (it, s2\<lparr>ts_cache := c2\<rparr>))))))"

definition db_update_i64 :: "table_env \<Rightarrow> int \<Rightarrow> account_name \<Rightarrow> u8 list \<Rightarrow> table_state \<Rightarrow> table_state result" where
  "db_update_i64 env iterator payer0 buffer s =
     rbind (cache_get (ts_cache s) iterator) (\<lambda>k.
     rbind (row_at s k) (\<lambda>obj.
     rbind (cache_get_table (ts_cache s) (fst k)) (\<lambda>i.
     rbind (table_at s i) (\<lambda>table_obj.
     eos_assert (tid_code table_obj = te_receiver env) (Other_exception ''table_access_violation'') (
     let old_size = row_size (kv_value obj); new_size = row_size buffer;
         payer = (if payer0 = 0 then kv_payer obj else payer0)
     in rbind (if kv_payer obj \<noteq> payer
               then rbind (update_db_usage env (kv_payer obj) (- old_size) s) (update_db_usage env payer new_size)
               else if old_size \<noteq> new_size then update_db_usage env (kv_payer obj) (new_size - old_size) s
               else Inr s) (\<lambda>s1.
        Inr (s1\<lparr>ts_rows := fm_set (ts_rows s1) k (obj\<lparr>kv_value := buffer, kv_payer := payer\<rparr>)\<rparr>)))))))"

definition db_remove_i64 :: "table_env \<Rightarrow> int \<Rightarrow> table_state \<Rightarrow> table_state result" where
  "db_remove_i64 env iterator s =
     rbind (cache_get (ts_cache s) iterator) (\<lambda>k.
     rbind (row_at s k) (\<lambda>obj.
     rbind (cache_get_table (ts_cache s) (fst k)) (\<lambda>i.
     rbind (table_at s i) (\<lambda>table_obj.
     eos_assert (tid_code table_obj = te_receiver env) (Other_exception ''table_access_violation'') (
     rbind (update_db_usage env (kv_payer obj) (- row_size (kv_value obj)) s) (\<lambda>s1.
     let t = table_obj\<lparr>tid_count := tid_count table_obj - 1\<rparr>;
         s2 = s1\<lparr>ts_tables := fm_set (ts_tables s1) i t, ts_rows := fm_erase (ts_rows s1) k\<rparr>
     in rbind (if tid_count t = 0 then remove_table env i t s2 else Inr s2) (\<lambda>s3.
        rbind (cache_remove iterator (ts_cache s3)) (\<lambda>c.
        Inr (s3\<lparr>ts_cache := c\<rparr>)))))))))"

text \<open>The size that is returned and the bytes that are copied to the buffer.\<close>

definition db_get_i64 :: "int \<Rightarrow> nat \<Rightarrow> table_state \<Rightarrow> (int \<times> u8 list) result" where
  "db_get_i64 iterator buffer_size s =
     rbind (cache_get (ts_cache s) iterator) (\<lambda>k.
     rbind (row_at s k) (\<lambda>obj.
     let n = length (kv_value obj); copy_size = min buffer_size n
     in Inr (if buffer_size = 0 then (int n, []) else (int copy_size, take copy_size (kv_value obj)))))"

text \<open>
  Lookups return an iterator, the primary key that is written through the reference, if any, and the state with
  its cache.
\<close>

definition add_found :: "row_key \<Rightarrow> table_state \<Rightarrow> int \<times> u64 option \<times> table_state" where
  "add_found k s = (let (it, c) = cache_add k (ts_cache s) in (it, Some (snd k), s\<lparr>ts_cache := c\<rparr>))"

definition db_next_i64 :: "int \<Rightarrow> table_state \<Rightarrow> (int \<times> u64 option \<times> table_state) result" where
  "db_next_i64 iterator s =
     (if iterator < -1 then Inr (-1, None, s)
      else
        rbind (cache_get (ts_cache s) iterator) (\<lambda>k.
        case find (\<lambda>e. k < fst e) (ts_rows s) of
          None \<Rightarrow> rbind (get_end_iterator_by_table_id (ts_cache s) (fst k)) (\<lambda>ei. Inr (ei, None, s))
        | Some e \<Rightarrow>
            if fst (fst e) \<noteq> fst k
            then rbind (get_end_iterator_by_table_id (ts_cache s) (fst k)) (\<lambda>ei. Inr (ei, None, s))
            else Inr (add_found (fst e) s)))"

definition last_before :: "(row_key \<Rightarrow> bool) \<Rightarrow> table_state \<Rightarrow> row_key option" where
  "last_before P s = (case filter P (map fst (ts_rows s)) of [] \<Rightarrow> None | ks \<Rightarrow> Some (last ks))"

definition db_previous_i64 :: "int \<Rightarrow> table_state \<Rightarrow> (int \<times> u64 option \<times> table_state) result" where
  "db_previous_i64 iterator s =
     (if iterator < -1
      then rbind (find_table_by_end_iterator (ts_cache s) iterator) (\<lambda>tab.
           case tab of
             None \<Rightarrow> Inl (Other_exception ''invalid_table_iterator'')
           | Some i \<Rightarrow>
               rbind (table_at s i) (\<lambda>_.
               case last_before (\<lambda>k. fst k \<le> i) s of
                 None \<Rightarrow> Inr (-1, None, s)
               | Some k \<Rightarrow> if fst k \<noteq> i then Inr (-1, None, s) else Inr (add_found k s)))
      else
        rbind (cache_get (ts_cache s) iterator) (\<lambda>k.
        case last_before (\<lambda>k'. k' < k) s of
          None \<Rightarrow> Inr (-1, None, s)
        | Some k' \<Rightarrow> if fst k' \<noteq> fst k then Inr (-1, None, s) else Inr (add_found k' s)))"

text \<open>The common part of the searches in a table: the first row from a position on, or the end of the table.\<close>

definition search_table ::
  "account_name \<Rightarrow> name \<Rightarrow> name \<Rightarrow> (nat \<Rightarrow> (row_key \<Rightarrow> bool)) \<Rightarrow> table_state \<Rightarrow> int \<times> table_state" where
  "search_table code scope table P s =
     (case find_table code scope table s of
        None \<Rightarrow> (-1, s)
      | Some i \<Rightarrow>
          (let (ei, c) = cache_table i (ts_cache s)
           in case find (P i) (map fst (ts_rows s)) of
                None \<Rightarrow> (ei, s\<lparr>ts_cache := c\<rparr>)
              | Some k \<Rightarrow>
                  if fst k \<noteq> i then (ei, s\<lparr>ts_cache := c\<rparr>)
                  else (let (it, c') = cache_add k c in (it, s\<lparr>ts_cache := c'\<rparr>))))"

definition db_find_i64 :: "account_name \<Rightarrow> name \<Rightarrow> name \<Rightarrow> u64 \<Rightarrow> table_state \<Rightarrow> int \<times> table_state" where
  "db_find_i64 code scope table i s = search_table code scope table (\<lambda>t k. k = (t, i)) s"

definition db_lowerbound_i64 :: "account_name \<Rightarrow> name \<Rightarrow> name \<Rightarrow> u64 \<Rightarrow> table_state \<Rightarrow> int \<times> table_state" where
  "db_lowerbound_i64 code scope table i s = search_table code scope table (\<lambda>t k. (t, i) \<le> k) s"

definition db_upperbound_i64 :: "account_name \<Rightarrow> name \<Rightarrow> name \<Rightarrow> u64 \<Rightarrow> table_state \<Rightarrow> int \<times> table_state" where
  "db_upperbound_i64 code scope table i s = search_table code scope table (\<lambda>t k. (t, i) < k) s"

definition db_end_i64 :: "account_name \<Rightarrow> name \<Rightarrow> name \<Rightarrow> table_state \<Rightarrow> int \<times> table_state" where
  "db_end_i64 code scope table s =
     (case find_table code scope table s of
        None \<Rightarrow> (-1, s)
      | Some i \<Rightarrow> (let (ei, c) = cache_table i (ts_cache s) in (ei, s\<lparr>ts_cache := c\<rparr>)))"

text \<open>A call of a contract.\<close>

datatype table_op =
    Db_store name name account_name u64 "u8 list"
  | Db_update int account_name "u8 list"
  | Db_remove int
  | Db_next int
  | Db_previous int
  | Db_find account_name name name u64
  | Db_lowerbound account_name name name u64
  | Db_upperbound account_name name name u64
  | Db_end account_name name name

fun table_exec :: "table_env \<Rightarrow> table_op \<Rightarrow> table_state \<Rightarrow> table_state result" where
  "table_exec env (Db_store scope table payer i buffer) s =
     rbind (db_store_i64 env (te_receiver env) scope table payer i buffer s) (\<lambda>r. Inr (snd r))"
| "table_exec env (Db_update it payer buffer) s = db_update_i64 env it payer buffer s"
| "table_exec env (Db_remove it) s = db_remove_i64 env it s"
| "table_exec env (Db_next it) s = rbind (db_next_i64 it s) (\<lambda>r. Inr (snd (snd r)))"
| "table_exec env (Db_previous it) s = rbind (db_previous_i64 it s) (\<lambda>r. Inr (snd (snd r)))"
| "table_exec env (Db_find code scope table i) s = Inr (snd (db_find_i64 code scope table i s))"
| "table_exec env (Db_lowerbound code scope table i) s = Inr (snd (db_lowerbound_i64 code scope table i s))"
| "table_exec env (Db_upperbound code scope table i) s = Inr (snd (db_upperbound_i64 code scope table i s))"
| "table_exec env (Db_end code scope table) s = Inr (snd (db_end_i64 code scope table s))"

section \<open>Counting rows\<close>

definition row_count :: "nat \<Rightarrow> (row_key, key_value_object) flat_map \<Rightarrow> nat" where
  "row_count i R = length (filter (\<lambda>e. fst (fst e) = i) R)"

lemma row_count_le: "row_count i R \<le> length R"
  by (simp add: row_count_def)

lemma row_count_new:
  "fm_find R k = None \<Longrightarrow> row_count i (fm_set R k v) = row_count i R + (if fst k = i then 1 else 0)"
  by (induction R k v rule: fm_set.induct) (auto simp: row_count_def fm_find_def split: if_splits)

lemma row_count_old:
  "fm_wf R \<Longrightarrow> fm_find R k \<noteq> None \<Longrightarrow> row_count i (fm_set R k v) = row_count i R \<and> length (fm_set R k v) = length R"
proof (induction R k v rule: fm_set.induct)
  case (2 k' v' m k v)
  have "k' \<le> k"
    using "2.prems" by (force simp: fm_wf_Cons fm_find_def dest: map_of_SomeD split: if_splits)
  then show ?case using 2 by (auto simp: row_count_def fm_find_def fm_wf_Cons split: if_splits)
qed (simp add: fm_find_def)

lemma row_count_erase:
  "fm_wf R \<Longrightarrow> fm_find R k \<noteq> None \<Longrightarrow> row_count i R = row_count i (fm_erase R k) + (if fst k = i then 1 else 0)"
proof (induction R)
  case (Cons e R)
  show ?case
  proof (cases "fst e = k")
    case True
    then have "fm_find R k = None" using Cons.prems(1) by (cases e) (force simp: fm_wf_Cons fm_find_None_iff)
    then have "fm_erase R k = R" by (force simp: fm_erase_def fm_find_None_iff intro: filter_True)
    then show ?thesis using True by (simp add: row_count_def fm_erase_def)
  next
    case False
    then have "fm_find R k \<noteq> None" "fm_wf R" using Cons.prems by (cases e; simp add: fm_find_def fm_wf_Cons)+
    then show ?thesis using Cons.IH False by (simp add: row_count_def fm_erase_def)
  qed
qed (simp add: fm_find_def)

lemma row_count_pos: "fm_find R k \<noteq> None \<Longrightarrow> 0 < row_count (fst k) R"
  by (force simp: row_count_def fm_find_def filter_empty_conv dest: map_of_SomeD)

lemma row_count_zero: "row_count i R = 0 \<Longrightarrow> fst k = i \<Longrightarrow> fm_find R k = None"
  using row_count_pos [of R k] by (cases "fm_find R k") auto

section \<open>The invariant of the tables\<close>

definition table_name :: "table_id_object \<Rightarrow> account_name \<times> name \<times> name" where
  "table_name t = (tid_code t, tid_scope t, tid_table t)"

text \<open>
  Every table counts its rows, every row has its table, no two tables have the same name; the tables that are
  not in \<open>X\<close> have a row.
\<close>

definition tab_inv ::
  "nat set \<Rightarrow> (nat, table_id_object) flat_map \<Rightarrow> nat \<Rightarrow> (row_key, key_value_object) flat_map \<Rightarrow> nat \<Rightarrow> bool" where
  "tab_inv X T n R m \<longleftrightarrow>
     fm_wf T \<and> fm_wf R \<and> length R \<le> m \<and>
     (\<forall>i t. fm_find T i = Some t \<longrightarrow> i < n \<and> unat (tid_count t) = row_count i R \<and> (i \<in> X \<or> 0 < row_count i R)) \<and>
     (\<forall>k. fm_find R k \<noteq> None \<longrightarrow> fm_find T (fst k) \<noteq> None) \<and>
     (\<forall>i j t u. fm_find T i = Some t \<longrightarrow> fm_find T j = Some u \<longrightarrow> table_name t = table_name u \<longrightarrow> i = j)"

lemma tab_invD:
  assumes "tab_inv X T n R m"
  shows "fm_wf T" "fm_wf R" "length R \<le> m"
    and "fm_find T i = Some t \<Longrightarrow> i < n"
    and "fm_find T i = Some t \<Longrightarrow> unat (tid_count t) = row_count i R"
    and "fm_find T i = Some t \<Longrightarrow> i \<notin> X \<Longrightarrow> 0 < row_count i R"
    and "fm_find R k \<noteq> None \<Longrightarrow> fm_find T (fst k) \<noteq> None"
    and "fm_find T i = Some t \<Longrightarrow> fm_find T j = Some u \<Longrightarrow> table_name t = table_name u \<Longrightarrow> i = j"
  using assms unfolding tab_inv_def by blast+

lemma tab_inv_create:
  assumes "tab_inv {} T n R m" "\<And>i t. fm_find T i = Some t \<Longrightarrow> table_name t \<noteq> table_name u" "tid_count u = 0"
  shows "tab_inv {n} (fm_set T n u) (n + 1) R m"
proof -
  have n: "fm_find T n = None" using assms(1) by (cases "fm_find T n") (auto simp: tab_inv_def)
  have z: "row_count n R = 0"
  proof (rule ccontr)
    assume "row_count n R \<noteq> 0"
    then obtain e where "e \<in> set R" "fst (fst e) = n" by (auto simp: row_count_def filter_empty_conv)
    then have "fm_find R (fst e) \<noteq> None" unfolding fm_find_None_iff by blast
    then show False using tab_invD(7) [OF assms(1)] n \<open>fst (fst e) = n\<close> by blast
  qed
  show ?thesis
    using assms n z unfolding tab_inv_def by (auto simp: fm_wf_set less_Suc_eq) metis+
qed

lemma tab_inv_store:
  assumes "tab_inv {i} T n R m" "fm_find T i = Some t" "fm_find R (i, p) = None" "m + 1 < 2 ^ 32"
  shows "tab_inv {} (fm_set T i (t\<lparr>tid_count := tid_count t + 1\<rparr>)) n (fm_set R (i, p) r) (m + 1)"
proof -
  have c: "unat (tid_count t) = row_count i R" "length R \<le> m" using assms(1,2) by (auto simp: tab_inv_def)
  have "unat (tid_count t + 1) = row_count i R + 1"
    using c row_count_le [of i R] assms(4) by (subst unat_plus_small) simp_all
  moreover have "length (fm_set R (i, p) r) = length R + 1"
    using assms(3) unfolding fm_find_None_iff by (rule length_fm_set_new)
  ultimately show ?thesis
    using assms unfolding tab_inv_def
    by (auto simp: fm_wf_set row_count_new table_name_def split: if_splits)
qed

lemma tab_inv_update:
  assumes "tab_inv X T n R m" "fm_find R k \<noteq> None"
  shows "tab_inv X T n (fm_set R k r) m"
proof -
  have w: "fm_wf R" using assms(1) by (simp add: tab_inv_def)
  note c = row_count_old [OF w assms(2), of _ r]
  have "fm_find (fm_set R k r) k' \<noteq> None \<longleftrightarrow> fm_find R k' \<noteq> None" for k' using assms(2) by simp
  then show ?thesis using assms(1) c fm_wf_set [OF w] unfolding tab_inv_def by simp
qed

lemma tab_inv_erase:
  assumes "tab_inv {} T n R m" "fm_find T (fst k) = Some t" "fm_find R k \<noteq> None"
  shows "tab_inv {fst k} (fm_set T (fst k) (t\<lparr>tid_count := tid_count t - 1\<rparr>)) n (fm_erase R k) m"
proof -
  have w: "fm_wf R" and c: "unat (tid_count t) = row_count (fst k) R" and l: "length R \<le> m"
    using assms(1,2) by (auto simp: tab_inv_def)
  note e = row_count_erase [OF w assms(3)]
  have "1 \<le> tid_count t" using c e [of "fst k"] by (simp add: word_le_nat_alt)
  then have "unat (tid_count t - 1) = row_count (fst k) (fm_erase R k)"
    using c e [of "fst k"] by (simp add: unat_minus_small)
  moreover have "length (fm_erase R k) \<le> m" using l by (simp add: fm_erase_def le_trans [OF length_filter_le])
  moreover have "row_count i (fm_erase R k) = row_count i R" if "i \<noteq> fst k" for i using e [of i] that by simp
  moreover have "fm_find R k' \<noteq> None \<Longrightarrow> fm_find T (fst k') \<noteq> None" for k'
    by (rule tab_invD(7) [OF assms(1)])
  ultimately show ?thesis
    using assms tab_invD(4,8) [OF assms(1)] unfolding tab_inv_def
    by (auto simp: fm_wf_set fm_wf_erase table_name_def simp del: split_paired_All split: if_splits)
qed

lemma tab_inv_drop:
  assumes "tab_inv {i} T n R m" "fm_find T i = Some t" "tid_count t = 0"
  shows "tab_inv {} (fm_erase T i) n R m"
proof -
  have "row_count i R = 0" using tab_invD(5) [OF assms(1,2)] assms(3) by simp
  then have "fm_find R k = None" if "fst k = i" for k using that by (rule row_count_zero)
  then show ?thesis using assms(1) unfolding tab_inv_def by (auto simp: fm_wf_erase split: if_splits)
qed

lemma tab_inv_keep:
  assumes "tab_inv {i} T n R m" "fm_find T i = Some t" "tid_count t \<noteq> 0"
  shows "tab_inv {} T n R m"
proof -
  have "0 < row_count i R" using tab_invD(5) [OF assms(1,2)] assms(3) by (metis gr0I unat_eq_zero)
  then show ?thesis using assms(1) unfolding tab_inv_def by auto
qed

section \<open>The invariant of the cache\<close>

text \<open>
  An iterator and the row it stands for determine each other, a row in the cache is in the database and its table
  is in the cache, and the end iterators are the positions of the cached tables.
\<close>

definition cache_inv :: "(row_key, key_value_object) flat_map \<Rightarrow> nat \<Rightarrow> iterator_cache \<Rightarrow> bool" where
  "cache_inv R n c \<longleftrightarrow>
     fm_wf (table_cache c) \<and> fm_wf (object_to_iterator c) \<and>
     (\<forall>k i. fm_find (object_to_iterator c) k = Some i \<longleftrightarrow>
        i < length (iterator_to_object c) \<and> iterator_to_object c ! i = Some k) \<and>
     (\<forall>k i. fm_find (object_to_iterator c) k = Some i \<longrightarrow>
        fm_find R k \<noteq> None \<and> fm_find (table_cache c) (fst k) \<noteq> None) \<and>
     (\<forall>t ei. fm_find (table_cache c) t = Some ei \<longleftrightarrow>
        (\<exists>i < length (end_iterator_to_table c). end_iterator_to_table c ! i = t \<and> ei = index_to_end_iterator i)) \<and>
     (\<forall>t ei. fm_find (table_cache c) t = Some ei \<longrightarrow> t < n)"

lemma cache_invD:
  assumes "cache_inv R n c"
  shows "fm_wf (table_cache c)" "fm_wf (object_to_iterator c)"
    and "fm_find (object_to_iterator c) k = Some i \<longleftrightarrow>
      i < length (iterator_to_object c) \<and> iterator_to_object c ! i = Some k"
    and "fm_find (object_to_iterator c) k = Some i \<Longrightarrow> fm_find R k \<noteq> None \<and> fm_find (table_cache c) (fst k) \<noteq> None"
    and "fm_find (table_cache c) t = Some ei \<longleftrightarrow>
      (\<exists>i < length (end_iterator_to_table c). end_iterator_to_table c ! i = t \<and> ei = index_to_end_iterator i)"
    and "fm_find (table_cache c) t = Some ei \<Longrightarrow> t < n"
  using assms unfolding cache_inv_def by blast+

lemma cache_invI:
  assumes "fm_wf (table_cache c)" "fm_wf (object_to_iterator c)"
    and "\<And>k i. fm_find (object_to_iterator c) k = Some i \<longleftrightarrow>
      i < length (iterator_to_object c) \<and> iterator_to_object c ! i = Some k"
    and "\<And>k i. fm_find (object_to_iterator c) k = Some i \<Longrightarrow>
      fm_find R k \<noteq> None \<and> fm_find (table_cache c) (fst k) \<noteq> None"
    and "\<And>t ei. fm_find (table_cache c) t = Some ei \<longleftrightarrow>
      (\<exists>i < length (end_iterator_to_table c). end_iterator_to_table c ! i = t \<and> ei = index_to_end_iterator i)"
    and "\<And>t ei. fm_find (table_cache c) t = Some ei \<Longrightarrow> t < n"
  shows "cache_inv R n c"
  using assms unfolding cache_inv_def by blast

lemma cache_inv_mono:
  assumes "cache_inv R n c" "\<And>k. fm_find R k \<noteq> None \<Longrightarrow> fm_find R' k \<noteq> None" "n \<le> n'"
  shows "cache_inv R' n' c"
proof -
  have "\<forall>t ei. fm_find (table_cache c) t = Some ei \<longrightarrow> t < n'"
    using assms(1,3) unfolding cache_inv_def by (meson less_le_trans)
  moreover have "\<forall>k i. fm_find (object_to_iterator c) k = Some i \<longrightarrow>
      fm_find R' k \<noteq> None \<and> fm_find (table_cache c) (fst k) \<noteq> None"
    using assms(1,2) unfolding cache_inv_def by blast
  ultimately show ?thesis using assms(1) unfolding cache_inv_def by blast
qed

lemma cache_table_inv:
  assumes "cache_inv R n c" "t < n" "cache_table t c = (ei, c')"
  shows "cache_inv R n c'" "fm_find (table_cache c') t = Some ei"
    and "fm_find (table_cache c) u \<noteq> None \<Longrightarrow> fm_find (table_cache c') u \<noteq> None"
proof -
  have "cache_inv R n c' \<and> fm_find (table_cache c') t = Some ei \<and>
    (fm_find (table_cache c) u \<noteq> None \<longrightarrow> fm_find (table_cache c') u \<noteq> None)"
  proof (cases "fm_find (table_cache c) t")
    case (Some e)
    then show ?thesis using assms by (simp add: cache_table_def)
  next
    case None
    let ?l = "length (end_iterator_to_table c)"
    have c': "c' = c\<lparr>end_iterator_to_table := end_iterator_to_table c @ [t],
        table_cache := fm_set (table_cache c) t ei\<rparr>" and ei: "ei = index_to_end_iterator ?l"
      using assms(3) None by (auto simp: cache_table_def Let_def)
    have new: "(\<exists>i < ?l. end_iterator_to_table c ! i = t \<and> e = index_to_end_iterator i) = False" for e
      using assms(1) None unfolding cache_inv_def by (metis option.distinct(1))
    have ends: "fm_find (table_cache c') u = Some e \<longleftrightarrow>
        (\<exists>i < Suc ?l. (end_iterator_to_table c @ [t]) ! i = u \<and> e = index_to_end_iterator i)" for u e
    proof -
      have old: "fm_find (table_cache c) u = Some e \<longleftrightarrow>
          (\<exists>i < ?l. end_iterator_to_table c ! i = u \<and> e = index_to_end_iterator i)"
        using assms(1) unfolding cache_inv_def by blast
      show ?thesis
      proof (cases "u = t")
        case True
        then show ?thesis using new [of e] by (auto simp: c' ei less_Suc_eq nth_append)
      next
        case False
        then show ?thesis using old by (auto simp: c' less_Suc_eq nth_append)
      qed
    qed
    note D = cache_invD [OF assms(1)]
    have "cache_inv R n c'"
    proof (rule cache_invI)
      show "fm_wf (table_cache c')" "fm_wf (object_to_iterator c')" using D(1,2) by (simp_all add: c' fm_wf_set)
      show "fm_find (object_to_iterator c') k = Some i \<longleftrightarrow>
          i < length (iterator_to_object c') \<and> iterator_to_object c' ! i = Some k" for k i
        using D(3) [of k i] by (simp add: c')
      show "fm_find (object_to_iterator c') k = Some i \<Longrightarrow>
          fm_find R k \<noteq> None \<and> fm_find (table_cache c') (fst k) \<noteq> None" for k i
        using D(4) [of k i] by (simp add: c')
      show "fm_find (table_cache c') u = Some e \<longleftrightarrow> (\<exists>i < length (end_iterator_to_table c').
          end_iterator_to_table c' ! i = u \<and> e = index_to_end_iterator i)" for u e
        using ends [of u e] by (simp add: c')
      show "fm_find (table_cache c') u = Some e \<Longrightarrow> u < n" for u e
        using D(6) [of u e] assms(2) by (simp add: c' split: if_splits)
    qed
    then show ?thesis by (simp add: c')
  qed
  then show "cache_inv R n c'" "fm_find (table_cache c') t = Some ei"
    and "fm_find (table_cache c) u \<noteq> None \<Longrightarrow> fm_find (table_cache c') u \<noteq> None" by blast+
qed

lemma cache_add_inv:
  assumes "cache_inv R n c" "fm_find R k \<noteq> None" "fm_find (table_cache c) (fst k) \<noteq> None"
    and "cache_add k c = (it, c')"
  shows "cache_inv R n c'" "cache_get c' it = Inr k"
proof -
  let ?l = "length (iterator_to_object c)"
  have bij: "fm_find (object_to_iterator c) k' = Some i \<longleftrightarrow> i < ?l \<and> iterator_to_object c ! i = Some k'" for k' i
    using assms(1) unfolding cache_inv_def by blast
  have "cache_inv R n c' \<and> cache_get c' it = Inr k"
  proof (cases "fm_find (object_to_iterator c) k")
    case (Some i)
    then have "it = int i" "c' = c" using assms(4) by (simp_all add: cache_add_def)
    then show ?thesis using assms(1) bij [of k i] Some by (simp add: cache_get_def)
  next
    case None
    have c': "c' = c\<lparr>iterator_to_object := iterator_to_object c @ [Some k],
        object_to_iterator := fm_set (object_to_iterator c) k ?l\<rparr>" and it: "it = int ?l"
      using assms(4) None by (simp_all add: cache_add_def)
    have new: "\<not> (i < ?l \<and> iterator_to_object c ! i = Some k)" for i using bij [of k i] None by simp
    have "fm_find (object_to_iterator c') k' = Some i \<longleftrightarrow>
        i < Suc ?l \<and> (iterator_to_object c @ [Some k]) ! i = Some k'" for k' i
      using bij [of k' i] new [of i] by (auto simp: c' less_Suc_eq nth_append)
    note bij' = this and D = cache_invD [OF assms(1)]
    have "cache_inv R n c'"
    proof (rule cache_invI)
      show "fm_wf (table_cache c')" "fm_wf (object_to_iterator c')" using D(1,2) by (simp_all add: c' fm_wf_set)
      show "fm_find (object_to_iterator c') k = Some i \<longleftrightarrow>
          i < length (iterator_to_object c') \<and> iterator_to_object c' ! i = Some k" for k i
        using bij' [of k i] by (simp add: c')
      show "fm_find (object_to_iterator c') k' = Some i \<Longrightarrow>
          fm_find R k' \<noteq> None \<and> fm_find (table_cache c') (fst k') \<noteq> None" for k' i
        using D(4) [of k' i] assms(2,3) by (cases "k' = k") (simp_all add: c')
      show "fm_find (table_cache c') u = Some e \<longleftrightarrow> (\<exists>i < length (end_iterator_to_table c').
          end_iterator_to_table c' ! i = u \<and> e = index_to_end_iterator i)" for u e
        using D(5) [of u e] by (simp add: c')
      show "fm_find (table_cache c') u = Some e \<Longrightarrow> u < n" for u e
        using D(6) [of u e] by (simp add: c')
    qed
    then show ?thesis by (simp add: c' it cache_get_def)
  qed
  then show "cache_inv R n c'" "cache_get c' it = Inr k" by blast+
qed

lemma cache_get_Inr:
  "cache_get c it = Inr k \<longleftrightarrow>
     0 \<le> it \<and> nat it < length (iterator_to_object c) \<and> iterator_to_object c ! nat it = Some k"
  by (auto simp: cache_get_def result_simps split: option.splits)

lemma cache_get_live:
  assumes "cache_inv R n c" "cache_get c it = Inr k"
  shows "fm_find R k \<noteq> None" "fm_find (table_cache c) (fst k) \<noteq> None"
proof -
  have "fm_find (object_to_iterator c) k = Some (nat it)"
    using assms unfolding cache_get_Inr cache_inv_def by blast
  then show "fm_find R k \<noteq> None" "fm_find (table_cache c) (fst k) \<noteq> None"
    using assms(1) unfolding cache_inv_def by blast+
qed

lemma cache_remove_inv:
  assumes "cache_inv R n c" "cache_get c it = Inr k" "cache_remove it c = Inr c'"
  shows "cache_inv (fm_erase R k) n c'"
proof -
  have g: "0 \<le> it" "nat it < length (iterator_to_object c)" "iterator_to_object c ! nat it = Some k"
    using assms(2) by (simp_all add: cache_get_Inr)
  have c': "c' = c\<lparr>iterator_to_object := (iterator_to_object c)[nat it := None],
      object_to_iterator := fm_erase (object_to_iterator c) k\<rparr>"
    using assms(3) g by (simp add: cache_remove_def result_simps)
  have bij: "fm_find (object_to_iterator c) k' = Some i \<longleftrightarrow>
      i < length (iterator_to_object c) \<and> iterator_to_object c ! i = Some k'" for k' i
    using assms(1) unfolding cache_inv_def by blast
  have "fm_find (object_to_iterator c') k' = Some i \<longleftrightarrow>
      i < length (iterator_to_object c) \<and> (iterator_to_object c)[nat it := None] ! i = Some k'" for k' i
  proof (cases "i = nat it")
    case True
    then show ?thesis using bij [of k' i] g by (auto simp: c')
  next
    case False
    have "fm_find (object_to_iterator c) k \<noteq> Some i" using False bij [of k "nat it"] g by simp
    then show ?thesis using False bij [of k' i] by (auto simp: c')
  qed
  note bij' = this and D = cache_invD [OF assms(1)]
  show ?thesis
  proof (rule cache_invI)
    show "fm_wf (table_cache c')" "fm_wf (object_to_iterator c')" using D(1,2) by (simp_all add: c' fm_wf_erase)
    show "fm_find (object_to_iterator c') k' = Some i \<longleftrightarrow>
        i < length (iterator_to_object c') \<and> iterator_to_object c' ! i = Some k'" for k' i
      using bij' [of k' i] by (simp add: c')
    show "fm_find (object_to_iterator c') k' = Some i \<Longrightarrow>
        fm_find (fm_erase R k) k' \<noteq> None \<and> fm_find (table_cache c') (fst k') \<noteq> None" for k' i
      using D(4) [of k' i] by (simp add: c' split: if_splits)
    show "fm_find (table_cache c') u = Some e \<longleftrightarrow> (\<exists>i < length (end_iterator_to_table c').
        end_iterator_to_table c' ! i = u \<and> e = index_to_end_iterator i)" for u e
      using D(5) [of u e] by (simp add: c')
    show "fm_find (table_cache c') u = Some e \<Longrightarrow> u < n" for u e
      using D(6) [of u e] by (simp add: c')
  qed
qed

section \<open>What the operations do\<close>

lemma update_db_usage_Inr:
  assumes "update_db_usage env p d s = Inr t"
  obtains a where "t = s\<lparr>ts_apply := a\<rparr>"
    and "\<forall>b. billed (db_limits a) b = billed (db_limits (ts_apply s)) b + (if b = p then d else 0)"
proof -
  obtain a where a: "add_ram_usage p d (ts_apply s) = Inr a" "t = s\<lparr>ts_apply := a\<rparr>"
    using assms by (auto simp: update_db_usage_def result_simps)
  show ?thesis by (rule that [OF a(2)]) (use billed_add [OF add_ram_usage_frame(7) [OF a(1)]] in blast)
qed

lemma find_table_Some:
  assumes "find_table code scope table s = Some i" "fm_wf (ts_tables s)"
  shows "\<exists>t. fm_find (ts_tables s) i = Some t \<and> table_name t = (code, scope, table)"
proof -
  obtain e where "find (\<lambda>e. tid_code (snd e) = code \<and> tid_scope (snd e) = scope \<and> tid_table (snd e) = table)
      (ts_tables s) = Some e" and i: "i = fst e"
    using assms(1) by (auto simp: find_table_def)
  then have e: "e \<in> set (ts_tables s)" "table_name (snd e) = (code, scope, table)"
    by (auto simp: find_Some_iff table_name_def)
  have "fm_find (ts_tables s) i = Some (snd e)" using e(1) by (simp add: fm_find_Some_iff [OF assms(2)] i)
  then show ?thesis using e(2) by blast
qed

lemma find_table_None:
  "find_table code scope table s = None \<Longrightarrow> fm_find (ts_tables s) i = Some t \<Longrightarrow> table_name t \<noteq> (code, scope, table)"
  unfolding find_table_def by (auto simp: find_None_iff table_name_def dest!: fm_find_SomeD)

text \<open>A table that is found or created: the state that the rest of \<^verbatim>\<open>db_store_i64\<close> starts from.\<close>

lemma find_or_create_cases:
  assumes "find_or_create_table env code scope table payer s = Inr (i, t)"
  obtains (found) "find_table code scope table s = Some i" "t = s"
  | (created) a u where "find_table code scope table s = None" "i = ts_next_table s"
      "u = \<lparr>tid_code = code, tid_scope = scope, tid_table = table, tid_payer = payer, tid_count = 0\<rparr>"
      "t = s\<lparr>ts_apply := a, ts_tables := fm_set (ts_tables s) i u, ts_next_table := ts_next_table s + 1\<rparr>"
      "\<forall>b. billed (db_limits a) b = billed (db_limits (ts_apply s)) b + (if b = payer then table_id_object_size else 0)"
proof (cases "find_table code scope table s")
  case (Some j)
  then show ?thesis using assms by (intro found) (simp_all add: find_or_create_table_def)
next
  case None
  obtain s1 where u: "update_db_usage env payer table_id_object_size s = Inr s1"
    and t: "i = ts_next_table s1" "t = s1\<lparr>ts_tables := fm_set (ts_tables s1) (ts_next_table s1)
        \<lparr>tid_code = code, tid_scope = scope, tid_table = table, tid_payer = payer, tid_count = 0\<rparr>,
      ts_next_table := ts_next_table s1 + 1\<rparr>"
    using assms None by (auto simp: find_or_create_table_def result_simps)
  obtain a where a: "s1 = s\<lparr>ts_apply := a\<rparr>"
    "\<forall>b. billed (db_limits a) b = billed (db_limits (ts_apply s)) b + (if b = payer then table_id_object_size else 0)"
    by (rule update_db_usage_Inr [OF u])
  show ?thesis by (rule created [OF None _ refl _ a(2)]) (simp_all add: t a(1))
qed

lemma db_store_cases:
  assumes "db_store_i64 env code scope table payer i buffer s = Inr (it, t)"
  obtains tid s1 tab a ei c1 c2 r where "find_or_create_table env code scope table payer s = Inr (tid, s1)"
    and "fm_find (ts_rows s1) (tid, i) = None" "fm_find (ts_tables s1) tid = Some tab"
    and "r = \<lparr>kv_id = ts_next_row s1, kv_payer = payer, kv_value = buffer\<rparr>"
    and "cache_table tid (ts_cache s1) = (ei, c1)" "cache_add (tid, i) c1 = (it, c2)"
    and "\<forall>b. billed (db_limits a) b = billed (db_limits (ts_apply s1)) b + (if b = payer then row_size buffer else 0)"
    and "t = s1\<lparr>ts_rows := fm_set (ts_rows s1) (tid, i) r, ts_next_row := ts_next_row s1 + 1,
      ts_tables := fm_set (ts_tables s1) tid (tab\<lparr>tid_count := tid_count tab + 1\<rparr>), ts_apply := a, ts_cache := c2\<rparr>"
proof -
  obtain tid s1 tab s2 where f: "find_or_create_table env code scope table payer s = Inr (tid, s1)"
    and r: "fm_find (ts_rows s1) (tid, i) = None" and tab: "fm_find (ts_tables s1) tid = Some tab"
    and u: "update_db_usage env payer (row_size buffer)
        (s1\<lparr>ts_rows := fm_set (ts_rows s1) (tid, i) \<lparr>kv_id = ts_next_row s1, kv_payer = payer, kv_value = buffer\<rparr>,
          ts_next_row := ts_next_row s1 + 1,
          ts_tables := fm_set (ts_tables s1) tid (tab\<lparr>tid_count := tid_count tab + 1\<rparr>)\<rparr>) = Inr s2"
    and t: "(case cache_table tid (ts_cache s2) of (ei, c1) \<Rightarrow>
        case cache_add (tid, i) c1 of (it, c2) \<Rightarrow> Inr (it, s2\<lparr>ts_cache := c2\<rparr>)) =
      (Inr (it, t) :: (int \<times> table_state) result)"
    using assms by (auto simp: db_store_i64_def result_simps table_at_def Let_def split: option.splits)
  obtain ei c1 where c1: "cache_table tid (ts_cache s2) = (ei, c1)" by fastforce
  obtain it' c2 where c2: "cache_add (tid, i) c1 = (it', c2)" by fastforce
  obtain a where a: "s2 = s1\<lparr>ts_rows := fm_set (ts_rows s1) (tid, i)
        \<lparr>kv_id = ts_next_row s1, kv_payer = payer, kv_value = buffer\<rparr>, ts_next_row := ts_next_row s1 + 1,
      ts_tables := fm_set (ts_tables s1) tid (tab\<lparr>tid_count := tid_count tab + 1\<rparr>), ts_apply := a\<rparr>"
    "\<forall>b. billed (db_limits a) b = billed (db_limits (ts_apply s1)) b + (if b = payer then row_size buffer else 0)"
    by (rule update_db_usage_Inr [OF u]) simp
  show ?thesis
    by (rule that [OF f r tab refl _ _ a(2)]) (use t c1 c2 a(1) in auto)
qed

lemma db_update_cases:
  assumes "db_update_i64 env it payer0 buffer s = Inr t"
  obtains k obj a payer where "cache_get (ts_cache s) it = Inr k" "fm_find (ts_rows s) k = Some obj"
    and "\<forall>b. billed (db_limits a) b = billed (db_limits (ts_apply s)) b
      - (if b = kv_payer obj then row_size (kv_value obj) else 0) + (if b = payer then row_size buffer else 0)"
    and "t = s\<lparr>ts_apply := a, ts_rows := fm_set (ts_rows s) k (obj\<lparr>kv_value := buffer, kv_payer := payer\<rparr>)\<rparr>"
proof -
  define pay where "pay obj = (if payer0 = 0 then kv_payer obj else payer0)" for obj :: key_value_object
  obtain k obj s1 where k: "cache_get (ts_cache s) it = Inr k" and o: "fm_find (ts_rows s) k = Some obj"
    and s1: "(if kv_payer obj \<noteq> pay obj
        then rbind (update_db_usage env (kv_payer obj) (- row_size (kv_value obj)) s)
          (update_db_usage env (pay obj) (row_size buffer))
        else if row_size (kv_value obj) \<noteq> row_size buffer
        then update_db_usage env (kv_payer obj) (row_size buffer - row_size (kv_value obj)) s else Inr s) = Inr s1"
    and t: "t = s1\<lparr>ts_rows := fm_set (ts_rows s1) k (obj\<lparr>kv_value := buffer, kv_payer := pay obj\<rparr>)\<rparr>"
    using assms unfolding db_update_i64_def rbind_eq_Inr eos_assert_Inr Let_def row_at_def pay_def
    by (auto split: option.splits)
  have "\<exists>a. s1 = s\<lparr>ts_apply := a\<rparr> \<and> (\<forall>b. billed (db_limits a) b = billed (db_limits (ts_apply s)) b
      - (if b = kv_payer obj then row_size (kv_value obj) else 0) + (if b = pay obj then row_size buffer else 0))"
  proof (cases "kv_payer obj \<noteq> pay obj")
    case True
    then obtain s2 where u: "update_db_usage env (kv_payer obj) (- row_size (kv_value obj)) s = Inr s2"
        "update_db_usage env (pay obj) (row_size buffer) s2 = Inr s1"
      using s1 by (auto simp: result_simps)
    show ?thesis
      by (rule update_db_usage_Inr [OF u(1)], rule update_db_usage_Inr [OF u(2)]) (use True in auto)
  next
    case False
    note same = False
    show ?thesis
    proof (cases "row_size (kv_value obj) = row_size buffer")
      case True
      then show ?thesis using s1 same by (intro exI [of _ "ts_apply s"]) auto
    next
      case False
      then have "update_db_usage env (kv_payer obj) (row_size buffer - row_size (kv_value obj)) s = Inr s1"
        using s1 same by simp
      then show ?thesis by (rule update_db_usage_Inr) (use same in auto)
    qed
  qed
  then obtain a where "s1 = s\<lparr>ts_apply := a\<rparr>" "\<forall>b. billed (db_limits a) b = billed (db_limits (ts_apply s)) b
      - (if b = kv_payer obj then row_size (kv_value obj) else 0) + (if b = pay obj then row_size buffer else 0)"
    by blast
  then show ?thesis by (intro that [OF k o, of a "pay obj"]) (simp_all add: t)
qed

lemma db_remove_cases:
  assumes "db_remove_i64 env it s = Inr t"
  obtains k obj tab a c T where "cache_get (ts_cache s) it = Inr k" "fm_find (ts_rows s) k = Some obj"
    and "fm_find (ts_tables s) (fst k) = Some tab" "cache_remove it (ts_cache s) = Inr c"
    and "\<forall>b. billed (db_limits a) b = billed (db_limits (ts_apply s)) b
      - (if b = kv_payer obj then row_size (kv_value obj) else 0)
      - (if tid_count tab - 1 = 0 \<and> b = tid_payer tab then table_id_object_size else 0)"
    and "T = fm_set (ts_tables s) (fst k) (tab\<lparr>tid_count := tid_count tab - 1\<rparr>)"
    and "t = s\<lparr>ts_apply := a, ts_rows := fm_erase (ts_rows s) k, ts_cache := c,
      ts_tables := (if tid_count tab - 1 = 0 then fm_erase T (fst k) else T)\<rparr>"
proof -
  obtain k obj tab s1 s3 c where k: "cache_get (ts_cache s) it = Inr k" and o: "fm_find (ts_rows s) k = Some obj"
    and tab: "fm_find (ts_tables s) (fst k) = Some tab"
    and u: "update_db_usage env (kv_payer obj) (- row_size (kv_value obj)) s = Inr s1"
    and s3: "(if tid_count tab - 1 = 0
        then remove_table env (fst k) (tab\<lparr>tid_count := tid_count tab - 1\<rparr>)
          (s1\<lparr>ts_tables := fm_set (ts_tables s1) (fst k) (tab\<lparr>tid_count := tid_count tab - 1\<rparr>),
            ts_rows := fm_erase (ts_rows s1) k\<rparr>)
        else Inr (s1\<lparr>ts_tables := fm_set (ts_tables s1) (fst k) (tab\<lparr>tid_count := tid_count tab - 1\<rparr>),
            ts_rows := fm_erase (ts_rows s1) k\<rparr>)) = Inr s3"
    and c: "cache_remove it (ts_cache s3) = Inr c" and t: "t = s3\<lparr>ts_cache := c\<rparr>"
    using assms unfolding db_remove_i64_def rbind_eq_Inr eos_assert_Inr Let_def row_at_def table_at_def cache_get_table_def
    by (auto split: option.splits)
  obtain a1 where a1: "s1 = s\<lparr>ts_apply := a1\<rparr>" "\<forall>b. billed (db_limits a1) b = billed (db_limits (ts_apply s)) b
      + (if b = kv_payer obj then - row_size (kv_value obj) else 0)"
    by (rule update_db_usage_Inr [OF u])
  define T where "T = fm_set (ts_tables s) (fst k) (tab\<lparr>tid_count := tid_count tab - 1\<rparr>)"
  have "\<exists>a. s3 = s\<lparr>ts_apply := a, ts_rows := fm_erase (ts_rows s) k,
        ts_tables := (if tid_count tab - 1 = 0 then fm_erase T (fst k) else T)\<rparr> \<and>
      (\<forall>b. billed (db_limits a) b = billed (db_limits a1) b
        - (if tid_count tab - 1 = 0 \<and> b = tid_payer tab then table_id_object_size else 0))"
  proof (cases "tid_count tab - 1 = 0")
    case True
    then obtain s2 where s2: "update_db_usage env (tid_payer tab) (- table_id_object_size)
        (s1\<lparr>ts_tables := T, ts_rows := fm_erase (ts_rows s1) k\<rparr>) = Inr s2"
      "s3 = s2\<lparr>ts_tables := fm_erase (ts_tables s2) (fst k)\<rparr>"
      using s3 by (auto simp: remove_table_def result_simps T_def a1(1))
    obtain a where "s2 = s1\<lparr>ts_tables := T, ts_rows := fm_erase (ts_rows s1) k, ts_apply := a\<rparr>"
      "\<forall>b. billed (db_limits a) b = billed (db_limits a1) b + (if b = tid_payer tab then - table_id_object_size else 0)"
      by (rule update_db_usage_Inr [OF s2(1)]) (simp add: a1(1))
    then show ?thesis using True s2(2) by (intro exI [of _ a]) (simp add: a1(1))
  next
    case False
    then show ?thesis using s3 by (intro exI [of _ a1]) (auto simp: a1(1) T_def)
  qed
  then obtain a where a: "s3 = s\<lparr>ts_apply := a, ts_rows := fm_erase (ts_rows s) k,
        ts_tables := (if tid_count tab - 1 = 0 then fm_erase T (fst k) else T)\<rparr>"
      "\<forall>b. billed (db_limits a) b = billed (db_limits a1) b
        - (if tid_count tab - 1 = 0 \<and> b = tid_payer tab then table_id_object_size else 0)"
    by blast
  show ?thesis
    by (rule that [OF k o tab _ _ T_def, of c a]) (use c a a1(2) in \<open>simp_all add: t\<close>)
qed

text \<open>The lookups change the cache only.\<close>

definition ts_inv :: "table_state \<Rightarrow> bool" where
  "ts_inv s \<longleftrightarrow> tab_inv {} (ts_tables s) (ts_next_table s) (ts_rows s) (ts_next_row s) \<and>
     cache_inv (ts_rows s) (ts_next_table s) (ts_cache s)"

definition cache_step :: "table_state \<Rightarrow> table_state \<Rightarrow> bool" where
  "cache_step s t \<longleftrightarrow> (\<exists>c. t = s\<lparr>ts_cache := c\<rparr> \<and> (ts_inv s \<longrightarrow> cache_inv (ts_rows s) (ts_next_table s) c))"

lemma cache_step_refl: "cache_step s s"
  unfolding cache_step_def by (rule exI [of _ "ts_cache s"]) (simp add: ts_inv_def)

lemma row_in: "k \<in> set (map fst (ts_rows s)) \<Longrightarrow> fm_find (ts_rows s) k \<noteq> None"
  by (simp add: fm_find_None_iff)

lemma add_found_step:
  assumes "k \<in> set (map fst (ts_rows s))" "ts_inv s \<Longrightarrow> fm_find (table_cache (ts_cache s)) (fst k) \<noteq> None"
  shows "cache_step s (snd (snd (add_found k s)))"
proof -
  obtain it c where c: "cache_add k (ts_cache s) = (it, c)" by fastforce
  have "ts_inv s \<longrightarrow> cache_inv (ts_rows s) (ts_next_table s) c"
    using cache_add_inv(1) [OF _ row_in [OF assms(1)] assms(2) c] by (simp add: ts_inv_def)
  then show ?thesis unfolding cache_step_def add_found_def by (intro exI [of _ c]) (simp add: c)
qed

lemma find_row: "find P (ts_rows s) = Some e \<Longrightarrow> fst e \<in> set (map fst (ts_rows s))"
  by (auto simp: find_Some_iff)

lemma find_key: "find P (map fst (ts_rows s)) = Some k \<Longrightarrow> k \<in> set (map fst (ts_rows s))"
  by (metis find_Some_iff nth_mem)

lemma last_before_row: "last_before P s = Some k \<Longrightarrow> k \<in> set (map fst (ts_rows s))"
proof -
  assume l: "last_before P s = Some k"
  define ks where "ks = filter P (map fst (ts_rows s))"
  have "k \<in> set ks" using l unfolding last_before_def ks_def [symmetric] by (cases ks) auto
  then show ?thesis unfolding ks_def by (metis filter_is_subset subsetD)
qed

lemma cached_live: "ts_inv s \<Longrightarrow> cache_get (ts_cache s) it = Inr k \<Longrightarrow> fm_find (table_cache (ts_cache s)) (fst k) \<noteq> None"
  using cache_get_live(2) [of "ts_rows s" "ts_next_table s" "ts_cache s" it k] by (simp add: ts_inv_def)

lemma db_next_step:
  assumes "db_next_i64 it s = Inr (r, q, t)"
  shows "cache_step s t"
proof (cases "it < -1")
  case True
  then show ?thesis using assms cache_step_refl by (simp add: db_next_i64_def)
next
  case False
  then obtain k where k: "cache_get (ts_cache s) it = Inr k" using assms by (auto simp: db_next_i64_def result_simps)
  show ?thesis
  proof (cases "find (\<lambda>e. k < fst e) (ts_rows s)")
    case None
    then have "t = s" using assms False k by (auto simp: db_next_i64_def result_simps)
    then show ?thesis by (simp add: cache_step_refl)
  next
    case (Some e)
    show ?thesis
    proof (cases "fst (fst e) = fst k")
      case True
      then have "t = snd (snd (add_found (fst e) s))" using assms False k Some by (auto simp: db_next_i64_def)
      then show ?thesis using add_found_step [OF find_row [OF Some]] cached_live [OF _ k] True by simp
    next
      case neq: False
      then have "t = s" using assms False k Some by (auto simp: db_next_i64_def result_simps)
      then show ?thesis by (simp add: cache_step_refl)
    qed
  qed
qed

lemma cached_table:
  assumes "ts_inv s" "find_table_by_end_iterator (ts_cache s) it = Inr (Some i)"
  shows "fm_find (table_cache (ts_cache s)) i \<noteq> None"
proof -
  have "\<exists>j < length (end_iterator_to_table (ts_cache s)). end_iterator_to_table (ts_cache s) ! j = i"
    using assms(2) by (auto simp: find_table_by_end_iterator_def result_simps Let_def not_le split: if_splits)
  then show ?thesis
    using cache_invD(5) [of "ts_rows s" "ts_next_table s" "ts_cache s" i] assms(1) by (auto simp: ts_inv_def)
qed

lemma previous_step:
  assumes "k' = None \<Longrightarrow> t = s"
    and "\<And>k. k' = Some k \<Longrightarrow> t = (if fst k \<noteq> i then s else snd (snd (add_found k s)))"
    and "last_before P s = k'" "ts_inv s \<Longrightarrow> fm_find (table_cache (ts_cache s)) i \<noteq> None"
  shows "cache_step s t"
proof (cases k')
  case None
  then show ?thesis using assms(1) by (simp add: cache_step_refl)
next
  case (Some k)
  show ?thesis
  proof (cases "fst k = i")
    case True
    have "cache_step s (snd (snd (add_found k s)))"
      by (rule add_found_step) (use last_before_row [of P s k] assms(3,4) Some True in auto)
    then show ?thesis using assms(2) [OF Some] True by simp
  next
    case False
    then show ?thesis using assms(2) [OF Some] by (simp add: cache_step_refl)
  qed
qed

lemma db_previous_step:
  assumes "db_previous_i64 it s = Inr (r, q, t)"
  shows "cache_step s t"
proof (cases "it < -1")
  case True
  then obtain i where i: "find_table_by_end_iterator (ts_cache s) it = Inr (Some i)"
    and t: "(case last_before (\<lambda>k. fst k \<le> i) s of None \<Rightarrow> Inr (-1, None, s)
      | Some k \<Rightarrow> if fst k \<noteq> i then Inr (-1, None, s) else Inr (add_found k s)) =
      (Inr (r, q, t) :: (int \<times> u64 option \<times> table_state) result)"
    using assms by (auto simp: db_previous_i64_def result_simps split: option.splits)
  show ?thesis
    by (rule previous_step [of "last_before (\<lambda>k. fst k \<le> i) s" t s i, OF _ _ refl cached_table [OF _ i]])
      (use t in \<open>auto split: if_splits\<close>)
next
  case False
  then obtain k where k: "cache_get (ts_cache s) it = Inr k"
    and t: "(case last_before (\<lambda>k'. k' < k) s of None \<Rightarrow> Inr (-1, None, s)
      | Some k' \<Rightarrow> if fst k' \<noteq> fst k then Inr (-1, None, s) else Inr (add_found k' s)) =
      (Inr (r, q, t) :: (int \<times> u64 option \<times> table_state) result)"
    using assms by (auto simp: db_previous_i64_def result_simps)
  show ?thesis
    by (rule previous_step [of "last_before (\<lambda>k'. k' < k) s" t s "fst k", OF _ _ refl cached_live [OF _ k]])
      (use t in \<open>auto split: if_splits\<close>)
qed

lemma table_below: "ts_inv s \<Longrightarrow> find_table code scope table s = Some i \<Longrightarrow> i < ts_next_table s"
  using find_table_Some tab_invD(1,4) by (fastforce simp: ts_inv_def)

lemma search_table_step: "cache_step s (snd (search_table code scope table P s))"
proof (cases "find_table code scope table s")
  case None
  then show ?thesis by (simp add: search_table_def cache_step_refl)
next
  case (Some i)
  obtain ei c where c: "cache_table i (ts_cache s) = (ei, c)" by fastforce
  have inv: "cache_inv (ts_rows s) (ts_next_table s) c" "fm_find (table_cache c) i \<noteq> None" if "ts_inv s"
    using cache_table_inv(1,2) [OF _ table_below [OF that Some] c] that by (auto simp: ts_inv_def)
  show ?thesis
  proof (cases "\<exists>k. find (P i) (map fst (ts_rows s)) = Some k \<and> fst k = i")
    case True
    then obtain k where k: "find (P i) (map fst (ts_rows s)) = Some k" "fst k = i" by blast
    obtain it c' where c': "cache_add k c = (it, c')" by fastforce
    have "ts_inv s \<longrightarrow> cache_inv (ts_rows s) (ts_next_table s) c'"
      using cache_add_inv(1) [OF inv(1) row_in [OF find_key [OF k(1)]] _ c'] inv(2) k(2) by blast
    then show ?thesis
      unfolding cache_step_def by (intro exI [of _ c']) (simp add: search_table_def Some c k c')
  next
    case False
    then show ?thesis
      unfolding cache_step_def using inv(1)
      by (intro exI [of _ c]) (auto simp: search_table_def Some c split: option.split)
  qed
qed

lemma db_end_step: "cache_step s (snd (db_end_i64 code scope table s))"
proof (cases "find_table code scope table s")
  case None
  then show ?thesis by (simp add: db_end_i64_def cache_step_refl)
next
  case (Some i)
  obtain ei c where c: "cache_table i (ts_cache s) = (ei, c)" by fastforce
  show ?thesis
    unfolding cache_step_def
    by (rule exI [of _ c])
      (use cache_table_inv(1) [OF _ table_below [OF _ Some] c] in \<open>auto simp: db_end_i64_def Some c ts_inv_def\<close>)
qed

section \<open>The operations keep the invariant\<close>

lemma lookup_step:
  assumes "table_exec env a s = Inr t" "\<nexists>sc tb p i b. a = Db_store sc tb p i b" "\<nexists>it p b. a = Db_update it p b"
    "\<nexists>it. a = Db_remove it"
  shows "cache_step s t"
proof (cases a)
  case (Db_next it)
  then show ?thesis using assms(1) db_next_step by (auto simp: result_simps)
next
  case (Db_previous it)
  then show ?thesis using assms(1) db_previous_step by (auto simp: result_simps)
qed (use assms search_table_step db_end_step in
    \<open>auto simp: db_find_i64_def db_lowerbound_i64_def db_upperbound_i64_def\<close>)

lemma tab_inv_weaken: "tab_inv {} T n R m \<Longrightarrow> tab_inv X T n R m"
  unfolding tab_inv_def by simp

lemma find_or_create_inv:
  assumes "ts_inv s" "find_or_create_table env code scope table payer s = Inr (i, t)"
  shows "tab_inv {i} (ts_tables t) (ts_next_table t) (ts_rows t) (ts_next_row t)"
    and "cache_inv (ts_rows t) (ts_next_table t) (ts_cache t)" "ts_next_row t = ts_next_row s"
proof -
  have s: "tab_inv {} (ts_tables s) (ts_next_table s) (ts_rows s) (ts_next_row s)"
    "cache_inv (ts_rows s) (ts_next_table s) (ts_cache s)" using assms(1) by (simp_all add: ts_inv_def)
  have "tab_inv {i} (ts_tables t) (ts_next_table t) (ts_rows t) (ts_next_row t) \<and>
    cache_inv (ts_rows t) (ts_next_table t) (ts_cache t) \<and> ts_next_row t = ts_next_row s"
    using assms(2)
  proof (cases rule: find_or_create_cases)
    case found
    then show ?thesis using s tab_inv_weaken by simp
  next
    case (created a u)
    have "tab_inv {i} (fm_set (ts_tables s) i u) (ts_next_table s + 1) (ts_rows s) (ts_next_row s)"
      unfolding created(2)
      by (rule tab_inv_create [OF s(1)]) (use find_table_None [OF created(1)] in \<open>auto simp: created(3) table_name_def\<close>)
    then show ?thesis using cache_inv_mono [OF s(2)] by (simp add: created(4))
  qed
  then show "tab_inv {i} (ts_tables t) (ts_next_table t) (ts_rows t) (ts_next_row t)"
    "cache_inv (ts_rows t) (ts_next_table t) (ts_cache t)" "ts_next_row t = ts_next_row s" by blast+
qed

lemma db_store_inv:
  assumes "ts_inv s" "db_store_i64 env code scope table payer i buffer s = Inr (it, t)" "ts_next_row t < 2 ^ 32"
  shows "ts_inv t" "ts_next_row s \<le> ts_next_row t"
proof -
  obtain tid s1 tab a ei c1 c2 r where f: "find_or_create_table env code scope table payer s = Inr (tid, s1)"
    and n: "fm_find (ts_rows s1) (tid, i) = None" "fm_find (ts_tables s1) tid = Some tab"
    and c: "cache_table tid (ts_cache s1) = (ei, c1)" "cache_add (tid, i) c1 = (it, c2)"
    and t: "t = s1\<lparr>ts_rows := fm_set (ts_rows s1) (tid, i) r, ts_next_row := ts_next_row s1 + 1,
      ts_tables := fm_set (ts_tables s1) tid (tab\<lparr>tid_count := tid_count tab + 1\<rparr>), ts_apply := a, ts_cache := c2\<rparr>"
    by (rule db_store_cases [OF assms(2)])
  note F = find_or_create_inv [OF assms(1) f]
  have "cache_inv (ts_rows t) (ts_next_table t) (ts_cache s1)"
    by (rule cache_inv_mono [OF F(2)]) (simp_all add: t)
  moreover have "tid < ts_next_table t" using tab_invD(4) [OF F(1) n(2)] by (simp add: t)
  ultimately have c1: "cache_inv (ts_rows t) (ts_next_table t) c1" "fm_find (table_cache c1) tid \<noteq> None"
    using cache_table_inv(1,2) [OF _ _ c(1)] by auto
  have "cache_inv (ts_rows t) (ts_next_table t) c2"
    by (rule cache_add_inv(1) [OF c1(1) _ _ c(2)]) (use c1(2) in \<open>simp_all add: t\<close>)
  moreover have "tab_inv {} (ts_tables t) (ts_next_table t) (ts_rows t) (ts_next_row t)"
    using tab_inv_store [OF F(1) n(2,1)] assms(3) by (simp add: t)
  ultimately show "ts_inv t" by (simp add: ts_inv_def t)
  show "ts_next_row s \<le> ts_next_row t" using F(3) by (simp add: t)
qed

lemma db_update_inv:
  assumes "ts_inv s" "db_update_i64 env it payer buffer s = Inr t"
  shows "ts_inv t"
proof -
  obtain k obj a payer' where k: "fm_find (ts_rows s) k = Some obj"
    and t: "t = s\<lparr>ts_apply := a, ts_rows := fm_set (ts_rows s) k (obj\<lparr>kv_value := buffer, kv_payer := payer'\<rparr>)\<rparr>"
    by (rule db_update_cases [OF assms(2)])
  have s: "tab_inv {} (ts_tables s) (ts_next_table s) (ts_rows s) (ts_next_row s)"
    "cache_inv (ts_rows s) (ts_next_table s) (ts_cache s)" using assms(1) by (simp_all add: ts_inv_def)
  have "cache_inv (ts_rows t) (ts_next_table t) (ts_cache s)"
    by (rule cache_inv_mono [OF s(2)]) (simp_all add: t)
  then show ?thesis using tab_inv_update [OF s(1), of k] k by (simp add: ts_inv_def t)
qed

lemma db_remove_inv:
  assumes "ts_inv s" "db_remove_i64 env it s = Inr t"
  shows "ts_inv t"
proof -
  obtain k obj tab a c T where k: "cache_get (ts_cache s) it = Inr k" "fm_find (ts_rows s) k = Some obj"
    and tab: "fm_find (ts_tables s) (fst k) = Some tab" and c: "cache_remove it (ts_cache s) = Inr c"
    and T: "T = fm_set (ts_tables s) (fst k) (tab\<lparr>tid_count := tid_count tab - 1\<rparr>)"
    and t: "t = s\<lparr>ts_apply := a, ts_rows := fm_erase (ts_rows s) k, ts_cache := c,
      ts_tables := (if tid_count tab - 1 = 0 then fm_erase T (fst k) else T)\<rparr>"
    by (rule db_remove_cases [OF assms(2)])
  have s: "tab_inv {} (ts_tables s) (ts_next_table s) (ts_rows s) (ts_next_row s)"
    "cache_inv (ts_rows s) (ts_next_table s) (ts_cache s)" using assms(1) by (simp_all add: ts_inv_def)
  have T1: "tab_inv {fst k} T (ts_next_table s) (fm_erase (ts_rows s) k) (ts_next_row s)"
    unfolding T by (rule tab_inv_erase [OF s(1) tab]) (simp add: k(2))
  have T2: "fm_find T (fst k) = Some (tab\<lparr>tid_count := tid_count tab - 1\<rparr>)" by (simp add: T)
  have "tab_inv {} (ts_tables t) (ts_next_table s) (fm_erase (ts_rows s) k) (ts_next_row s)"
    using tab_inv_drop [OF T1 T2] tab_inv_keep [OF T1 T2] by (simp add: t)
  then show ?thesis using cache_remove_inv [OF s(2) k(1) c] by (simp add: ts_inv_def t)
qed

lemma table_exec_inv:
  assumes "table_exec env a s = Inr t" "ts_next_row t < 2 ^ 32" "ts_inv s"
  shows "ts_inv t"
proof (cases a)
  case (Db_store sc tb p i b)
  then show ?thesis using assms db_store_inv(1) by (fastforce simp: result_simps)
next
  case (Db_update it p b)
  then show ?thesis using assms db_update_inv by simp
next
  case (Db_remove it)
  then show ?thesis using assms db_remove_inv by simp
qed (use lookup_step [OF assms(1)] assms(3) in \<open>auto simp: cache_step_def ts_inv_def\<close>)

lemma table_exec_next_row:
  assumes "table_exec env a s = Inr t"
  shows "ts_next_row s \<le> ts_next_row t"
proof (cases a)
  case (Db_store sc tb p i b)
  then obtain it where "db_store_i64 env (te_receiver env) sc tb p i b s = Inr (it, t)"
    using assms by (auto simp: result_simps)
  then show ?thesis by (rule db_store_cases) (erule find_or_create_cases, simp_all)
next
  case (Db_update it p b)
  then have "db_update_i64 env it p b s = Inr t" using assms by simp
  then show ?thesis by (rule db_update_cases) simp
next
  case (Db_remove it)
  then have "db_remove_i64 env it s = Inr t" using assms by simp
  then show ?thesis by (rule db_remove_cases) simp
qed (use lookup_step [OF assms] in \<open>auto simp: cache_step_def\<close>)

text \<open>A count wraps after \<open>2\<^sup>3\<^sup>2\<close> rows, so the invariant holds as long as fewer rows have been created.\<close>

interpretation tb: guarded_machine "table_exec env" "\<lambda>s. ts_next_row s < 2 ^ 32 \<longrightarrow> ts_inv s"
  by unfold_locales (use table_exec_inv table_exec_next_row in \<open>meson le_less_trans\<close>)

section \<open>The memory ledger of the tables\<close>

definition table_bytes :: "account_name \<Rightarrow> nat \<Rightarrow> table_id_object \<Rightarrow> u64" where
  "table_bytes a i t = (if tid_payer t = a then table_id_object_size else 0)"

definition row_bytes :: "account_name \<Rightarrow> row_key \<Rightarrow> key_value_object \<Rightarrow> u64" where
  "row_bytes a k r = (if kv_payer r = a then row_size (kv_value r) else 0)"

definition table_balance :: "table_state \<Rightarrow> account_name \<Rightarrow> u64" where
  "table_balance s a =
     billed (db_limits (ts_apply s)) a - fm_sum (table_bytes a) (ts_tables s) - fm_sum (row_bytes a) (ts_rows s)"

definition ledger_inv :: "account_name \<Rightarrow> u64 \<Rightarrow> table_state \<Rightarrow> bool" where
  "ledger_inv b v s \<longleftrightarrow>
     fm_wf (ts_tables s) \<and> fm_wf (ts_rows s) \<and> (\<forall>i t. fm_find (ts_tables s) i = Some t \<longrightarrow> i < ts_next_table s) \<and>
     table_balance s b = v"

lemma find_or_create_ledger:
  assumes "ledger_inv b v s" "find_or_create_table env code scope table payer s = Inr (i, t)"
  shows "ledger_inv b v t"
  using assms(2)
proof (cases rule: find_or_create_cases)
  case found
  then show ?thesis using assms(1) by simp
next
  case (created a u)
  have s: "fm_wf (ts_tables s)" "fm_wf (ts_rows s)" "\<And>i t. fm_find (ts_tables s) i = Some t \<Longrightarrow> i < ts_next_table s"
    "table_balance s b = v" using assms(1) by (auto simp: ledger_inv_def)
  have "fm_find (ts_tables s) i = None" using s(3) [of i] created(2) by (cases "fm_find (ts_tables s) i") auto
  then have "table_balance t b = v"
    using s(4) created(5)
    by (simp add: table_balance_def created(4) fm_sum_set [OF s(1)] fm_at_def table_bytes_def created(3))
  moreover have "\<forall>j t'. fm_find (ts_tables t) j = Some t' \<longrightarrow> j < ts_next_table t"
    using s(3) by (auto simp: created(2,4) less_Suc_eq)
  ultimately show ?thesis using s(1,2) by (simp add: ledger_inv_def created(4) fm_wf_set)
qed

lemma db_store_ledger:
  assumes "ledger_inv b v s" "db_store_i64 env code scope table payer i buffer s = Inr (it, t)"
  shows "ledger_inv b v t"
proof -
  obtain tid s1 tab a ei c1 c2 r where f: "find_or_create_table env code scope table payer s = Inr (tid, s1)"
    and n: "fm_find (ts_rows s1) (tid, i) = None" "fm_find (ts_tables s1) tid = Some tab"
    and r: "r = \<lparr>kv_id = ts_next_row s1, kv_payer = payer, kv_value = buffer\<rparr>"
    and a: "\<forall>b. billed (db_limits a) b = billed (db_limits (ts_apply s1)) b + (if b = payer then row_size buffer else 0)"
    and t: "t = s1\<lparr>ts_rows := fm_set (ts_rows s1) (tid, i) r, ts_next_row := ts_next_row s1 + 1,
      ts_tables := fm_set (ts_tables s1) tid (tab\<lparr>tid_count := tid_count tab + 1\<rparr>), ts_apply := a, ts_cache := c2\<rparr>"
    by (rule db_store_cases [OF assms(2)])
  have s: "fm_wf (ts_tables s1)" "fm_wf (ts_rows s1)" "\<forall>i t. fm_find (ts_tables s1) i = Some t \<longrightarrow> i < ts_next_table s1"
    "table_balance s1 b = v" using find_or_create_ledger [OF assms(1) f] by (simp_all add: ledger_inv_def)
  have "table_balance t b = v"
    using s(4) a n
    by (simp add: table_balance_def t fm_sum_set [OF s(1)] fm_sum_set [OF s(2)] fm_at_def table_bytes_def row_bytes_def r
        algebra_simps)
  then show ?thesis using s n(2) by (simp add: ledger_inv_def t fm_wf_set)
qed

lemma db_update_ledger:
  assumes "ledger_inv b v s" "db_update_i64 env it payer0 buffer s = Inr t"
  shows "ledger_inv b v t"
proof -
  obtain k obj a payer where k: "fm_find (ts_rows s) k = Some obj"
    and a: "\<forall>b. billed (db_limits a) b = billed (db_limits (ts_apply s)) b
      - (if b = kv_payer obj then row_size (kv_value obj) else 0) + (if b = payer then row_size buffer else 0)"
    and t: "t = s\<lparr>ts_apply := a, ts_rows := fm_set (ts_rows s) k (obj\<lparr>kv_value := buffer, kv_payer := payer\<rparr>)\<rparr>"
    by (rule db_update_cases [OF assms(2)])
  have w: "fm_wf (ts_rows s)" using assms(1) by (simp add: ledger_inv_def)
  have "table_balance t b = table_balance s b"
    using a k by (simp add: table_balance_def t fm_sum_set [OF w] fm_at_def row_bytes_def)
  then show ?thesis using assms(1) by (simp add: ledger_inv_def t fm_wf_set)
qed

lemma db_remove_ledger:
  assumes "ledger_inv b v s" "db_remove_i64 env it s = Inr t"
  shows "ledger_inv b v t"
proof -
  obtain k obj tab a c T where k: "fm_find (ts_rows s) k = Some obj" and tab: "fm_find (ts_tables s) (fst k) = Some tab"
    and a: "\<forall>b. billed (db_limits a) b = billed (db_limits (ts_apply s)) b
      - (if b = kv_payer obj then row_size (kv_value obj) else 0)
      - (if tid_count tab - 1 = 0 \<and> b = tid_payer tab then table_id_object_size else 0)"
    and T: "T = fm_set (ts_tables s) (fst k) (tab\<lparr>tid_count := tid_count tab - 1\<rparr>)"
    and t: "t = s\<lparr>ts_apply := a, ts_rows := fm_erase (ts_rows s) k, ts_cache := c,
      ts_tables := (if tid_count tab - 1 = 0 then fm_erase T (fst k) else T)\<rparr>"
    by (rule db_remove_cases [OF assms(2)])
  have w: "fm_wf (ts_tables s)" "fm_wf (ts_rows s)" using assms(1) by (simp_all add: ledger_inv_def)
  have wT: "fm_wf T" unfolding T by (rule fm_wf_set [OF w(1)])
  have sT: "fm_sum (table_bytes b) T = fm_sum (table_bytes b) (ts_tables s)"
    "fm_at (table_bytes b) T (fst k) = (if tid_payer tab = b then table_id_object_size else 0)"
    using tab by (simp_all add: T fm_sum_set [OF w(1)] fm_at_def table_bytes_def)
  have "table_balance t b = table_balance s b"
    using a k sT
    by (cases "tid_count tab - 1 = 0")
      (simp_all add: table_balance_def t fm_sum_erase [OF wT] fm_sum_erase [OF w(2)] fm_at_def [of "row_bytes b"] row_bytes_def)
  moreover have "\<forall>i u. fm_find (ts_tables t) i = Some u \<longrightarrow> i < ts_next_table t"
    using assms(1) tab by (auto simp: ledger_inv_def t T split: if_splits)
  ultimately show ?thesis using assms(1) wT w by (simp add: ledger_inv_def t fm_wf_erase)
qed

lemma table_exec_ledger:
  assumes "ledger_inv b v s" "table_exec env a s = Inr t"
  shows "ledger_inv b v t"
proof (cases a)
  case (Db_store sc tb p i bf)
  then show ?thesis using assms db_store_ledger by (fastforce simp: result_simps)
next
  case (Db_update it p bf)
  then show ?thesis using assms db_update_ledger by simp
next
  case (Db_remove it)
  then show ?thesis using assms db_remove_ledger by simp
qed (use lookup_step [OF assms(2)] assms(1) in \<open>auto simp: cache_step_def ledger_inv_def table_balance_def\<close>)

interpretation tl: guarded_machine "table_exec env" "ledger_inv b v"
  by unfold_locales (rule table_exec_ledger)

section \<open>Reading back and removed tables\<close>

text \<open>What is stored is read back through the iterator that storing returns.\<close>

lemma db_store_get:
  assumes "ts_inv s" "db_store_i64 env code scope table payer i buffer s = Inr (it, t)"
    and "length buffer \<le> n" "0 < n"
  shows "db_get_i64 it n t = Inr (int (length buffer), buffer)"
proof -
  obtain tid s1 tab a ei c1 c2 r where f: "find_or_create_table env code scope table payer s = Inr (tid, s1)"
    and n: "fm_find (ts_rows s1) (tid, i) = None" "fm_find (ts_tables s1) tid = Some tab"
    and r: "r = \<lparr>kv_id = ts_next_row s1, kv_payer = payer, kv_value = buffer\<rparr>"
    and c: "cache_table tid (ts_cache s1) = (ei, c1)" "cache_add (tid, i) c1 = (it, c2)"
    and t: "t = s1\<lparr>ts_rows := fm_set (ts_rows s1) (tid, i) r, ts_next_row := ts_next_row s1 + 1,
      ts_tables := fm_set (ts_tables s1) tid (tab\<lparr>tid_count := tid_count tab + 1\<rparr>), ts_apply := a, ts_cache := c2\<rparr>"
    by (rule db_store_cases [OF assms(2)])
  note F = find_or_create_inv [OF assms(1) f]
  have "cache_inv (ts_rows t) (ts_next_table t) (ts_cache s1)"
    by (rule cache_inv_mono [OF F(2)]) (simp_all add: t)
  moreover have "tid < ts_next_table t" using tab_invD(4) [OF F(1) n(2)] by (simp add: t)
  ultimately have c1: "cache_inv (ts_rows t) (ts_next_table t) c1" "fm_find (table_cache c1) tid \<noteq> None"
    using cache_table_inv(1,2) [OF _ _ c(1)] by auto
  have "cache_get c2 it = Inr (tid, i)"
    by (rule cache_add_inv(2) [OF c1(1) _ _ c(2)]) (use c1(2) in \<open>simp_all add: t\<close>)
  then show ?thesis using assms(3,4) by (simp add: db_get_i64_def row_at_def t r Let_def)
qed

text \<open>The end iterator of a table stays in the cache when the table is removed; going back from it is undefined.\<close>

lemma previous_of_removed_table:
  assumes "it < -1" "find_table_by_end_iterator (ts_cache s) it = Inr (Some i)" "fm_find (ts_tables s) i = None"
  shows "db_previous_i64 it s = Inl Undefined_behaviour"
  using assms by (simp add: db_previous_i64_def table_at_def)

section \<open>Properties\<close>

text \<open>A contract with no tables, and an account that pays for its rows.\<close>

definition sample_tables :: table_state where
  "sample_tables =
     \<lparr>ts_apply = \<lparr>db_accounts = [], db_metadata = [], db_codes = [], db_fioactions = [],
        db_auth = auth_initialize_database, db_limits = demo_limits\<lparr>rl_usage := [(7, usage_object_init)]\<rparr>,
        db_generated = [], validate_ram_usage = {}, account_ram_deltas = []\<rparr>,
      ts_tables = [], ts_next_table = 0, ts_rows = [], ts_next_row = 0, ts_cache = iterator_cache_init\<rparr>"

definition sample_table_env :: table_env where
  "sample_table_env = \<lparr>te_receiver = 7, te_account = 7, te_privileged = False, te_ram_restrictions = False,
     te_ram_billing_in_notify = False, te_auths = []\<rparr>"

lemma sample_tables_inv: "ts_inv sample_tables"
  by (simp add: ts_inv_def tab_inv_def cache_inv_def sample_tables_def iterator_cache_init_def)

lemma sample_sizes: "table_id_object_size = 112" "row_size [1, 2, 3] = 115"
  by (simp_all add: table_id_object_size_def row_size_def key_value_object_size_def billable_size_v_def)

lemmas sample_simps = sample_tables_def sample_table_env_def sample_sizes db_store_i64_def find_or_create_table_def
  find_table_def update_db_usage_def add_ram_usage_def trx_add_ram_usage_def add_pending_ram_usage_def
  row_get_def row_create_def fm_find_def usage_object_init_def table_at_def

lemma sample_store:
  "\<exists>t. table_exec sample_table_env (Db_store 1 2 7 5 [1, 2, 3]) sample_tables = Inr t \<and>
     billed (db_limits (ts_apply t)) 7 = 227 \<and> ts_next_row t = 1"
  by (simp add: sample_simps billed_def split: prod.split)

text \<open>
  C8. The tables of contracts stay consistent under any sequence of calls, as long as fewer than \<open>2\<^sup>3\<^sup>2\<close> rows
  have been created: every table counts its rows and has at least one, every row belongs to a table, no two tables
  have the same code, scope and name, and the cache maps iterators and rows to each other one to one, with every
  iterator that can be dereferenced standing for a row that is still there.
\<close>

theorem contract_tables_consistent:
  assumes "ts_inv s" "ts_next_row (run_ops (table_exec env) ops s) < 2 ^ 32"
  shows "ts_inv (run_ops (table_exec env) ops s)"
  using tb.run_inv [of s env ops] assms by blast

theorem contract_tables_consistent_witness:
  "\<exists>t. table_exec sample_table_env (Db_store 1 2 7 5 [1, 2, 3]) sample_tables = Inr t \<and> ts_inv t"
proof -
  obtain t where t: "table_exec sample_table_env (Db_store 1 2 7 5 [1, 2, 3]) sample_tables = Inr t" "ts_next_row t = 1"
    using sample_store by blast
  have "ts_inv (run_ops (table_exec sample_table_env) [Db_store 1 2 7 5 [1, 2, 3]] sample_tables)"
    by (rule contract_tables_consistent [OF sample_tables_inv]) (use t in simp)
  then show ?thesis using t(1) by auto
qed

text \<open>
  C6. The memory of contract tables is billed exactly: over any sequence of calls, what an account is billed changes
  by exactly the size of the rows and tables it pays for, in 64-bit arithmetic, also when rows change their payer
  and when the last row of a table is removed.
\<close>

theorem contract_tables_ledger:
  assumes "ts_inv s"
  shows "table_balance (run_ops (table_exec env) ops s) a = table_balance s a"
proof -
  have "ledger_inv a (table_balance s a) s"
    using assms tab_invD(1,2,4) by (fastforce simp: ledger_inv_def ts_inv_def)
  from tl.run_inv [OF this, of env ops] show ?thesis by (simp add: ledger_inv_def)
qed

theorem contract_tables_ledger_witness:
  "\<exists>t. table_exec sample_table_env (Db_store 1 2 7 5 [1, 2, 3]) sample_tables = Inr t \<and>
     billed (db_limits (ts_apply t)) 7 = 227 \<and> table_balance t 7 = table_balance sample_tables 7"
proof -
  obtain t where t: "table_exec sample_table_env (Db_store 1 2 7 5 [1, 2, 3]) sample_tables = Inr t"
    "billed (db_limits (ts_apply t)) 7 = 227" using sample_store by blast
  have "table_balance (run_ops (table_exec sample_table_env) [Db_store 1 2 7 5 [1, 2, 3]] sample_tables) 7 =
      table_balance sample_tables 7"
    by (rule contract_tables_ledger [OF sample_tables_inv])
  then show ?thesis using t by auto
qed

end
