(* ===== verification/Intrinsics.thy ===== *)
theory Intrinsics
  imports Chain_Prelude
begin

text \<open>
  The whitelist of intrinsics (\<^verbatim>\<open>whitelisted_intrinsics.cpp\<close>): a \<^verbatim>\<open>flat_multimap\<close> from the hash of a name to
  the name, used as a set of names. \<^verbatim>\<open>std::hash\<close> is the argument \<open>hash\<close>. An iterator is a position in the
  list of entries; \<^verbatim>\<open>end()\<close> is its length.
\<close>

section \<open>Model\<close>

type_synonym whitelisted_intrinsics_type = "(u64 \<times> string) list"

definition whitelist_lower_bound :: "whitelisted_intrinsics_type \<Rightarrow> u64 \<Rightarrow> nat" where
  "whitelist_lower_bound w h = length (takeWhile (\<lambda>e. fst e < h) w)"

function find_intrinsic_helper :: "u64 \<Rightarrow> string \<Rightarrow> whitelisted_intrinsics_type \<Rightarrow> nat \<Rightarrow> bool \<times> nat" where
  "find_intrinsic_helper h nm w itr =
     (if itr < length w \<and> fst (w ! itr) = h
      then if snd (w ! itr) = nm then (True, itr) else find_intrinsic_helper h nm w (itr + 1)
      else (False, itr))"
  by auto
termination by (relation "measure (\<lambda>(h, nm, w, itr). length w - itr)") auto

declare find_intrinsic_helper.simps [simp del]

definition find_intrinsic :: "whitelisted_intrinsics_type \<Rightarrow> u64 \<Rightarrow> string \<Rightarrow> nat" where
  "find_intrinsic w h nm =
     (case find_intrinsic_helper h nm w (whitelist_lower_bound w h) of
        (found, itr) \<Rightarrow> if \<not> found then length w else itr)"

definition is_intrinsic_whitelisted :: "(string \<Rightarrow> u64) \<Rightarrow> whitelisted_intrinsics_type \<Rightarrow> string \<Rightarrow> bool" where
  "is_intrinsic_whitelisted hash w nm =
     (let h = hash nm in fst (find_intrinsic_helper h nm w (whitelist_lower_bound w h)))"

text \<open>\<^verbatim>\<open>emplace\<close> inserts after the entries with the same key.\<close>

definition whitelist_emplace :: "whitelisted_intrinsics_type \<Rightarrow> u64 \<Rightarrow> string \<Rightarrow> whitelisted_intrinsics_type" where
  "whitelist_emplace w h nm =
     takeWhile (\<lambda>e. fst e \<le> h) w @ [(h, nm)] @ dropWhile (\<lambda>e. fst e \<le> h) w"

definition add_intrinsic_to_whitelist ::
  "(string \<Rightarrow> u64) \<Rightarrow> string \<Rightarrow> whitelisted_intrinsics_type \<Rightarrow> whitelisted_intrinsics_type result" where
  "add_intrinsic_to_whitelist hash nm w =
     (let h = hash nm; itr = find_intrinsic w h nm
      in eos_assert (itr = length w) Database_exception (Inr (whitelist_emplace w h nm)))"

definition remove_intrinsic_from_whitelist ::
  "(string \<Rightarrow> u64) \<Rightarrow> string \<Rightarrow> whitelisted_intrinsics_type \<Rightarrow> whitelisted_intrinsics_type result" where
  "remove_intrinsic_from_whitelist hash nm w =
     (let h = hash nm; itr = find_intrinsic w h nm
      in eos_assert (itr \<noteq> length w) Database_exception (Inr (take itr w @ drop (itr + 1) w)))"

text \<open>The \<^verbatim>\<open>std::set\<close> of names is the list of its elements.\<close>

definition reset_intrinsic_whitelist ::
  "(string \<Rightarrow> u64) \<Rightarrow> string list \<Rightarrow> whitelisted_intrinsics_type \<Rightarrow> whitelisted_intrinsics_type" where
  "reset_intrinsic_whitelist hash s w = fold (\<lambda>nm w. whitelist_emplace w (hash nm) nm) s []"

definition convert_intrinsic_whitelist_to_set :: "whitelisted_intrinsics_type \<Rightarrow> string set" where
  "convert_intrinsic_whitelist_to_set w = set (map snd w)"

section \<open>Searching\<close>

text \<open>Sorted by hash, every entry under the hash of its name, no name twice.\<close>

definition whitelist_wf :: "(string \<Rightarrow> u64) \<Rightarrow> whitelisted_intrinsics_type \<Rightarrow> bool" where
  "whitelist_wf hash w \<longleftrightarrow> sorted (map fst w) \<and> (\<forall>e \<in> set w. fst e = hash (snd e)) \<and> distinct (map snd w)"

lemma helper_found:
  "find_intrinsic_helper h nm w i = (True, j) \<Longrightarrow> i \<le> j \<and> j < length w \<and> w ! j = (h, nm)"
proof (induction h nm w i rule: find_intrinsic_helper.induct)
  case (1 h nm w i)
  then show ?case
    by (subst (asm) (2) find_intrinsic_helper.simps) (auto split: if_splits simp: prod_eq_iff)
qed

lemma helper_not_found:
  "find_intrinsic_helper h nm w i = (False, j) \<Longrightarrow> i \<le> k \<Longrightarrow> k < length w \<Longrightarrow>
     \<forall>l. i \<le> l \<and> l \<le> k \<longrightarrow> fst (w ! l) = h \<Longrightarrow> snd (w ! k) \<noteq> nm"
proof (induction h nm w i rule: find_intrinsic_helper.induct)
  case (1 h nm w i)
  have h: "fst (w ! i) = h" "i < length w" using "1.prems"(2-4) by auto
  have n: "snd (w ! i) \<noteq> nm" "find_intrinsic_helper h nm w (i + 1) = (False, j)"
    using "1.prems"(1) h by (subst (asm) find_intrinsic_helper.simps; simp split: if_splits)+
  show ?case
  proof (cases "k = i")
    case False
    then show ?thesis using "1.IH" h n "1.prems"(2-4) by simp
  qed (use n in simp)
qed

lemma lower_bound_before:
  assumes "sorted (map fst w)" "k < length w" "fst (w ! k) = h"
  shows "whitelist_lower_bound w h \<le> k" "\<forall>l. whitelist_lower_bound w h \<le> l \<and> l \<le> k \<longrightarrow> fst (w ! l) = h"
proof -
  let ?n = "whitelist_lower_bound w h"
  show le: "?n \<le> k"
    using assms(3) nth_length_takeWhile [of "\<lambda>e. fst e < h" w] nth_mem [of k "takeWhile (\<lambda>e. fst e < h) w"]
      set_takeWhileD [of "w ! k" "\<lambda>e. fst e < h" w] takeWhile_nth [of k "\<lambda>e. fst e < h" w]
    unfolding whitelist_lower_bound_def by (metis less_irrefl not_le)
  show "\<forall>l. ?n \<le> l \<and> l \<le> k \<longrightarrow> fst (w ! l) = h"
  proof (intro allI impI)
    fix l assume l: "?n \<le> l \<and> l \<le> k"
    have n: "?n < length w" using le assms(2) by simp
    have "\<not> fst (w ! ?n) < h"
      using nth_length_takeWhile [of "\<lambda>e. fst e < h" w] n by (simp add: whitelist_lower_bound_def)
    moreover have "fst (w ! ?n) \<le> fst (w ! l)"
      using assms(1,2) l sorted_nth_mono [of "map fst w" ?n l] by simp
    moreover have "fst (w ! l) \<le> fst (w ! k)"
      using assms(1,2) l sorted_nth_mono [of "map fst w" l k] by simp
    ultimately show "fst (w ! l) = h" using assms(3) by simp
  qed
qed

lemma whitelisted_iff:
  assumes "whitelist_wf hash w"
  shows "is_intrinsic_whitelisted hash w nm \<longleftrightarrow> nm \<in> set (map snd w)"
proof -
  obtain b j where r: "find_intrinsic_helper (hash nm) nm w (whitelist_lower_bound w (hash nm)) = (b, j)" by fastforce
  show ?thesis
  proof (cases b)
    case True
    then show ?thesis using r helper_found [of "hash nm" nm w _ j]
      by (force simp: is_intrinsic_whitelisted_def in_set_conv_nth)
  next
    case False
    have "nm \<notin> set (map snd w)"
    proof
      assume "nm \<in> set (map snd w)"
      then obtain k where k: "k < length w" "snd (w ! k) = nm" by (auto simp: in_set_conv_nth)
      then have h: "fst (w ! k) = hash nm" using assms nth_mem [OF k(1)] by (auto simp: whitelist_wf_def)
      have "sorted (map fst w)" using assms by (simp add: whitelist_wf_def)
      note L = lower_bound_before [OF this k(1) h]
      have "find_intrinsic_helper (hash nm) nm w (whitelist_lower_bound w (hash nm)) = (False, j)" using r False by simp
      from helper_not_found [OF this L(1) k(1) L(2)] show False using k(2) by simp
    qed
    then show ?thesis using r False by (simp add: is_intrinsic_whitelisted_def)
  qed
qed

lemma find_intrinsic_spec:
  assumes "whitelist_wf hash w"
  shows "nm \<in> set (map snd w) \<Longrightarrow> find_intrinsic w (hash nm) nm < length w \<and>
      w ! find_intrinsic w (hash nm) nm = (hash nm, nm)"
    and "nm \<notin> set (map snd w) \<Longrightarrow> find_intrinsic w (hash nm) nm = length w"
proof -
  obtain b j where r: "find_intrinsic_helper (hash nm) nm w (whitelist_lower_bound w (hash nm)) = (b, j)" by fastforce
  have b: "b \<longleftrightarrow> nm \<in> set (map snd w)"
    using whitelisted_iff [OF assms, of nm] r by (simp add: is_intrinsic_whitelisted_def)
  show "find_intrinsic w (hash nm) nm < length w \<and> w ! find_intrinsic w (hash nm) nm = (hash nm, nm)"
    if "nm \<in> set (map snd w)"
    using that b r helper_found [of "hash nm" nm w _ j] by (simp add: find_intrinsic_def)
  show "find_intrinsic w (hash nm) nm = length w" if "nm \<notin> set (map snd w)"
    using that b r by (simp add: find_intrinsic_def)
qed

lemma insert_between_wf:
  assumes wf: "whitelist_wf hash (x @ y)" and x: "\<forall>e \<in> set x. fst e \<le> hash nm" and y: "\<forall>e \<in> set y. hash nm \<le> fst e"
    and new: "nm \<notin> snd ` set x" "nm \<notin> snd ` set y"
  shows "whitelist_wf hash (x @ [(hash nm, nm)] @ y)"
proof -
  have "sorted (map fst x @ map fst y)" "distinct (map snd x @ map snd y)"
    using wf by (simp_all add: whitelist_wf_def)
  then have "sorted (map fst x @ [hash nm] @ map fst y)" "distinct (map snd x @ [nm] @ map snd y)"
    using x y new by (auto simp: sorted_append)
  then show ?thesis using wf by (simp add: whitelist_wf_def ball_Un)
qed

lemma emplace_wf:
  assumes "whitelist_wf hash w" "nm \<notin> set (map snd w)"
  shows "whitelist_wf hash (whitelist_emplace w (hash nm) nm)"
    and "set (map snd (whitelist_emplace w (hash nm) nm)) = insert nm (set (map snd w))"
proof -
  define P :: "u64 \<times> string \<Rightarrow> bool" where "P = (\<lambda>e. fst e \<le> hash nm)"
  define x y where "x = takeWhile P w" and "y = dropWhile P w"
  have w: "w = x @ y" by (simp add: x_def y_def)
  have e: "whitelist_emplace w (hash nm) nm = x @ [(hash nm, nm)] @ y"
    by (simp add: whitelist_emplace_def x_def y_def P_def)
  have wf: "whitelist_wf hash (x @ y)" using assms(1) w by simp
  have new: "nm \<notin> snd ` set x" "nm \<notin> snd ` set y" using assms(2) w by auto
  have small: "\<forall>e \<in> set x. fst e \<le> hash nm" unfolding x_def by (auto simp: P_def dest: set_takeWhileD)
  have big: "\<forall>e \<in> set y. hash nm \<le> fst e"
  proof
    fix e assume e: "e \<in> set y"
    have "sorted (map fst y)" using wf by (simp add: whitelist_wf_def sorted_append)
    then have "fst (hd y) \<le> fst e" using e by (cases y) auto
    moreover have "y \<noteq> []" using e by auto
    then have "\<not> P (hd y)" unfolding y_def by (rule hd_dropWhile)
    ultimately show "hash nm \<le> fst e" by (simp add: P_def)
  qed
  show "whitelist_wf hash (whitelist_emplace w (hash nm) nm)"
    unfolding e by (rule insert_between_wf [OF wf small big new])
  show "set (map snd (whitelist_emplace w (hash nm) nm)) = insert nm (set (map snd w))"
    unfolding e by (subst w) simp
qed

lemma erase_wf:
  assumes "whitelist_wf hash w" "i < length w" "w ! i = (hash nm, nm)"
  shows "whitelist_wf hash (take i w @ drop (i + 1) w)"
    and "set (map snd (take i w @ drop (i + 1) w)) = set (map snd w) - {nm}"
proof -
  have w: "w = take i w @ (hash nm, nm) # drop (i + 1) w" using id_take_nth_drop [OF assms(2)] assms(3) by simp
  define a b where "a = take i w" and "b = drop (i + 1) w"
  have wf: "whitelist_wf hash (a @ (hash nm, nm) # b)" using assms(1) w by (simp add: a_def b_def)
  then have "sorted (map fst a @ hash nm # map fst b)" by (simp add: whitelist_wf_def)
  then have "sorted (map fst a @ map fst b)" by (simp add: sorted_append)
  then have "sorted (map fst (a @ b))" by simp
  with wf show "whitelist_wf hash (take i w @ drop (i + 1) w)"
    unfolding a_def [symmetric] b_def [symmetric] by (simp add: whitelist_wf_def)
  have "set (map snd (a @ b)) = set (map snd (a @ (hash nm, nm) # b)) - {nm}"
    using wf by (auto simp: whitelist_wf_def)
  moreover have "w = a @ (hash nm, nm) # b" using w by (simp add: a_def b_def)
  ultimately show "set (map snd (take i w @ drop (i + 1) w)) = set (map snd w) - {nm}"
    unfolding a_def [symmetric] b_def [symmetric] by metis
qed

lemma reset_wf:
  assumes "distinct s"
  shows "whitelist_wf hash (reset_intrinsic_whitelist hash s w)"
    and "set (map snd (reset_intrinsic_whitelist hash s w)) = set s"
proof -
  have "whitelist_wf hash (fold (\<lambda>nm w. whitelist_emplace w (hash nm) nm) s v) \<and>
      set (map snd (fold (\<lambda>nm w. whitelist_emplace w (hash nm) nm) s v)) = set s \<union> set (map snd v)"
    if "whitelist_wf hash v" "distinct s" "set s \<inter> set (map snd v) = {}" for v
    using that
  proof (induction s arbitrary: v)
    case (Cons x s)
    note E = emplace_wf [OF Cons.prems(1), of x]
    have x: "x \<notin> set (map snd v)" using Cons.prems(3) by auto
    have "set s \<inter> set (map snd (whitelist_emplace v (hash x) x)) = {}" using E(2) [OF x] Cons.prems by auto
    then show ?case using Cons.IH [OF E(1) [OF x]] Cons.prems(2) E(2) [OF x] by auto
  qed simp
  note this [of "[]"]
  then show "whitelist_wf hash (reset_intrinsic_whitelist hash s w)"
      "set (map snd (reset_intrinsic_whitelist hash s w)) = set s"
    using assms by (simp_all add: reset_intrinsic_whitelist_def whitelist_wf_def)
qed

section \<open>The whitelist is a set of names\<close>

datatype whitelist_op = Add_intrinsic string | Remove_intrinsic string | Reset_whitelist "string list"

fun whitelist_exec ::
  "(string \<Rightarrow> u64) \<Rightarrow> whitelist_op \<Rightarrow> whitelisted_intrinsics_type \<Rightarrow> whitelisted_intrinsics_type result" where
  "whitelist_exec hash (Add_intrinsic nm) w = add_intrinsic_to_whitelist hash nm w"
| "whitelist_exec hash (Remove_intrinsic nm) w = remove_intrinsic_from_whitelist hash nm w"
| "whitelist_exec hash (Reset_whitelist s) w = Inr (reset_intrinsic_whitelist hash s w)"

fun name_set_exec :: "whitelist_op \<Rightarrow> string set \<Rightarrow> string set result" where
  "name_set_exec (Add_intrinsic nm) S = eos_assert (nm \<notin> S) Database_exception (Inr (insert nm S))"
| "name_set_exec (Remove_intrinsic nm) S = eos_assert (nm \<in> S) Database_exception (Inr (S - {nm}))"
| "name_set_exec (Reset_whitelist s) S = Inr (set s)"

text \<open>A \<^verbatim>\<open>std::set\<close> has no element twice.\<close>

fun whitelist_op_ok :: "whitelist_op \<Rightarrow> bool" where
  "whitelist_op_ok (Reset_whitelist s) = distinct s"
| "whitelist_op_ok _ = True"

lemma whitelist_step:
  assumes "whitelist_op_ok a" "whitelist_wf hash w"
  shows "case whitelist_exec hash a w of
      Inl e \<Rightarrow> name_set_exec a (convert_intrinsic_whitelist_to_set w) = Inl e
    | Inr w' \<Rightarrow> whitelist_wf hash w' \<and>
        name_set_exec a (convert_intrinsic_whitelist_to_set w) = Inr (convert_intrinsic_whitelist_to_set w')"
proof (cases a)
  case (Add_intrinsic nm)
  note F = find_intrinsic_spec [OF assms(2), of nm] and E = emplace_wf [OF assms(2), of nm]
  show ?thesis
    by (cases "nm \<in> set (map snd w)")
      (use F E Add_intrinsic in \<open>auto simp: add_intrinsic_to_whitelist_def convert_intrinsic_whitelist_to_set_def
         simp del: set_map\<close>)
next
  case (Remove_intrinsic nm)
  note F = find_intrinsic_spec [OF assms(2), of nm]
  show ?thesis
  proof (cases "nm \<in> set (map snd w)")
    case True
    note E = erase_wf [OF assms(2)] and F = F(1) [OF True]
    show ?thesis
      using E [of "find_intrinsic w (hash nm) nm" nm] F True Remove_intrinsic
      by (simp add: remove_intrinsic_from_whitelist_def convert_intrinsic_whitelist_to_set_def Let_def del: set_map)
  next
    case False
    then show ?thesis using F(2) Remove_intrinsic
      by (simp add: remove_intrinsic_from_whitelist_def convert_intrinsic_whitelist_to_set_def)
  qed
next
  case (Reset_whitelist s)
  then show ?thesis using reset_wf [of s hash w] assms(1)
    by (simp add: convert_intrinsic_whitelist_to_set_def)
qed

interpretation wl: refined_machine "whitelist_exec hash" name_set_exec convert_intrinsic_whitelist_to_set
    whitelist_op_ok "whitelist_wf hash"
proof
  fix a w w' e
  assume "whitelist_op_ok a" "whitelist_wf hash w"
  note W = whitelist_step [OF this]
  show "whitelist_exec hash a w = Inr w' \<Longrightarrow> whitelist_wf hash w' \<and>
      name_set_exec a (convert_intrinsic_whitelist_to_set w) = Inr (convert_intrinsic_whitelist_to_set w')"
    using W by simp
  show "whitelist_exec hash a w = Inl e \<Longrightarrow> name_set_exec a (convert_intrinsic_whitelist_to_set w) = Inl e"
    using W by simp
qed

section \<open>Properties\<close>

text \<open>
  C15. The whitelist refines a set of names: after any sequence of additions, removals and resets, with calls
  that throw leaving it unchanged, its lookup answers exactly the membership in the set that the same
  sequence gives, whatever the hash function and its collisions.
\<close>

theorem whitelist_refines_set:
  assumes "list_all whitelist_op_ok ops"
  shows "is_intrinsic_whitelisted hash (run_ops (whitelist_exec hash) ops []) nm \<longleftrightarrow>
    nm \<in> run_ops name_set_exec ops {}"
proof -
  have e: "whitelist_wf hash []" by (simp add: whitelist_wf_def)
  have "convert_intrinsic_whitelist_to_set [] = {}" by (simp add: convert_intrinsic_whitelist_to_set_def)
  then show ?thesis
    using whitelisted_iff [OF wl.rm.run_ok_inv [OF assms e]] wl.run_refines [OF assms e]
    by (simp add: convert_intrinsic_whitelist_to_set_def)
qed

theorem whitelist_refines_set_witness:
  "is_intrinsic_whitelisted (\<lambda>_. 7)
     (run_ops (whitelist_exec (\<lambda>_. 7))
        [Reset_whitelist [''a'', ''b''], Add_intrinsic ''c'', Remove_intrinsic ''a'', Add_intrinsic ''b''] []) ''b''"
  by (subst whitelist_refines_set) simp_all

end
