(* ===== verification/Protocol_Features.thy ===== *)
theory Protocol_Features
  imports Flat_Map
begin

text \<open>
  Protocol features (\<^verbatim>\<open>protocol_feature_manager.cpp\<close> and its header): the table of builtin features, the set of
  recognized features and the manager of the activated ones. The manager keeps the activations twice, in the
  order of activation and in an array by codename whose entries are linked back to the previous activation. The
  hash of a packed feature and the digest written as a hexadecimal string are arguments. An iterator into the
  \<^verbatim>\<open>std::set\<close> of features is the digest of the feature it points to.
\<close>

section \<open>Model\<close>

datatype builtin_protocol_feature_t =
    Preactivate_feature
  | Only_link_to_existing_permission
  | Replace_deferred
  | No_duplicate_deferred_id
  | Fix_linkauth_restriction
  | Disallow_empty_producer_schedule
  | Restrict_action_to_self
  | Only_bill_first_authorizer
  | Forward_setcode
  | Get_sender
  | Ram_restrictions

text \<open>\<^verbatim>\<open>static_cast<uint32_t>\<close> of an enumerator.\<close>

primrec feature_index :: "builtin_protocol_feature_t \<Rightarrow> nat" where
  "feature_index Preactivate_feature = 0"
| "feature_index Only_link_to_existing_permission = 1"
| "feature_index Replace_deferred = 2"
| "feature_index No_duplicate_deferred_id = 3"
| "feature_index Fix_linkauth_restriction = 4"
| "feature_index Disallow_empty_producer_schedule = 5"
| "feature_index Restrict_action_to_self = 6"
| "feature_index Only_bill_first_authorizer = 7"
| "feature_index Forward_setcode = 8"
| "feature_index Get_sender = 9"
| "feature_index Ram_restrictions = 10"

record protocol_feature_subjective_restrictions =
  earliest_time :: int
  preactivation :: bool
  is_enabled :: bool

record builtin_protocol_feature_spec =
  spec_codename :: string
  spec_description_digest :: digest
  builtin_dependencies :: "builtin_protocol_feature_t list"
  spec_restrictions :: protocol_feature_subjective_restrictions

definition default_restrictions :: protocol_feature_subjective_restrictions where
  "default_restrictions = \<lparr>earliest_time = 0, preactivation = True, is_enabled = True\<rparr>"

definition builtin_spec ::
  "string \<Rightarrow> digest \<Rightarrow> builtin_protocol_feature_t list \<Rightarrow> builtin_protocol_feature_spec" where
  "builtin_spec nm d deps =
     \<lparr>spec_codename = nm, spec_description_digest = d, builtin_dependencies = deps,
      spec_restrictions = default_restrictions\<rparr>"

definition builtin_protocol_feature_codenames ::
  "(string \<Rightarrow> digest) \<Rightarrow> (builtin_protocol_feature_t \<times> builtin_protocol_feature_spec) list" where
  "builtin_protocol_feature_codenames of_hex =
     [(Preactivate_feature,
       (builtin_spec ''PREACTIVATE_FEATURE''
          (of_hex ''64fe7df32e9b86be2b296b3f81dfd527f84e82b98e363bc97e40bc7a83733310'') [])
       \<lparr>spec_restrictions := \<lparr>earliest_time = 0, preactivation = False, is_enabled = True\<rparr>\<rparr>),
      (Only_link_to_existing_permission,
       builtin_spec ''ONLY_LINK_TO_EXISTING_PERMISSION''
         (of_hex ''f3c3d91c4603cde2397268bfed4e662465293aab10cd9416db0d442b8cec2949'') []),
      (Replace_deferred,
       builtin_spec ''REPLACE_DEFERRED''
         (of_hex ''9908b3f8413c8474ab2a6be149d3f4f6d0421d37886033f27d4759c47a26d944'') []),
      (No_duplicate_deferred_id,
       builtin_spec ''NO_DUPLICATE_DEFERRED_ID''
         (of_hex ''45967387ee92da70171efd9fefd1ca8061b5efe6f124d269cd2468b47f1575a0'') [Replace_deferred]),
      (Fix_linkauth_restriction,
       builtin_spec ''FIX_LINKAUTH_RESTRICTION''
         (of_hex ''a98241c83511dc86c857221b9372b4aa7cea3aaebc567a48604e1d3db3557050'') []),
      (Disallow_empty_producer_schedule,
       builtin_spec ''DISALLOW_EMPTY_PRODUCER_SCHEDULE''
         (of_hex ''2853617cec3eabd41881eb48882e6fc5e81a0db917d375057864b3befbe29acd'') []),
      (Restrict_action_to_self,
       builtin_spec ''RESTRICT_ACTION_TO_SELF''
         (of_hex ''e71b6712188391994c78d8c722c1d42c477cf091e5601b5cf1befd05721a57f3'') []),
      (Only_bill_first_authorizer,
       builtin_spec ''ONLY_BILL_FIRST_AUTHORIZER''
         (of_hex ''2f1f13e291c79da5a2bbad259ed7c1f2d34f697ea460b14b565ac33b063b73e2'') []),
      (Forward_setcode,
       builtin_spec ''FORWARD_SETCODE''
         (of_hex ''898082c59f921d0042e581f00a59d5ceb8be6f1d9c7a45b6f07c0e26eaee0222'') []),
      (Get_sender,
       builtin_spec ''GET_SENDER''
         (of_hex ''1eab748b95a2e6f4d7cb42065bdee5566af8efddf01a55a0a8d831b823f8828a'') []),
      (Ram_restrictions,
       builtin_spec ''RAM_RESTRICTIONS''
         (of_hex ''1812fdb5096fd854a4958eb9d53b43219d114de0e858ce00255bd46569ad2c68'') [])]"

text \<open>The functions of fc that the component uses.\<close>

record feature_env =
  of_hex :: "string \<Rightarrow> digest"
  hash_feature :: "digest \<Rightarrow> digest list \<Rightarrow> nat \<Rightarrow> digest"

definition builtin_codenames ::
  "feature_env \<Rightarrow> builtin_protocol_feature_t \<Rightarrow> builtin_protocol_feature_spec option" where
  "builtin_codenames env c = map_of (builtin_protocol_feature_codenames (of_hex env)) c"

definition builtin_protocol_feature_codename :: "feature_env \<Rightarrow> builtin_protocol_feature_t \<Rightarrow> string result" where
  "builtin_protocol_feature_codename env codename =
     (case builtin_codenames env codename of
        None \<Rightarrow> Inl Protocol_feature_validation_exception
      | Some sp \<Rightarrow> Inr (spec_codename sp))"

record builtin_protocol_feature =
  bpf_type :: string
  bpf_description_digest :: digest
  bpf_dependencies :: "digest list"
  bpf_restrictions :: protocol_feature_subjective_restrictions
  builtin_feature_codename :: string
  bpf_codename :: builtin_protocol_feature_t

definition builtin_protocol_feature_new ::
  "feature_env \<Rightarrow> builtin_protocol_feature_t \<Rightarrow> digest \<Rightarrow> digest list \<Rightarrow>
     protocol_feature_subjective_restrictions \<Rightarrow> builtin_protocol_feature result" where
  "builtin_protocol_feature_new env codename description_digest deps restrictions =
     (case builtin_codenames env codename of
        None \<Rightarrow> Inl Protocol_feature_validation_exception
      | Some sp \<Rightarrow>
          Inr \<lparr>bpf_type = ''builtin'', bpf_description_digest = description_digest, bpf_dependencies = deps,
               bpf_restrictions = restrictions, builtin_feature_codename = spec_codename sp,
               bpf_codename = codename\<rparr>)"

text \<open>\<^verbatim>\<open>reflector_init\<close> of an unpacked feature finds the enumerator of its codename.\<close>

definition feature_reflector_init ::
  "feature_env \<Rightarrow> builtin_protocol_feature \<Rightarrow> builtin_protocol_feature result" where
  "feature_reflector_init env f =
     eos_assert (bpf_type f = ''builtin'') Protocol_feature_validation_exception
       (case find (\<lambda>p. spec_codename (snd p) = builtin_feature_codename f)
               (builtin_protocol_feature_codenames (of_hex env)) of
          None \<Rightarrow> Inl Protocol_feature_validation_exception
        | Some p \<Rightarrow> Inr (f\<lparr>bpf_codename := fst p\<rparr>))"

definition builtin_feature_digest :: "feature_env \<Rightarrow> builtin_protocol_feature \<Rightarrow> digest" where
  "builtin_feature_digest env f =
     hash_feature env (bpf_description_digest f) (bpf_dependencies f) (feature_index (bpf_codename f))"

subsection \<open>The set of recognized features\<close>

record protocol_feature =
  feature_digest :: digest
  description_digest :: digest
  dependencies :: "digest list"
  earliest_allowed_activation_time :: int
  preactivation_required :: bool
  enabled :: bool
  builtin_feature :: "builtin_protocol_feature_t option"

record protocol_feature_set =
  recognized :: "(digest, protocol_feature) flat_map"
  recognized_builtins :: "digest option list"

datatype recognized_t = Unrecognized | Disabled | Too_early | Ready

definition pfs_empty :: protocol_feature_set where
  "pfs_empty = \<lparr>recognized = [], recognized_builtins = []\<rparr>"

definition is_recognized :: "protocol_feature_set \<Rightarrow> digest \<Rightarrow> int \<Rightarrow> recognized_t" where
  "is_recognized s d now =
     (case fm_find (recognized s) d of
        None \<Rightarrow> Unrecognized
      | Some f \<Rightarrow>
          if \<not> enabled f then Disabled
          else if earliest_allowed_activation_time f > now then Too_early
          else Ready)"

definition get_builtin_digest :: "protocol_feature_set \<Rightarrow> builtin_protocol_feature_t \<Rightarrow> digest option" where
  "get_builtin_digest s codename =
     (let indx = feature_index codename
      in if length (recognized_builtins s) \<le> indx then None else recognized_builtins s ! indx)"

definition get_protocol_feature :: "protocol_feature_set \<Rightarrow> digest \<Rightarrow> protocol_feature result" where
  "get_protocol_feature s d =
     (case fm_find (recognized s) d of None \<Rightarrow> Inl Protocol_feature_exception | Some f \<Rightarrow> Inr f)"

definition validate_dependencies :: "protocol_feature_set \<Rightarrow> digest \<Rightarrow> (digest \<Rightarrow> bool) \<Rightarrow> bool" where
  "validate_dependencies s d validator =
     (case fm_find (recognized s) d of None \<Rightarrow> False | Some f \<Rightarrow> list_all validator (dependencies f))"

text \<open>\<^verbatim>\<open>flat_set::insert\<close>.\<close>

definition set_insert :: "'a::linorder \<Rightarrow> 'a list \<Rightarrow> 'a list" where
  "set_insert x xs = (if x \<in> set xs then xs else insort x xs)"

definition make_default_builtin_protocol_feature ::
  "feature_env \<Rightarrow> builtin_protocol_feature_t \<Rightarrow> (builtin_protocol_feature_t \<Rightarrow> digest result) \<Rightarrow>
     builtin_protocol_feature result" where
  "make_default_builtin_protocol_feature env codename handle_dependency =
     (case builtin_codenames env codename of
        None \<Rightarrow> Inl Protocol_feature_validation_exception
      | Some sp \<Rightarrow>
          rbind (rfold (\<lambda>d deps. rbind (handle_dependency d) (\<lambda>x. Inr (set_insert x deps)))
                   (builtin_dependencies sp) []) (\<lambda>deps.
          builtin_protocol_feature_new env codename (spec_description_digest sp) deps (spec_restrictions sp)))"

text \<open>The loop of \<^verbatim>\<open>add_feature\<close> over the dependencies collects the expected builtin features among them.\<close>

definition note_dependency ::
  "protocol_feature_set \<Rightarrow> builtin_protocol_feature_t list \<Rightarrow> digest \<Rightarrow> builtin_protocol_feature_t list \<Rightarrow>
     builtin_protocol_feature_t list result" where
  "note_dependency s expected d satisfied =
     (case fm_find (recognized s) d of
        None \<Rightarrow> Inl Protocol_feature_exception
      | Some f \<Rightarrow>
          (case builtin_feature f of
             None \<Rightarrow> Inr satisfied
           | Some c \<Rightarrow> if c \<in> set expected \<and> c \<notin> set satisfied then Inr (c # satisfied) else Inr satisfied))"

definition add_feature ::
  "feature_env \<Rightarrow> builtin_protocol_feature \<Rightarrow> protocol_feature_set \<Rightarrow> protocol_feature_set result" where
  "add_feature env f s =
     (case builtin_codenames env (bpf_codename f) of
        None \<Rightarrow> Inl Protocol_feature_validation_exception
      | Some sp \<Rightarrow>
          (let indx = feature_index (bpf_codename f); rb = recognized_builtins s
           in eos_assert (indx < length rb \<longrightarrow> rb ! indx = None) Protocol_feature_exception (
              let d = builtin_feature_digest env f; expected = builtin_dependencies sp
              in rbind (rfold (note_dependency s expected) (bpf_dependencies f) []) (\<lambda>satisfied.
                 eos_assert (length expected \<le> length satisfied) Protocol_feature_validation_exception (
                 eos_assert (fm_find (recognized s) d = None) Protocol_feature_exception (
                 let row = \<lparr>feature_digest = d, description_digest = bpf_description_digest f,
                       dependencies = bpf_dependencies f,
                       earliest_allowed_activation_time = earliest_time (bpf_restrictions f),
                       preactivation_required = preactivation (bpf_restrictions f),
                       enabled = is_enabled (bpf_restrictions f), builtin_feature = Some (bpf_codename f)\<rparr>;
                     rb' = rb @ replicate (indx + 1 - length rb) None
                 in Inr (s\<lparr>recognized := fm_set (recognized s) d row,
                           recognized_builtins := rb'[indx := Some d]\<rparr>)))))))"

subsection \<open>The manager\<close>

definition no_previous :: nat where
  "no_previous = 2 ^ 64 - 1"

definition not_active :: u32 where
  "not_active = - 1"

record builtin_protocol_feature_entry =
  previous :: nat
  be_block_num :: u32

definition entry_init :: builtin_protocol_feature_entry where
  "entry_init = \<lparr>previous = no_previous, be_block_num = not_active\<rparr>"

record protocol_feature_manager =
  pfm_set :: protocol_feature_set
  activated :: "(digest \<times> u32) list"
  builtins :: "builtin_protocol_feature_entry list"
  head_of_builtin_activation_list :: nat
  initialized :: bool

definition pfm_new :: "protocol_feature_set \<Rightarrow> protocol_feature_manager" where
  "pfm_new s =
     \<lparr>pfm_set = s, activated = [], builtins = replicate (length (recognized_builtins s)) entry_init,
      head_of_builtin_activation_list = no_previous, initialized = False\<rparr>"

definition is_builtin_activated ::
  "protocol_feature_manager \<Rightarrow> builtin_protocol_feature_t \<Rightarrow> u32 \<Rightarrow> bool" where
  "is_builtin_activated p codename current_block_num =
     (let indx = feature_index codename
      in if length (builtins p) \<le> indx then False else be_block_num (builtins p ! indx) \<le> current_block_num)"

definition activate_feature ::
  "digest \<Rightarrow> u32 \<Rightarrow> protocol_feature_manager \<Rightarrow> protocol_feature_manager result" where
  "activate_feature d current_block_num p =
     eos_assert (initialized p) Protocol_feature_exception
       (case fm_find (recognized (pfm_set p)) d of
          None \<Rightarrow> Inl Protocol_feature_exception
        | Some f \<Rightarrow>
            eos_assert (activated p \<noteq> [] \<longrightarrow> snd (last (activated p)) \<le> current_block_num)
              Protocol_feature_exception
              (case builtin_feature f of
                 None \<Rightarrow> Inl Protocol_feature_exception
               | Some c \<Rightarrow>
                   (let indx = feature_index c
                    in eos_assert (indx < length (builtins p)) Protocol_feature_exception (
                       eos_assert (be_block_num (builtins p ! indx) = not_active) Protocol_feature_exception (
                       Inr (p\<lparr>activated := activated p @ [(d, current_block_num)],
                              builtins := (builtins p)[indx :=
                                \<lparr>previous = head_of_builtin_activation_list p, be_block_num = current_block_num\<rparr>],
                              head_of_builtin_activation_list := indx\<rparr>))))))"

text \<open>The first loop of \<^verbatim>\<open>popped_blocks_to\<close>, along the links, with the number of entries as fuel.\<close>

fun pop_builtins ::
  "nat \<Rightarrow> u32 \<Rightarrow> builtin_protocol_feature_entry list \<Rightarrow> nat \<Rightarrow>
     (builtin_protocol_feature_entry list \<times> nat) result" where
  "pop_builtins fuel block_num bs h =
     (if h = no_previous then Inr (bs, h)
      else if length bs \<le> h then Inl Undefined_behaviour
      else if be_block_num (bs ! h) \<le> block_num then Inr (bs, h)
      else
        (case fuel of
           0 \<Rightarrow> Inl Does_not_return
         | Suc fuel' \<Rightarrow> pop_builtins fuel' block_num (bs[h := entry_init]) (previous (bs ! h))))"

declare pop_builtins.simps [simp del]

text \<open>The second loop removes from the back of the activations.\<close>

definition pop_activated :: "u32 \<Rightarrow> (digest \<times> u32) list \<Rightarrow> (digest \<times> u32) list" where
  "pop_activated block_num as = rev (dropWhile (\<lambda>e. block_num < snd e) (rev as))"

definition popped_blocks_to :: "u32 \<Rightarrow> protocol_feature_manager \<Rightarrow> protocol_feature_manager result" where
  "popped_blocks_to block_num p =
     eos_assert (initialized p) Protocol_feature_exception (
     rbind (pop_builtins (length (builtins p)) block_num (builtins p) (head_of_builtin_activation_list p))
       (\<lambda>(bs, h).
     Inr (p\<lparr>activated := pop_activated block_num (activated p), builtins := bs,
            head_of_builtin_activation_list := h\<rparr>)))"

text \<open>
  \<^verbatim>\<open>init\<close> replays the activations of the database. When one of them throws, the source leaves a manager that is
  not initialized and holds the activations before it; the model gives the exception only.
\<close>

definition pfm_init :: "(digest \<times> u32) list \<Rightarrow> protocol_feature_manager \<Rightarrow> protocol_feature_manager result" where
  "pfm_init db_activated p =
     eos_assert (\<not> initialized p) Protocol_feature_exception (
     rfold (\<lambda>f. activate_feature (fst f) (snd f)) db_activated (p\<lparr>initialized := True\<rparr>))"

subsection \<open>Iterators over the activations\<close>

datatype pfm_iterator = Singular_iterator | Iterator_at nat | End_iterator

definition activation_ordinal :: "pfm_iterator \<Rightarrow> u32 result" where
  "activation_ordinal it =
     (case it of Iterator_at i \<Rightarrow> Inr (of_nat i) | _ \<Rightarrow> Inl Protocol_feature_iterator_exception)"

definition activation_block_num :: "protocol_feature_manager \<Rightarrow> pfm_iterator \<Rightarrow> u32 result" where
  "activation_block_num p it =
     (case it of
        Iterator_at i \<Rightarrow>
          eos_assert (i < length (activated p)) Undefined_behaviour (Inr (snd (activated p ! i)))
      | _ \<Rightarrow> Inl Protocol_feature_iterator_exception)"

text \<open>Dereferencing has its assertions commented out: a singular or an end iterator reads outside the vector.\<close>

definition iterator_get_pointer :: "protocol_feature_manager \<Rightarrow> pfm_iterator \<Rightarrow> protocol_feature result" where
  "iterator_get_pointer p it =
     (case it of
        Iterator_at i \<Rightarrow>
          eos_assert (i < length (activated p)) Undefined_behaviour
            (case fm_find (recognized (pfm_set p)) (fst (activated p ! i)) of
               None \<Rightarrow> Inl Undefined_behaviour
             | Some f \<Rightarrow> Inr f)
      | _ \<Rightarrow> Inl Undefined_behaviour)"

definition iterator_increment :: "protocol_feature_manager \<Rightarrow> pfm_iterator \<Rightarrow> pfm_iterator result" where
  "iterator_increment p it =
     (case it of
        Iterator_at i \<Rightarrow> Inr (if length (activated p) \<le> i + 1 then End_iterator else Iterator_at (i + 1))
      | _ \<Rightarrow> Inl Protocol_feature_iterator_exception)"

definition iterator_decrement :: "protocol_feature_manager \<Rightarrow> pfm_iterator \<Rightarrow> pfm_iterator result" where
  "iterator_decrement p it =
     (case it of
        Singular_iterator \<Rightarrow> Inl Protocol_feature_iterator_exception
      | End_iterator \<Rightarrow>
          eos_assert (0 < length (activated p)) Protocol_feature_iterator_exception
            (Inr (Iterator_at (length (activated p) - 1)))
      | Iterator_at i \<Rightarrow>
          eos_assert (0 < i) Protocol_feature_iterator_exception (Inr (Iterator_at (i - 1))))"

definition pfm_cbegin :: "protocol_feature_manager \<Rightarrow> pfm_iterator" where
  "pfm_cbegin p = (if length (activated p) = 0 then End_iterator else Iterator_at 0)"

definition at_activation_ordinal :: "protocol_feature_manager \<Rightarrow> u32 \<Rightarrow> pfm_iterator" where
  "at_activation_ordinal p n =
     (if length (activated p) \<le> unat n then End_iterator else Iterator_at (unat n))"

text \<open>\<^verbatim>\<open>std::lower_bound\<close> and \<^verbatim>\<open>std::upper_bound\<close> on the activations, which are in the order of block numbers.\<close>

definition pfm_lower_bound :: "protocol_feature_manager \<Rightarrow> u32 \<Rightarrow> pfm_iterator" where
  "pfm_lower_bound p block_num =
     (let i = length (takeWhile (\<lambda>e. snd e < block_num) (activated p))
      in if i = length (activated p) then End_iterator else Iterator_at i)"

definition pfm_upper_bound :: "protocol_feature_manager \<Rightarrow> u32 \<Rightarrow> pfm_iterator" where
  "pfm_upper_bound p block_num =
     (let i = length (takeWhile (\<lambda>e. \<not> block_num < snd e) (activated p))
      in if i = length (activated p) then End_iterator else Iterator_at i)"

section \<open>The recognized features\<close>

definition codename_of :: "protocol_feature_set \<Rightarrow> digest \<Rightarrow> builtin_protocol_feature_t option" where
  "codename_of s d = (case fm_find (recognized s) d of None \<Rightarrow> None | Some f \<Rightarrow> builtin_feature f)"

lemma feature_index_inj [simp]: "feature_index a = feature_index b \<longleftrightarrow> a = b"
  by (cases a; cases b) simp_all

lemma feature_index_bound: "feature_index c \<le> 10"
  by (cases c) simp_all

lemma feature_index_not_no_previous [simp]: "feature_index c \<noteq> no_previous"
  using feature_index_bound [of c] by (simp add: no_previous_def)

text \<open>Every enumerator has its entry in the table.\<close>

lemma builtin_codenames_total: "\<exists>sp. builtin_codenames env c = Some sp"
  by (cases c) (simp_all add: builtin_codenames_def builtin_protocol_feature_codenames_def)

definition dependencies_ok :: "feature_env \<Rightarrow> protocol_feature_set \<Rightarrow> protocol_feature \<Rightarrow> bool" where
  "dependencies_ok env s f \<longleftrightarrow>
     (\<forall>d \<in> set (dependencies f). fm_find (recognized s) d \<noteq> None) \<and>
     (\<forall>c sp. builtin_feature f = Some c \<longrightarrow> builtin_codenames env c = Some sp \<longrightarrow>
        set (builtin_dependencies sp) \<subseteq> {b. \<exists>d \<in> set (dependencies f). codename_of s d = Some b})"

definition pfs_inv :: "feature_env \<Rightarrow> protocol_feature_set \<Rightarrow> bool" where
  "pfs_inv env s \<longleftrightarrow>
     (\<forall>d f. fm_find (recognized s) d = Some f \<longrightarrow>
        feature_digest f = d \<and> builtin_feature f \<noteq> None \<and> dependencies_ok env s f) \<and>
     (\<forall>c d. get_builtin_digest s c = Some d \<longleftrightarrow> codename_of s d = Some c)"

lemma note_dependencies:
  assumes "rfold (note_dependency s ex) ds acc = Inr sat" "distinct acc" "set acc \<subseteq> set ex"
  shows "distinct sat \<and> set sat \<subseteq> set ex \<and> (\<forall>d \<in> set ds. fm_find (recognized s) d \<noteq> None) \<and>
    set sat \<subseteq> set acc \<union> {b. \<exists>d \<in> set ds. codename_of s d = Some b}"
  using assms
proof (induction ds arbitrary: acc)
  case Nil
  then show ?case by simp
next
  case (Cons d ds)
  obtain acc' where a: "note_dependency s ex d acc = Inr acc'" "rfold (note_dependency s ex) ds acc' = Inr sat"
    using Cons.prems(1) unfolding rfold.simps rbind_eq_Inr by blast
  obtain f where f: "fm_find (recognized s) d = Some f"
    using a(1) by (cases "fm_find (recognized s) d") (simp_all add: note_dependency_def)
  have acc': "distinct acc'" "set acc' \<subseteq> set ex" "set acc' \<subseteq> set acc \<union> {b. codename_of s d = Some b}"
    using a(1) f Cons.prems(2,3)
    by (auto simp: note_dependency_def codename_of_def split: option.splits if_splits)
  show ?case using Cons.IH [OF a(2) acc'(1,2)] acc'(3) f by auto
qed

lemma add_feature_cases:
  assumes "add_feature env f s = Inr s'"
  obtains sp d row where "builtin_codenames env (bpf_codename f) = Some sp"
    and "get_builtin_digest s (bpf_codename f) = None"
    and "fm_find (recognized s) d = None"
    and "recognized s' = fm_set (recognized s) d row"
    and "feature_digest row = d" "builtin_feature row = Some (bpf_codename f)"
    and "\<forall>x \<in> set (dependencies row). fm_find (recognized s) x \<noteq> None"
    and "set (builtin_dependencies sp) \<subseteq> {b. \<exists>x \<in> set (dependencies row). codename_of s x = Some b}"
    and "\<forall>c. get_builtin_digest s' c = (if c = bpf_codename f then Some d else get_builtin_digest s c)"
proof -
  obtain sp where sp: "builtin_codenames env (bpf_codename f) = Some sp"
    using builtin_codenames_total by blast
  define d where "d = builtin_feature_digest env f"
  define i where "i = feature_index (bpf_codename f)"
  define row where "row = \<lparr>feature_digest = d, description_digest = bpf_description_digest f,
    dependencies = bpf_dependencies f, earliest_allowed_activation_time = earliest_time (bpf_restrictions f),
    preactivation_required = preactivation (bpf_restrictions f), enabled = is_enabled (bpf_restrictions f),
    builtin_feature = Some (bpf_codename f)\<rparr>"
  define rb where "rb = recognized_builtins s"
  define rb' where "rb' = rb @ replicate (i + 1 - length rb) None"
  obtain sat where g: "i < length rb \<longrightarrow> rb ! i = None"
    and sat: "rfold (note_dependency s (builtin_dependencies sp)) (bpf_dependencies f) [] = Inr sat"
    and len: "length (builtin_dependencies sp) \<le> length sat"
    and new: "fm_find (recognized s) d = None"
    and s': "s' = s\<lparr>recognized := fm_set (recognized s) d row, recognized_builtins := rb'[i := Some d]\<rparr>"
    using assms sp unfolding d_def i_def row_def rb'_def rb_def
    by (auto simp: add_feature_def Let_def result_simps)
  note N = note_dependencies [OF sat, simplified]
  have "card (set (builtin_dependencies sp)) \<le> card (set sat)"
    using len card_length [of "builtin_dependencies sp"] N by (simp add: distinct_card)
  then have "set sat = set (builtin_dependencies sp)"
    using N by (intro card_seteq) simp_all
  then have deps: "set (builtin_dependencies sp) \<subseteq> {b. \<exists>x \<in> set (dependencies row). codename_of s x = Some b}"
    using N by (simp add: row_def)
  have look: "\<forall>c. get_builtin_digest s' c = (if c = bpf_codename f then Some d else get_builtin_digest s c)"
  proof
    fix c
    show "get_builtin_digest s' c = (if c = bpf_codename f then Some d else get_builtin_digest s c)"
    proof (cases "c = bpf_codename f")
      case True
      then show ?thesis by (simp add: get_builtin_digest_def s' i_def [symmetric] rb'_def)
    next
      case False
      then have "feature_index c \<noteq> i" by (simp add: i_def)
      then show ?thesis using False
        by (auto simp: get_builtin_digest_def s' rb'_def rb_def [symmetric] Let_def nth_append)
    qed
  qed
  have free: "get_builtin_digest s (bpf_codename f) = None"
    using g by (simp add: get_builtin_digest_def i_def rb_def Let_def)
  have rec: "recognized s' = fm_set (recognized s) d row" by (simp add: s')
  show ?thesis
    by (rule that [OF sp free new rec _ _ _ deps look]) (use N in \<open>simp_all add: row_def\<close>)
qed

lemma add_feature_inv:
  assumes "pfs_inv env s" "add_feature env f s = Inr s'"
  shows "pfs_inv env s'"
proof -
  obtain sp d row where sp: "builtin_codenames env (bpf_codename f) = Some sp"
    and free: "get_builtin_digest s (bpf_codename f) = None"
    and new: "fm_find (recognized s) d = None"
    and r: "recognized s' = fm_set (recognized s) d row"
    and row: "feature_digest row = d" "builtin_feature row = Some (bpf_codename f)"
    and deps: "\<forall>x \<in> set (dependencies row). fm_find (recognized s) x \<noteq> None"
      "set (builtin_dependencies sp) \<subseteq> {b. \<exists>x \<in> set (dependencies row). codename_of s x = Some b}"
    and look: "\<forall>c. get_builtin_digest s' c = (if c = bpf_codename f then Some d else get_builtin_digest s c)"
    by (rule add_feature_cases [OF assms(2)]) (rule that; assumption)
  have cn: "codename_of s' x = (if x = d then Some (bpf_codename f) else codename_of s x)" for x
    by (simp add: codename_of_def r row)
  have nd: "codename_of s d = None" by (simp add: codename_of_def new)
  have keep: "dependencies_ok env s' g" if "dependencies_ok env s g" for g
  proof -
    have "\<exists>x \<in> set (dependencies g). codename_of s' x = Some b"
      if "x \<in> set (dependencies g)" "codename_of s x = Some b" for x b
      using that nd by (intro bexI [of _ x]) (auto simp: cn)
    then show ?thesis using that unfolding dependencies_ok_def by (simp add: r subset_iff) blast
  qed
  have "dependencies_ok env s row" using deps sp row by (simp add: dependencies_ok_def)
  then have rows: "feature_digest g = x \<and> builtin_feature g \<noteq> None \<and> dependencies_ok env s' g"
    if "fm_find (recognized s') x = Some g" for x g
    using that assms(1) row keep by (auto simp: r pfs_inv_def split: if_splits)
  have "get_builtin_digest s' c = Some x \<longleftrightarrow> codename_of s' x = Some c" for c x
  proof -
    have old: "get_builtin_digest s c = Some x \<longleftrightarrow> codename_of s x = Some c" for c x
      using assms(1) by (simp add: pfs_inv_def)
    have "codename_of s x \<noteq> Some (bpf_codename f)" using old [of "bpf_codename f" x] free by simp
    then show ?thesis using old nd by (auto simp: look cn)
  qed
  with rows show ?thesis unfolding pfs_inv_def by blast
qed

interpretation fs: guarded_machine "add_feature env" "pfs_inv env"
  by unfold_locales (rule add_feature_inv)

lemma pfs_inv_empty: "pfs_inv env pfs_empty"
  by (simp add: pfs_inv_def pfs_empty_def get_builtin_digest_def codename_of_def)

section \<open>The activations\<close>

text \<open>
  The array of builtin features is linked along a list of activations, the last one first: the head is the
  entry of the last activation, and resetting it gives an array that is linked along the earlier ones.
\<close>

fun linked ::
  "protocol_feature_set \<Rightarrow> builtin_protocol_feature_entry list \<Rightarrow> nat \<Rightarrow> (digest \<times> u32) list \<Rightarrow> bool" where
  "linked s bs h [] \<longleftrightarrow> h = no_previous \<and> (\<forall>b \<in> set bs. b = entry_init)"
| "linked s bs h (e # es) \<longleftrightarrow>
     map_option feature_index (codename_of s (fst e)) = Some h \<and> h < length bs \<and> snd e \<noteq> not_active \<and>
     be_block_num (bs ! h) = snd e \<and> linked s (bs[h := entry_init]) (previous (bs ! h)) es"

lemma linked_active:
  assumes "linked s bs h es" "e \<in> set es" "codename_of s (fst e) = Some c"
  shows "feature_index c < length bs \<and> be_block_num (bs ! feature_index c) = snd e \<and> snd e \<noteq> not_active"
  using assms
proof (induction es arbitrary: bs h)
  case Nil
  then show ?case by simp
next
  case (Cons a es)
  show ?case
  proof (cases "e = a")
    case True
    then show ?thesis using Cons.prems by auto
  next
    case False
    then have "feature_index c < length bs \<and> be_block_num (bs[h := entry_init] ! feature_index c) = snd e \<and>
        snd e \<noteq> not_active"
      using Cons.IH [of "bs[h := entry_init]" "previous (bs ! h)"] Cons.prems by simp
    then show ?thesis by (cases "feature_index c = h") (auto simp: entry_init_def)
  qed
qed

lemma linked_inactive:
  assumes "linked s bs h es" "\<forall>e \<in> set es. codename_of s (fst e) \<noteq> Some c" "feature_index c < length bs"
  shows "bs ! feature_index c = entry_init"
  using assms
proof (induction es arbitrary: bs h)
  case Nil
  then show ?case by simp
next
  case (Cons a es)
  have "feature_index c \<noteq> h" using Cons.prems(1,2) by auto
  then show ?case using Cons.IH [of "bs[h := entry_init]" "previous (bs ! h)"] Cons.prems by simp
qed

lemma linked_length: "linked s bs h es \<Longrightarrow> length es \<le> card {i. i < length bs \<and> bs ! i \<noteq> entry_init}"
proof (induction es arbitrary: bs h)
  case Nil
  then show ?case by simp
next
  case (Cons a es)
  have h: "h < length bs" "bs ! h \<noteq> entry_init" using Cons.prems by (auto simp: entry_init_def)
  have l: "linked s (bs[h := entry_init]) (previous (bs ! h)) es" using Cons.prems by simp
  have "{i. i < length (bs[h := entry_init]) \<and> bs[h := entry_init] ! i \<noteq> entry_init} =
      {i. i < length bs \<and> bs ! i \<noteq> entry_init} - {h}"
    using h(1) by (auto simp: nth_list_update split: if_splits)
  then have "length es \<le> card ({i. i < length bs \<and> bs ! i \<noteq> entry_init} - {h})"
    using Cons.IH [OF l] by simp
  moreover have "0 < card {i. i < length bs \<and> bs ! i \<noteq> entry_init}"
    using h by (auto simp: card_gt_0_iff)
  ultimately show ?case using h by simp
qed

lemma linked_fuel: "linked s bs h es \<Longrightarrow> length es \<le> length bs"
  using linked_length [of s bs h es] card_mono [of "{..<length bs}" "{i. i < length bs \<and> bs ! i \<noteq> entry_init}"]
  by (auto simp: subset_iff)

lemma pop_builtins_linked:
  assumes "linked s bs h es" "length es \<le> fuel"
  shows "\<exists>bs' h'. pop_builtins fuel n bs h = Inr (bs', h') \<and> length bs' = length bs \<and>
    linked s bs' h' (dropWhile (\<lambda>e. n < snd e) es)"
  using assms
proof (induction es arbitrary: fuel bs h)
  case Nil
  then show ?case by (subst pop_builtins.simps) simp
next
  case (Cons e es)
  have h: "h \<noteq> no_previous" "h < length bs" "be_block_num (bs ! h) = snd e" using Cons.prems by auto
  obtain fuel' where fuel: "fuel = Suc fuel'" using Cons.prems(2) by (cases fuel) auto
  show ?case
  proof (cases "n < snd e")
    case True
    then have le: "(snd e \<le> n) = False" by simp
    show ?thesis
      using True Cons.IH [of "bs[h := entry_init]" "previous (bs ! h)" fuel'] Cons.prems h fuel
      by (subst pop_builtins.simps) (simp add: le)
  next
    case False
    then have le: "(snd e \<le> n) = True" by simp
    show ?thesis using False Cons.prems h by (subst pop_builtins.simps) (simp add: le)
  qed
qed

lemma pop_activated_filter:
  "sorted (map snd as) \<Longrightarrow> pop_activated n as = filter (\<lambda>e. snd e \<le> n) as"
proof (induction as rule: rev_induct)
  case Nil
  then show ?case by (simp add: pop_activated_def)
next
  case (snoc e as)
  have le: "snd a \<le> snd e" if "a \<in> set as" for a using snoc.prems that by (auto simp: sorted_append)
  show ?case
  proof (cases "n < snd e")
    case True
    then show ?thesis using snoc by (simp add: pop_activated_def sorted_append)
  next
    case False
    have "filter (\<lambda>e. snd e \<le> n) as = as" using le False by (intro filter_True) force
    then show ?thesis using False by (simp add: pop_activated_def)
  qed
qed

definition pfm_inv :: "protocol_feature_set \<Rightarrow> protocol_feature_manager \<Rightarrow> bool" where
  "pfm_inv s p \<longleftrightarrow> pfm_set p = s \<and> initialized p \<and> length (builtins p) = length (recognized_builtins s) \<and>
     sorted (map snd (activated p)) \<and>
     linked s (builtins p) (head_of_builtin_activation_list p) (rev (activated p))"

text \<open>The operations of the manager, and what they do to the bare list of activations.\<close>

datatype feature_op = Activate_feature digest u32 | Popped_blocks_to u32

fun feature_op_ok :: "feature_op \<Rightarrow> bool" where
  "feature_op_ok (Activate_feature d n) = (n \<noteq> not_active)"
| "feature_op_ok (Popped_blocks_to n) = True"

fun pfm_exec :: "feature_op \<Rightarrow> protocol_feature_manager \<Rightarrow> protocol_feature_manager result" where
  "pfm_exec (Activate_feature d n) p = activate_feature d n p"
| "pfm_exec (Popped_blocks_to n) p = popped_blocks_to n p"

fun activation_exec :: "protocol_feature_set \<Rightarrow> feature_op \<Rightarrow> (digest \<times> u32) list \<Rightarrow> (digest \<times> u32) list result" where
  "activation_exec s (Activate_feature d n) as =
     (case codename_of s d of
        None \<Rightarrow> Inl Protocol_feature_exception
      | Some c \<Rightarrow>
          eos_assert (feature_index c < length (recognized_builtins s) \<and>
              (\<forall>e \<in> set as. snd e \<le> n \<and> codename_of s (fst e) \<noteq> Some c)) Protocol_feature_exception
            (Inr (as @ [(d, n)])))"
| "activation_exec s (Popped_blocks_to n) as = Inr (filter (\<lambda>e. snd e \<le> n) as)"

lemma sorted_last_le:
  fixes as :: "(digest \<times> u32) list"
  assumes "sorted (map snd as)"
  shows "(as \<noteq> [] \<longrightarrow> snd (last as) \<le> n) \<longleftrightarrow> (\<forall>e \<in> set as. snd e \<le> n)"
  using assms by (cases as rule: rev_cases) (auto simp: sorted_append intro: order_trans)

lemma activate_inactive:
  assumes "pfm_inv s p" "feature_index c < length (builtins p)"
  shows "be_block_num (builtins p ! feature_index c) = not_active \<longleftrightarrow>
    (\<forall>e \<in> set (activated p). codename_of s (fst e) \<noteq> Some c)"
  using assms linked_active [of s "builtins p" "head_of_builtin_activation_list p" "rev (activated p)" _ c]
    linked_inactive [of s "builtins p" "head_of_builtin_activation_list p" "rev (activated p)" c]
  by (fastforce simp: pfm_inv_def entry_init_def)

lemma activate_feature_spec:
  assumes "pfm_inv s p"
  shows "activate_feature d n p =
    (case activation_exec s (Activate_feature d n) (activated p) of
       Inl e \<Rightarrow> Inl e
     | Inr as \<Rightarrow>
         (let i = feature_index (the (codename_of s d))
          in Inr (p\<lparr>activated := as, builtins := (builtins p)[i :=
                \<lparr>previous = head_of_builtin_activation_list p, be_block_num = n\<rparr>],
              head_of_builtin_activation_list := i\<rparr>)))"
proof -
  have p: "pfm_set p = s" "initialized p" "length (builtins p) = length (recognized_builtins s)"
    "sorted (map snd (activated p))" using assms by (simp_all add: pfm_inv_def)
  show ?thesis
    using sorted_last_le [OF p(4), of n] activate_inactive [OF assms]
    by (auto simp: activate_feature_def codename_of_def eos_assert_def Let_def p split: option.split)
qed

lemma pfm_step:
  assumes "feature_op_ok a" "pfm_inv s p"
  shows "case pfm_exec a p of
      Inl e \<Rightarrow> activation_exec s a (activated p) = Inl e
    | Inr p' \<Rightarrow> pfm_inv s p' \<and> activation_exec s a (activated p) = Inr (activated p')"
proof (cases a)
  case (Activate_feature d n)
  show ?thesis
  proof (cases "activation_exec s a (activated p)")
    case (Inl e)
    then show ?thesis using Activate_feature activate_feature_spec [OF assms(2), of d n] by simp
  next
    case (Inr as)
    then obtain c where c: "codename_of s d = Some c" "feature_index c < length (builtins p)"
        "\<forall>e \<in> set (activated p). snd e \<le> n \<and> codename_of s (fst e) \<noteq> Some c" "as = activated p @ [(d, n)]"
      using Activate_feature assms(2) by (auto simp: result_simps pfm_inv_def split: option.splits)
    have "builtins p ! feature_index c = entry_init"
      using linked_inactive [of s "builtins p" _ "rev (activated p)" c] assms(2) c by (auto simp: pfm_inv_def)
    then have "(builtins p)[feature_index c := entry_init] = builtins p"
      by (metis list_update_id)
    moreover have "pfm_exec a p = Inr (p\<lparr>activated := as, builtins := (builtins p)[feature_index c :=
          \<lparr>previous = head_of_builtin_activation_list p, be_block_num = n\<rparr>],
        head_of_builtin_activation_list := feature_index c\<rparr>)"
      using Inr Activate_feature activate_feature_spec [OF assms(2), of d n] c(1) by (simp add: Let_def)
    ultimately show ?thesis
      using Inr c assms Activate_feature by (simp add: pfm_inv_def sorted_append)
  qed
next
  case (Popped_blocks_to n)
  have p: "initialized p" "sorted (map snd (activated p))"
    and l: "linked s (builtins p) (head_of_builtin_activation_list p) (rev (activated p))"
    using assms(2) by (simp_all add: pfm_inv_def)
  obtain bs h where b: "pop_builtins (length (builtins p)) n (builtins p) (head_of_builtin_activation_list p) =
      Inr (bs, h)" "length bs = length (builtins p)" "linked s bs h (rev (pop_activated n (activated p)))"
    using pop_builtins_linked [OF l linked_fuel [OF l], of n] by (auto simp: pop_activated_def)
  have "sorted (map snd (pop_activated n (activated p)))"
    unfolding pop_activated_filter [OF p(2)] using p(2) by (rule sorted_filter)
  then show ?thesis
    using Popped_blocks_to b p assms(2) pop_activated_filter [OF p(2), of n]
    by (simp add: popped_blocks_to_def pfm_inv_def)
qed

interpretation pm: refined_machine pfm_exec "activation_exec s" activated feature_op_ok "pfm_inv s"
proof
  fix a p p' e
  assume "feature_op_ok a" "pfm_inv s p"
  note P = pfm_step [OF this]
  show "pfm_exec a p = Inr p' \<Longrightarrow> pfm_inv s p' \<and> activation_exec s a (activated p) = Inr (activated p')"
    using P by simp
  show "pfm_exec a p = Inl e \<Longrightarrow> activation_exec s a (activated p) = Inl e"
    using P by simp
qed

lemma pfm_new_inv: "pfm_inv s ((pfm_new s)\<lparr>initialized := True\<rparr>)"
  by (simp add: pfm_inv_def pfm_new_def)

lemma replay_inv:
  assumes "rfold (\<lambda>f. activate_feature (fst f) (snd f)) db p = Inr p'" "pfm_inv s p"
    and "\<forall>e \<in> set db. snd e \<noteq> not_active"
  shows "pfm_inv s p' \<and> activated p' = activated p @ db"
  using assms
proof (induction db arbitrary: p)
  case Nil
  then show ?case by simp
next
  case (Cons e db)
  obtain q where q: "activate_feature (fst e) (snd e) p = Inr q"
    "rfold (\<lambda>f. activate_feature (fst f) (snd f)) db q = Inr p'"
    using Cons.prems(1) unfolding rfold.simps rbind_eq_Inr by blast
  have "pfm_inv s q \<and> activation_exec s (Activate_feature (fst e) (snd e)) (activated p) = Inr (activated q)"
    using pfm_step [of "Activate_feature (fst e) (snd e)" s p] Cons.prems(2,3) q(1) by simp
  then have "pfm_inv s q" "activated q = activated p @ [e]"
    by (auto simp: result_simps split: option.splits)
  then show ?case using Cons.IH [OF q(2)] Cons.prems(3) by simp
qed

lemma is_builtin_activated_iff:
  assumes "pfm_inv s p" "n \<noteq> not_active"
  shows "is_builtin_activated p c n \<longleftrightarrow> (\<exists>d b. (d, b) \<in> set (activated p) \<and> codename_of s d = Some c \<and> b \<le> n)"
proof (cases "\<exists>d b. (d, b) \<in> set (activated p) \<and> codename_of s d = Some c")
  case True
  have l: "linked s (builtins p) (head_of_builtin_activation_list p) (rev (activated p))"
    using assms(1) by (simp add: pfm_inv_def)
  have A: "feature_index c < length (builtins p) \<and> b = be_block_num (builtins p ! feature_index c)"
    if "(d, b) \<in> set (activated p)" "codename_of s d = Some c" for d b
    using linked_active [OF l, of "(d, b)" c] that by simp
  obtain d b where e: "(d, b) \<in> set (activated p)" "codename_of s d = Some c" using True by blast
  have "is_builtin_activated p c n \<longleftrightarrow> b \<le> n"
    using A [OF e] by (simp add: is_builtin_activated_def)
  then show ?thesis using A e by blast
next
  case False
  have n: "\<not> not_active \<le> n" using assms(2) by (simp add: not_active_def word_order.extremum_unique)
  have "be_block_num (builtins p ! feature_index c) = not_active" if "feature_index c < length (builtins p)"
    using activate_inactive [OF assms(1) that] False by (metis prod.collapse)
  then have "\<not> is_builtin_activated p c n"
    using n by (cases "feature_index c < length (builtins p)") (simp_all add: is_builtin_activated_def)
  then show ?thesis using False by blast
qed

section \<open>Properties\<close>

text \<open>
  C12. The manager refines the bare list of activations: it is initialized from the activations of the
  database, and after any sequence of activations and of blocks popped, with calls that throw leaving it
  unchanged, a builtin feature is reported as active at a block exactly when the list that the same sequence
  gives has an activation of that feature at or before that block. The list grows by accepted activations
  and loses exactly the activations after the block popped to. The block number that marks an inactive entry,
  the largest 32-bit number, is left out.
\<close>

theorem activations_refine_list:
  assumes "pfm_init db (pfm_new s) = Inr p" "\<forall>e \<in> set db. snd e \<noteq> not_active"
    and "list_all feature_op_ok ops" "n \<noteq> not_active"
  shows "is_builtin_activated (run_ops pfm_exec ops p) c n \<longleftrightarrow>
    (\<exists>d b. (d, b) \<in> set (run_ops (activation_exec s) ops db) \<and> codename_of s d = Some c \<and> b \<le> n)"
proof -
  have "rfold (\<lambda>f. activate_feature (fst f) (snd f)) db ((pfm_new s)\<lparr>initialized := True\<rparr>) = Inr p"
    using assms(1) by (simp add: pfm_init_def result_simps)
  then have p: "pfm_inv s p" "activated p = db"
    using replay_inv [OF _ pfm_new_inv assms(2)] by (auto simp: pfm_new_def)
  show ?thesis
    using is_builtin_activated_iff [OF pm.rm.run_ok_inv [OF assms(3) p(1)] assms(4), of c]
      pm.run_refines [OF assms(3) p(1)] p(2) by simp
qed

text \<open>A set of two features, and a feature that is activated and popped again.\<close>

definition sample_row :: "digest \<Rightarrow> builtin_protocol_feature_t \<Rightarrow> protocol_feature" where
  "sample_row d c = \<lparr>feature_digest = d, description_digest = d, dependencies = [],
     earliest_allowed_activation_time = 0, preactivation_required = False, enabled = True,
     builtin_feature = Some c\<rparr>"

definition sample_set :: protocol_feature_set where
  "sample_set = \<lparr>recognized =
     [(Digest 1 0 0 0, sample_row (Digest 1 0 0 0) Preactivate_feature),
      (Digest 2 0 0 0, sample_row (Digest 2 0 0 0) Only_link_to_existing_permission)],
     recognized_builtins = [Some (Digest 1 0 0 0), Some (Digest 2 0 0 0)]\<rparr>"

definition sample_manager :: protocol_feature_manager where
  "sample_manager = \<lparr>pfm_set = sample_set, activated = [(Digest 1 0 0 0, 5)],
     builtins = [\<lparr>previous = no_previous, be_block_num = 5\<rparr>, entry_init],
     head_of_builtin_activation_list = 0, initialized = True\<rparr>"

lemma sample_codenames:
  "codename_of sample_set (Digest 1 0 0 0) = Some Preactivate_feature"
  "codename_of sample_set (Digest 2 0 0 0) = Some Only_link_to_existing_permission"
  by (simp_all add: codename_of_def sample_set_def sample_row_def fm_find_def)

lemma sample_builtins: "length (recognized_builtins sample_set) = 2"
  by (simp add: sample_set_def)

lemma sample_init: "pfm_init [(Digest 1 0 0 0, 5)] (pfm_new sample_set) = Inr sample_manager"
  by (simp add: pfm_init_def pfm_new_def activate_feature_def sample_set_def sample_manager_def sample_row_def
      fm_find_def entry_init_def numeral_2_eq_2)

theorem activations_refine_list_witness:
  "\<not> is_builtin_activated
      (run_ops pfm_exec [Activate_feature (Digest 2 0 0 0) 9, Popped_blocks_to 7] sample_manager)
      Only_link_to_existing_permission 20 \<and>
   is_builtin_activated (run_ops pfm_exec [Activate_feature (Digest 2 0 0 0) 9] sample_manager)
      Only_link_to_existing_permission 20"
  by (subst (1 2) activations_refine_list [OF sample_init])
    (auto simp: sample_codenames sample_builtins not_active_def
       intro!: exI [of _ "Digest 2 0 0 0"] exI [of _ "9 :: u32"])

text \<open>
  C18. The set of recognized features that any sequence of additions builds is consistent: every feature is
  stored under its digest, the array by codename finds exactly the recognized feature of each codename, every
  dependency of a feature is recognized itself, and the builtin dependencies that the table demands of its
  codename are all among them.
\<close>

theorem recognized_features_consistent: "pfs_inv env (run_ops (add_feature env) fs pfs_empty)"
  by (rule fs.run_inv [OF pfs_inv_empty])

end
