(* ===== verification/Symbols.thy ===== *)
theory Symbols
  imports Names
begin

text \<open>
  Token symbols and assets (\<^verbatim>\<open>symbol.hpp\<close>, \<^verbatim>\<open>asset.hpp\<close>, \<^verbatim>\<open>asset.cpp\<close>). A symbol is a 64-bit value with the
  number of decimals in its low byte and the letters of its name in the bytes above; an asset is a signed
  64-bit amount of a symbol. A \<^verbatim>\<open>const char *\<close> is the list of its characters before the terminating zero.
  Trimming and reading an integer belong to fc and are arguments.
\<close>

section \<open>Model\<close>

type_synonym symbol = u64

definition max_precision :: u8 where
  "max_precision = 18"

definition upper_case :: "char \<Rightarrow> bool" where
  "upper_case c \<longleftrightarrow> 65 \<le> (of_char c :: nat) \<and> (of_char c :: nat) \<le> 90"

text \<open>The loop of \<^verbatim>\<open>string_to_symbol\<close>; a shift by 64 bits or more is undefined.\<close>

fun symbol_loop :: "nat \<Rightarrow> string \<Rightarrow> u64 \<Rightarrow> u64 result" where
  "symbol_loop i [] r = Inr r"
| "symbol_loop i (c # cs) r =
     eos_assert (upper_case c) Symbol_type_exception (
     eos_assert (8 * (i + 1) < 64) Undefined_behaviour (
     symbol_loop (i + 1) cs (r OR push_bit (8 * (i + 1)) (of_nat (of_char c)))))"

definition string_to_symbol :: "u8 \<Rightarrow> string \<Rightarrow> u64 result" where
  "string_to_symbol precision str = rbind (symbol_loop 0 str 0) (\<lambda>r. Inr (r OR ucast precision))"

function symbol_name_loop :: "u64 \<Rightarrow> string" where
  "symbol_name_loop v = (if v = 0 then [] else char_of (unat (v AND 0xFF)) # symbol_name_loop (drop_bit 8 v))"
  by pat_completeness auto
termination
proof (relation "measure unat")
  show "wf (measure unat)" by simp
  fix v :: u64
  assume "v \<noteq> 0"
  then have "0 < unat v" by (simp add: unat_gt_0)
  then show "(drop_bit 8 v, v) \<in> measure unat" by (simp add: drop_bit_eq_div unat_div_distrib)
qed

declare symbol_name_loop.simps [simp del]

definition symbol_name :: "symbol \<Rightarrow> string" where
  "symbol_name v = symbol_name_loop (drop_bit 8 v)"

definition symbol_decimals :: "symbol \<Rightarrow> u8" where
  "symbol_decimals v = ucast (v AND 0xFF)"

definition valid_name :: "string \<Rightarrow> bool" where
  "valid_name nm = list_all upper_case nm"

definition symbol_valid :: "symbol \<Rightarrow> bool" where
  "symbol_valid v \<longleftrightarrow> symbol_decimals v \<le> max_precision \<and> valid_name (symbol_name v)"

definition symbol_precision :: "symbol \<Rightarrow> u64 result" where
  "symbol_precision v =
     eos_assert (symbol_decimals v \<le> max_precision) Symbol_type_exception (Inr (10 ^ unat (symbol_decimals v)))"

definition symbol_new :: "u64 \<Rightarrow> symbol result" where
  "symbol_new v = eos_assert (symbol_valid v) Symbol_type_exception (Inr v)"

definition symbol_new_name :: "u8 \<Rightarrow> string \<Rightarrow> symbol result" where
  "symbol_new_name p str = rbind (string_to_symbol p str) symbol_new"

text \<open>The assignment to a \<^verbatim>\<open>uint8_t\<close> keeps the low byte of the number that was read.\<close>

definition symbol_from_string ::
  "(string \<Rightarrow> string) \<Rightarrow> (string \<Rightarrow> i64 result) \<Rightarrow> string \<Rightarrow> symbol result" where
  "symbol_from_string trim to_int64 from =
     (let s = trim from
      in eos_assert (s \<noteq> []) Symbol_type_exception (
         eos_assert (CHR '','' \<in> set s) Symbol_type_exception (
         rbind (to_int64 (takeWhile (\<lambda>c. c \<noteq> CHR '','') s)) (\<lambda>n.
         let p = (ucast n :: u8); name_part = tl (dropWhile (\<lambda>c. c \<noteq> CHR '','') s)
         in eos_assert (p \<le> max_precision) Symbol_type_exception (
            rbind (string_to_symbol p (takeWhile (\<lambda>c. c \<noteq> CHR 0x00) name_part)) symbol_new)))))"

definition to_symbol_code :: "symbol \<Rightarrow> u64" where
  "to_symbol_code v = drop_bit 8 v"

definition symbol_reflector_init :: "symbol \<Rightarrow> unit result" where
  "symbol_reflector_init v =
     eos_assert (symbol_decimals v \<le> max_precision) Symbol_type_exception (
     eos_assert (valid_name (symbol_name v)) Symbol_type_exception (Inr ()))"

subsection \<open>Assets\<close>

record asset =
  amount :: i64
  sym :: symbol

definition max_amount :: int where
  "max_amount = 2 ^ 62 - 1"

definition is_amount_within_range :: "asset \<Rightarrow> bool" where
  "is_amount_within_range a \<longleftrightarrow> - max_amount \<le> sint (amount a) \<and> sint (amount a) \<le> max_amount"

definition asset_is_valid :: "asset \<Rightarrow> bool" where
  "asset_is_valid a \<longleftrightarrow> is_amount_within_range a \<and> symbol_valid (sym a)"

definition asset_new :: "i64 \<Rightarrow> symbol \<Rightarrow> asset result" where
  "asset_new x s =
     (let a = \<lparr>amount = x, sym = s\<rparr>
      in eos_assert (is_amount_within_range a) Asset_type_exception (
         eos_assert (symbol_valid s) Asset_type_exception (Inr a)))"

text \<open>Arithmetic on \<^verbatim>\<open>int64_t\<close>: a result outside the type is undefined.\<close>

definition i64_of :: "int \<Rightarrow> i64 result" where
  "i64_of x = eos_assert (- (2 ^ 63) \<le> x \<and> x < 2 ^ 63) Undefined_behaviour (Inr (word_of_int x))"

definition asset_add :: "asset \<Rightarrow> asset \<Rightarrow> asset result" where
  "asset_add a b =
     eos_assert (sym a = sym b) Asset_type_exception (
     rbind (i64_of (sint (amount a) + sint (amount b))) (\<lambda>x. asset_new x (sym a)))"

definition asset_sub :: "asset \<Rightarrow> asset \<Rightarrow> asset result" where
  "asset_sub a b =
     eos_assert (sym a = sym b) Asset_type_exception (
     rbind (i64_of (sint (amount a) - sint (amount b))) (\<lambda>x. asset_new x (sym a)))"

definition asset_neg :: "asset \<Rightarrow> asset result" where
  "asset_neg a = rbind (i64_of (- sint (amount a))) (\<lambda>x. asset_new x (sym a))"

text \<open>The compound assignments do not check the range of their result.\<close>

definition asset_add_assign :: "asset \<Rightarrow> asset \<Rightarrow> asset result" where
  "asset_add_assign a b =
     eos_assert (sym a = sym b) Asset_type_exception (
     rbind (i64_of (sint (amount a) + sint (amount b))) (\<lambda>x. Inr (a\<lparr>amount := x\<rparr>)))"

definition asset_sub_assign :: "asset \<Rightarrow> asset \<Rightarrow> asset result" where
  "asset_sub_assign a b =
     eos_assert (sym a = sym b) Asset_type_exception (
     rbind (i64_of (sint (amount a) - sint (amount b))) (\<lambda>x. Inr (a\<lparr>amount := x\<rparr>)))"

definition asset_less :: "asset \<Rightarrow> asset \<Rightarrow> bool result" where
  "asset_less a b =
     eos_assert (sym a = sym b) Asset_type_exception
       (Inr (sint (amount a) < sint (amount b) \<or> (amount a = amount b \<and> sym a < sym b)))"

definition asset_less_eq :: "asset \<Rightarrow> asset \<Rightarrow> bool result" where
  "asset_less_eq a b = (if a = b then Inr True else asset_less a b)"

section \<open>Names of symbols\<close>

fun encode_letters :: "string \<Rightarrow> nat" where
  "encode_letters [] = 0"
| "encode_letters (c # cs) = of_char c + 256 * encode_letters cs"

lemma low_byte: "unat (v AND 0xFF) = unat v mod 256" for v :: u64
proof -
  have "v AND 0xFF = take_bit 8 v" by (simp add: take_bit_eq_mask mask_numeral)
  also have "\<dots> = v mod 256" by (simp add: take_bit_eq_mod)
  finally show ?thesis by (simp add: unat_mod_distrib)
qed

lemma unat_or_push_bit:
  fixes r w :: u64
  assumes "unat r < 2 ^ k" "unat w * 2 ^ k < 2 ^ 64" "k \<le> 64"
  shows "unat (r OR push_bit k w) = unat r + unat w * 2 ^ k"
proof -
  have "r AND push_bit k w = 0"
  proof (rule bit_eqI)
    fix n
    assume p: "possible_bit TYPE(u64) n"
    have "\<not> bit r n" if "k \<le> n"
    proof -
      have "unat r < 2 ^ n" using assms(1) power_increasing [OF that, of "2 :: nat"] by linarith
      then have "\<not> bit (unat r) n" by (simp add: bit_iff_odd)
      then show ?thesis using p by (simp add: bit_unsigned_iff)
    qed
    then show "bit (r AND push_bit k w) n = bit 0 n" by (auto simp: bit_and_iff bit_push_bit_iff)
  qed
  then have "r OR push_bit k w = r + push_bit k w"
    using word_plus_and_or [of r "push_bit k w"] by simp
  moreover have u: "unat (push_bit k w) = unat w * 2 ^ k"
    unfolding unsigned_push_bit_eq using assms(2) by (simp add: take_bit_eq_mod push_bit_eq_mult)
  moreover have "unat r + unat w * 2 ^ k < 2 ^ 64"
  proof -
    have m: "(2 :: nat) ^ 64 = 2 ^ (64 - k) * 2 ^ k" using assms(3) by (simp add: power_add [symmetric])
    have "unat w < 2 ^ (64 - k)" using assms(2) unfolding m by (rule mult_right_less_imp_less) simp
    then have "(unat w + 1) * 2 ^ k \<le> 2 ^ (64 - k) * 2 ^ k" by (intro mult_right_mono) simp_all
    then show ?thesis using assms(1) m by simp
  qed
  ultimately show ?thesis by (simp add: unat_word_ariths)
qed

lemma unat_of_char [simp]: "unat (of_nat (of_char c) :: u64) = of_char c"
proof -
  have "(of_char c :: nat) < 2 ^ 64" by (rule less_trans [OF nat_of_char_less_256]) simp
  then show ?thesis by (simp only: unat_of_nat) (simp add: mod_less)
qed

text \<open>The loop accepts exactly upper case letters that fit, and packs them from the second byte on.\<close>

lemma symbol_loop_Inr:
  assumes "unat r < 256 ^ (i + 1)" "i \<le> 7"
  shows "symbol_loop i cs r = Inr v \<longleftrightarrow>
    list_all upper_case cs \<and> i + length cs \<le> 7 \<and> unat v = unat r + 256 ^ (i + 1) * encode_letters cs"
  using assms
proof (induction cs arbitrary: i r)
  case Nil
  then show ?case by (auto simp: word_unat_eq_iff)
next
  case (Cons c cs)
  show ?case
  proof (cases "i < 7 \<and> upper_case c")
    case True
    have p: "(256 :: nat) ^ (i + 1) = 2 ^ (8 * (i + 1))" by (simp only: power_mult) simp
    have c: "(of_char c :: nat) < 256" by (rule nat_of_char_less_256)
    have le: "(256 :: nat) ^ (i + 2) \<le> 256 ^ 8" using True by (intro power_increasing) simp_all
    have "of_char c * 256 ^ (i + 1) < 256 * (256 :: nat) ^ (i + 1)"
      by (rule mult_strict_right_mono [OF c]) simp
    moreover have "256 * (256 :: nat) ^ (i + 1) \<le> 2 ^ 64" using le by simp
    ultimately have "of_char c * 2 ^ (8 * (i + 1)) < (2 :: nat) ^ 64" unfolding p by (rule less_le_trans)
    then have u: "unat (r OR push_bit (8 * (i + 1)) (of_nat (of_char c))) = unat r + of_char c * 256 ^ (i + 1)"
      using unat_or_push_bit [of r "8 * (i + 1)" "of_nat (of_char c)"] Cons.prems(1) True p by simp
    have "x + of_char c * q < 256 * q" if "x < q" for x q :: nat
    proof -
      have "(of_char c + 1) * q \<le> 256 * q" by (rule mult_right_mono) (use c in linarith, simp)
      then show ?thesis using that unfolding add_mult_distrib by linarith
    qed
    from this [OF Cons.prems(1)] have "unat (r OR push_bit (8 * (i + 1)) (of_nat (of_char c))) < 256 ^ (i + 1 + 1)"
      unfolding u by simp
    from Cons.IH [OF this] show ?thesis using True u by (simp add: algebra_simps)
  next
    case False
    then show ?thesis using Cons.prems by (auto simp: result_simps)
  qed
qed

lemma string_to_symbol_Inr:
  "string_to_symbol p str = Inr v \<longleftrightarrow>
     list_all upper_case str \<and> length str \<le> 7 \<and> unat v = unat p + 256 * encode_letters str"
proof -
  have P: "unat (r OR ucast p) = unat p + 256 * n" if r: "unat r = 256 * n" for r :: u64 and n
  proof -
    have n: "256 * n < 2 ^ 64" using unat_bound [of r] r by simp
    then have "r = push_bit 8 (of_nat n)"
      using r by (simp add: word_unat_eq_iff push_bit_eq_mult unat_word_ariths unat_of_nat take_bit_eq_mod)
    moreover have "unat (of_nat n :: u64) = n" using n by (simp add: unat_of_nat)
    moreover have "unat (ucast p :: u64) = unat p" using unat_bound [of p] by (simp add: unsigned_ucast_eq take_bit_eq_mod)
    moreover have "unat p < 256" using unat_bound [of p] by simp
    ultimately show ?thesis
      using unat_or_push_bit [of "ucast p" 8 "of_nat n"] n by (simp add: or.commute)
  qed
  note L = symbol_loop_Inr [of 0 0 str, simplified]
  have "(\<exists>r. symbol_loop 0 str 0 = Inr r \<and> v = r OR ucast p) \<longleftrightarrow>
      list_all upper_case str \<and> length str \<le> 7 \<and> unat v = unat p + 256 * encode_letters str"
  proof
    assume "\<exists>r. symbol_loop 0 str 0 = Inr r \<and> v = r OR ucast p"
    then show "list_all upper_case str \<and> length str \<le> 7 \<and> unat v = unat p + 256 * encode_letters str"
      using L P by auto
  next
    assume a: "list_all upper_case str \<and> length str \<le> 7 \<and> unat v = unat p + 256 * encode_letters str"
    have "256 * encode_letters str < 2 ^ 64" using a unat_bound [of v] by simp
    then have r: "unat (of_nat (256 * encode_letters str) :: u64) = 256 * encode_letters str"
      by (simp add: unat_of_nat del: of_nat_mult)
    then show "\<exists>r. symbol_loop 0 str 0 = Inr r \<and> v = r OR ucast p"
      using L [of "of_nat (256 * encode_letters str)"] P [OF r] a
      by (intro exI [of _ "of_nat (256 * encode_letters str)"]) (simp add: word_unat_eq_iff)
  qed
  then show ?thesis by (simp add: string_to_symbol_def result_simps) metis
qed

lemma symbol_loop_returns:
  "list_all upper_case cs \<Longrightarrow> i + length cs \<le> 7 \<Longrightarrow> \<exists>v. symbol_loop i cs r = Inr v"
  by (induction cs arbitrary: i r) simp_all

lemma symbol_name_loop_encode:
  "list_all upper_case cs \<Longrightarrow> unat v = encode_letters cs \<Longrightarrow> symbol_name_loop v = cs"
proof (induction cs arbitrary: v)
  case Nil
  then show ?case by (simp add: symbol_name_loop.simps unat_eq_zero)
next
  case (Cons c cs)
  have c: "65 \<le> (of_char c :: nat)" "(of_char c :: nat) < 256"
    using Cons.prems(1) nat_of_char_less_256 [of c] by (simp_all add: upper_case_def)
  have v: "v \<noteq> 0" using Cons.prems(2) c by auto
  have lo: "unat (v AND 0xFF) = of_char c" using Cons.prems(2) c(2) unfolding low_byte by simp
  have hi: "unat (drop_bit 8 v) = encode_letters cs"
    using Cons.prems(2) c by (simp add: drop_bit_eq_div unat_div_distrib)
  show ?case
    by (subst symbol_name_loop.simps) (use v lo Cons.IH [OF _ hi] Cons.prems(1) in simp)
qed

lemma symbol_parts:
  assumes "string_to_symbol p str = Inr v"
  shows "symbol_decimals v = p" "symbol_name v = str"
proof -
  have s: "list_all upper_case str" "unat v = unat p + 256 * encode_letters str"
    using assms by (simp_all add: string_to_symbol_Inr)
  have p: "unat p < 256" using unat_bound [of p] by simp
  have "unat (v AND 0xFF) = unat p" using s(2) p unfolding low_byte by simp
  then show "symbol_decimals v = p"
    using p by (simp add: symbol_decimals_def word_unat_eq_iff unsigned_ucast_eq take_bit_eq_mod)
  have "unat (drop_bit 8 v) = encode_letters str"
    using s(2) p by (simp add: drop_bit_eq_div unat_div_distrib)
  then show "symbol_name v = str" using s(1) by (simp add: symbol_name_def symbol_name_loop_encode)
qed

lemma symbol_loop_too_long:
  "list_all upper_case cs \<Longrightarrow> i \<le> 7 \<Longrightarrow> 7 < i + length cs \<Longrightarrow> symbol_loop i cs r = Inl Undefined_behaviour"
proof (induction cs arbitrary: i r)
  case (Cons c cs)
  then show ?case by (cases "i = 7") simp_all
qed simp

lemma long_symbol_undefined:
  "list_all upper_case str \<Longrightarrow> 7 < length str \<Longrightarrow> string_to_symbol p str = Inl Undefined_behaviour"
  by (simp add: string_to_symbol_def symbol_loop_too_long)

section \<open>Amounts\<close>

text \<open>The sum and the difference of two valid assets do not overflow; only the range check can fail.\<close>

lemma asset_add_valid:
  assumes "asset_is_valid a" "asset_is_valid b" "sym a = sym b"
  shows "asset_add a b =
    (if \<bar>sint (amount a) + sint (amount b)\<bar> \<le> max_amount
     then Inr (a\<lparr>amount := amount a + amount b\<rparr>) else Inl Asset_type_exception)"
proof -
  let ?x = "sint (amount a) + sint (amount b)"
  have r: "- (2 ^ 63) \<le> ?x" "?x < 2 ^ 63"
    using assms(1,2) by (simp_all add: asset_is_valid_def is_amount_within_range_def max_amount_def)
  have w: "word_of_int ?x = amount a + amount b" by simp
  have "sint (word_of_int ?x :: i64) = ?x"
    by (rule sint_of_int_small) (use r in simp_all)
  then show ?thesis
    using r assms by (simp add: asset_add_def i64_of_def asset_new_def is_amount_within_range_def w abs_le_iff
        asset_is_valid_def eos_assert_def)
qed

section \<open>Properties\<close>

text \<open>
  C40. Making a symbol of a positive number of decimals and a name. It succeeds only for a name of at most seven
  upper case letters, and then the number of decimals and the name read back from the symbol are the ones it
  was made from; it fails for every other name. Failing includes the longer names of upper case letters, for which
  the code shifts by 64 bits, which is undefined (\<open>long_symbol_undefined\<close>).
\<close>

theorem symbol_roundtrip:
  assumes "0 < p"
  shows "case string_to_symbol p str of
      Inr v \<Rightarrow> list_all upper_case str \<and> length str \<le> 7 \<and> symbol_decimals v = p \<and> symbol_name v = str
    | Inl e \<Rightarrow> \<not> (list_all upper_case str \<and> length str \<le> 7)"
proof (cases "string_to_symbol p str")
  case (Inl e)
  then show ?thesis
    using symbol_loop_returns [of str 0 0] by (auto simp: string_to_symbol_def)
next
  case (Inr v)
  then show ?thesis using symbol_parts [OF Inr] string_to_symbol_Inr [of p str v] by simp
qed

theorem symbol_roundtrip_witness:
  "\<exists>v. string_to_symbol 9 ''FIO'' = Inr v \<and> symbol_decimals v = 9 \<and> symbol_name v = ''FIO''"
proof -
  have "list_all upper_case ''FIO''" by (simp add: upper_case_def of_char_def)
  then show ?thesis
    using symbol_roundtrip [of 9 "''FIO''"] by (cases "string_to_symbol 9 ''FIO''") simp_all
qed

end
