(* ===== verification/Chain_Config.thy ===== *)
theory Chain_Config
  imports Chain_Prelude
begin

text \<open>
  The parameters that the producers set (\<^verbatim>\<open>chain_config.hpp\<close>, \<^verbatim>\<open>chain_config.cpp\<close>): their validation and their
  comparison. Differences of \<^verbatim>\<open>uint32_t\<close> wrap; the validation is shown to be the one on natural numbers.
\<close>

section \<open>Model\<close>

record chain_config =
  max_block_net_usage :: u64
  target_block_net_usage_pct :: u32
  max_transaction_net_usage :: u32
  base_per_transaction_net_usage :: u32
  net_usage_leeway :: u32
  context_free_discount_net_usage_num :: u32
  context_free_discount_net_usage_den :: u32
  max_block_cpu_usage :: u32
  target_block_cpu_usage_pct :: u32
  max_transaction_cpu_usage :: u32
  min_transaction_cpu_usage :: u32
  max_transaction_lifetime :: u32
  deferred_trx_expiration_window :: u32
  max_transaction_delay :: u32
  max_inline_action_size :: u32
  max_inline_action_depth :: u16
  max_authority_depth :: u16

definition min_net_usage_delta_between_base_and_max_for_trx :: u32 where
  "min_net_usage_delta_between_base_and_max_for_trx = 10 * 1024"

definition chain_config_validate :: "chain_config \<Rightarrow> unit result" where
  "chain_config_validate c =
     eos_assert (target_block_net_usage_pct c \<le> 10000) Action_validate_exception (
     eos_assert (10 \<le> target_block_net_usage_pct c) Action_validate_exception (
     eos_assert (target_block_cpu_usage_pct c \<le> 10000) Action_validate_exception (
     eos_assert (10 \<le> target_block_cpu_usage_pct c) Action_validate_exception (
     eos_assert (ucast (max_transaction_net_usage c) < max_block_net_usage c) Action_validate_exception (
     eos_assert (max_transaction_cpu_usage c < max_block_cpu_usage c) Action_validate_exception (
     eos_assert (base_per_transaction_net_usage c < max_transaction_net_usage c) Action_validate_exception (
     eos_assert (min_net_usage_delta_between_base_and_max_for_trx
         \<le> max_transaction_net_usage c - base_per_transaction_net_usage c) Action_validate_exception (
     eos_assert (0 < context_free_discount_net_usage_den c) Action_validate_exception (
     eos_assert (context_free_discount_net_usage_num c \<le> context_free_discount_net_usage_den c)
       Action_validate_exception (
     eos_assert (min_transaction_cpu_usage c \<le> max_transaction_cpu_usage c) Action_validate_exception (
     eos_assert (max_transaction_cpu_usage c < max_block_cpu_usage c - min_transaction_cpu_usage c)
       Action_validate_exception (
     eos_assert (1 \<le> max_authority_depth c) Action_validate_exception (Inr ())))))))))))))"

text \<open>The comparison of the source names the maximal CPU usage of a transaction twice.\<close>

definition chain_config_eq :: "chain_config \<Rightarrow> chain_config \<Rightarrow> bool" where
  "chain_config_eq a b \<longleftrightarrow>
     max_block_net_usage a = max_block_net_usage b \<and>
     target_block_net_usage_pct a = target_block_net_usage_pct b \<and>
     max_transaction_net_usage a = max_transaction_net_usage b \<and>
     base_per_transaction_net_usage a = base_per_transaction_net_usage b \<and>
     net_usage_leeway a = net_usage_leeway b \<and>
     context_free_discount_net_usage_num a = context_free_discount_net_usage_num b \<and>
     context_free_discount_net_usage_den a = context_free_discount_net_usage_den b \<and>
     max_block_cpu_usage a = max_block_cpu_usage b \<and>
     target_block_cpu_usage_pct a = target_block_cpu_usage_pct b \<and>
     max_transaction_cpu_usage a = max_transaction_cpu_usage b \<and>
     max_transaction_cpu_usage a = max_transaction_cpu_usage b \<and>
     max_transaction_lifetime a = max_transaction_lifetime b \<and>
     deferred_trx_expiration_window a = deferred_trx_expiration_window b \<and>
     max_transaction_delay a = max_transaction_delay b \<and>
     max_inline_action_size a = max_inline_action_size b \<and>
     max_inline_action_depth a = max_inline_action_depth b \<and>
     max_authority_depth a = max_authority_depth b"

section \<open>Validation and comparison\<close>

text \<open>No accepted configuration relies on a difference that wraps.\<close>

lemma chain_config_validate_nat:
  "chain_config_validate c = Inr () \<longleftrightarrow>
     10 \<le> unat (target_block_net_usage_pct c) \<and> unat (target_block_net_usage_pct c) \<le> 10000 \<and>
     10 \<le> unat (target_block_cpu_usage_pct c) \<and> unat (target_block_cpu_usage_pct c) \<le> 10000 \<and>
     unat (max_transaction_net_usage c) < unat (max_block_net_usage c) \<and>
     unat (base_per_transaction_net_usage c) + 10240 \<le> unat (max_transaction_net_usage c) \<and>
     0 < unat (context_free_discount_net_usage_den c) \<and>
     unat (context_free_discount_net_usage_num c) \<le> unat (context_free_discount_net_usage_den c) \<and>
     unat (min_transaction_cpu_usage c) \<le> unat (max_transaction_cpu_usage c) \<and>
     unat (max_transaction_cpu_usage c) + unat (min_transaction_cpu_usage c) < unat (max_block_cpu_usage c) \<and>
     1 \<le> unat (max_authority_depth c)"
proof -
  have u: "unat (ucast (max_transaction_net_usage c) :: u64) = unat (max_transaction_net_usage c)"
    using unat_bound [of "max_transaction_net_usage c"] by (simp add: unsigned_ucast_eq take_bit_eq_mod)
  have d: "base_per_transaction_net_usage c < max_transaction_net_usage c \<and>
      min_net_usage_delta_between_base_and_max_for_trx \<le> max_transaction_net_usage c - base_per_transaction_net_usage c
    \<longleftrightarrow> unat (base_per_transaction_net_usage c) + 10240 \<le> unat (max_transaction_net_usage c)"
    by (auto simp: word_less_nat_alt word_le_nat_alt unat_minus_small min_net_usage_delta_between_base_and_max_for_trx_def)
  have e: "max_transaction_cpu_usage c < max_block_cpu_usage c \<and>
      min_transaction_cpu_usage c \<le> max_transaction_cpu_usage c \<and>
      max_transaction_cpu_usage c < max_block_cpu_usage c - min_transaction_cpu_usage c \<longleftrightarrow>
      unat (min_transaction_cpu_usage c) \<le> unat (max_transaction_cpu_usage c) \<and>
      unat (max_transaction_cpu_usage c) + unat (min_transaction_cpu_usage c) < unat (max_block_cpu_usage c)"
    by (auto simp: word_less_nat_alt word_le_nat_alt unat_minus_small)
  show ?thesis
    unfolding chain_config_validate_def eos_assert_Inr
    using u d e by (auto simp: word_less_nat_alt word_le_nat_alt)
qed

text \<open>Two configurations that differ in the minimal CPU usage of a transaction only are equal for the source.\<close>

lemma chain_config_eq_misses_min_cpu: "chain_config_eq c (c\<lparr>min_transaction_cpu_usage := x\<rparr>)"
  by (simp add: chain_config_eq_def)

lemma chain_config_eq_iff:
  "chain_config_eq a b \<longleftrightarrow> a = b\<lparr>min_transaction_cpu_usage := min_transaction_cpu_usage a\<rparr>" for a b :: chain_config
  by (cases a; cases b) (auto simp: chain_config_eq_def)

end
