(* ===== verification/Fio_Addresses.thy ===== *)
theory Fio_Addresses
  imports Chain_Prelude
begin

text \<open>
  The formats of FIO names (\<^verbatim>\<open>fioio/fio_common_validator.hpp\<close>) and the contract of each action
  (\<^verbatim>\<open>fioio/actionmapping.hpp\<close>). \<^verbatim>\<open>std::tolower\<close>, \<^verbatim>\<open>std::toupper\<close> and \<^verbatim>\<open>std::isdigit\<close> are those of the C locale.
  The first or the last character of an empty \<^verbatim>\<open>std::string\<close> is undefined.
\<close>

section \<open>Model\<close>

definition maxFioLen :: nat where "maxFioLen = 64"
definition maxFioDomainLen :: nat where "maxFioDomainLen = 62"

definition locationMap :: "nat list" where
  "locationMap = [10, 20, 30, 40, 50, 60, 70, 80]"

record FioAddress =
  fioaddress :: string
  fioname :: string
  fiodomain :: string
  domainOnly :: bool

definition to_lower :: "char \<Rightarrow> char" where
  "to_lower c = (let n = (of_char c :: nat) in if 65 \<le> n \<and> n \<le> 90 then char_of (n + 32) else c)"

definition to_upper :: "char \<Rightarrow> char" where
  "to_upper c = (let n = (of_char c :: nat) in if 97 \<le> n \<and> n \<le> 122 then char_of (n - 32) else c)"

definition makeLowerCase :: "string \<Rightarrow> string" where
  "makeLowerCase entry = map to_lower entry"

definition getFioAddressStruct :: "string \<Rightarrow> FioAddress" where
  "getFioAddressStruct p =
     (let pos = length (takeWhile (\<lambda>c. c \<noteq> CHR ''@'') p); npos = (pos = length p);
          domain_only = (npos \<or> pos = 0); address = makeLowerCase p
      in \<lparr>fioaddress = address,
          fioname = (if domain_only then [] else take pos address),
          fiodomain = (if domain_only then address else drop (pos + 1) address),
          domainOnly = domain_only\<rparr>)"

definition name_chars_allowed :: string where
  "name_chars_allowed = ''abcdefghijklmnopqrstuvwxyz0123456789-''"

definition validateCharName :: "string \<Rightarrow> bool result" where
  "validateCharName nm =
     (if \<not> set nm \<subseteq> set name_chars_allowed then Inr False
      else eos_assert (nm \<noteq> []) Undefined_behaviour
        (Inr (\<not> (hd nm = CHR ''-'' \<or> last nm = CHR ''-''))))"

definition isAccountValid :: "string \<Rightarrow> bool result" where
  "isAccountValid nm =
     (if 12 < length nm then Inr False
      else if \<not> set nm \<subseteq> set ''abcdefghijklmnopqrstuvwxyz12345.'' then Inr False
      else eos_assert (nm \<noteq> []) Undefined_behaviour (Inr (last nm \<noteq> CHR ''.'')))"

definition validateFioNameFormat :: "FioAddress \<Rightarrow> bool result" where
  "validateFioNameFormat fa =
     (if domainOnly fa
      then if length (fiodomain fa) < 1 \<or> maxFioDomainLen < length (fiodomain fa) then Inr False
           else validateCharName (fiodomain fa)
      else if length (fioaddress fa) < 3 \<or> maxFioLen < length (fioaddress fa) then Inr False
      else rbind (validateCharName (fioname fa)) (\<lambda>ok.
           if \<not> ok then Inr False else validateCharName (fiodomain fa)))"

definition validateChainNameFormat :: "string \<Rightarrow> bool" where
  "validateChainNameFormat chain \<longleftrightarrow>
     1 \<le> length chain \<and> length chain \<le> 10 \<and>
     set chain \<subseteq> set ''$ABCDEFGHIJKLMNOPQRSTUVWXYZabcdefghijklmnopqrstuvwxyz0123456789''"

definition validateTokenNameFormat :: "string \<Rightarrow> bool" where
  "validateTokenNameFormat token = (if token = ''*'' then True else validateChainNameFormat token)"

definition validateTPIDFormat :: "string \<Rightarrow> bool result" where
  "validateTPIDFormat tpid =
     (if 0 < length tpid then validateFioNameFormat (getFioAddressStruct tpid) else Inr True)"

definition validatePubAddressFormat :: "string \<Rightarrow> bool" where
  "validatePubAddressFormat address =
     (if address = [] \<or> 128 < length address then False else CHR '' '' \<notin> set address)"

definition validateURLFormat :: "string \<Rightarrow> bool" where
  "validateURLFormat url = (if length url \<le> 10 \<and> 50 \<le> length url then False else True)"

definition validateLocationFormat :: "u16 \<Rightarrow> bool" where
  "validateLocationFormat location = (unat location \<in> set locationMap)"

definition chainToUpper :: "string \<Rightarrow> string" where
  "chainToUpper chain = map to_upper chain"

definition isStringInt :: "string \<Rightarrow> bool" where
  "isStringInt s \<longleftrightarrow> s \<noteq> [] \<and> list_all (\<lambda>c. 48 \<le> (of_char c :: nat) \<and> (of_char c :: nat) \<le> 57) s"

text \<open>The conditions of \<^verbatim>\<open>map_to_contract\<close>, tested in this order.\<close>

definition contract_actions :: "(string list \<times> string) list" where
  "contract_actions =
     [([''approve'', ''cancel'', ''invalidate'', ''exec'', ''propose'', ''unapprove''], ''eosio.msig''),
      ([''regaddress'', ''regdomain'', ''addaddress'', ''remaddress'', ''remalladdr'',
        ''renewdomain'', ''renewaddress'', ''setdomainpub'', ''bind2eosio'', ''burnexpired'',
        ''decrcounter'', ''burnaddress'', ''xferdomain'', ''xferaddress''], ''fio.address''),
      ([''setfeemult'', ''bundlevote'', ''setfeevote'', ''bytemandfee'', ''updatefees'',
        ''mandatoryfee'', ''createfee''], ''fio.fee''),
      ([''tpidclaim'', ''bpclaim'', ''bppoolupdate'', ''fdtnrwdupdat'', ''bprewdupdate'',
        ''startclock'', ''updateclock''], ''fio.treasury''),
      ([''trnsfiopubky'', ''create'', ''issue'', ''transfer'', ''mintfio'', ''trnsloctoks''], ''fio.token''),
      ([''recordobt'', ''rejectfndreq'', ''cancelfndreq'', ''newfundsreq''], ''fio.reqobt''),
      ([''updatebounty'', ''rewardspaid'', ''updatetpid''], ''fio.tpid''),
      ([''execute''], ''eosio.wrap''),
      ([''newaccount'', ''onblock'', ''addlocked'', ''regproducer'', ''unregprod'', ''regproxy'',
        ''voteproducer'', ''unregproxy'', ''voteproxy'', ''setabi'', ''setcode'', ''updateauth'',
        ''setprods'', ''setpriv'', ''init'', ''nonce'', ''burnaction'', ''canceldelay'',
        ''crautoproxy'', ''deleteauth'', ''inhibitunlck'', ''linkauth'', ''onerror'',
        ''unlinkauth'', ''rmvproducer'', ''setautoproxy'', ''setparams'', ''unlocktokens'',
        ''updtrevision'', ''updlocked'', ''updatepower'', ''updlbpclaim'', ''resetclaim'',
        ''incram'', ''addaction'', ''remaction'', ''addgenlocked''], ''eosio''),
      ([''nonce''], ''eosio.null'')]"

definition map_to_contract :: "string \<Rightarrow> string" where
  "map_to_contract action =
     (case find (\<lambda>g. action \<in> set (fst g)) contract_actions of None \<Rightarrow> ''nomap'' | Some g \<Rightarrow> snd g)"

section \<open>Names\<close>

text \<open>What a part of a FIO name may be.\<close>

definition name_part :: "string \<Rightarrow> bool" where
  "name_part nm \<longleftrightarrow> nm \<noteq> [] \<and> set nm \<subseteq> set name_chars_allowed \<and> hd nm \<noteq> CHR ''-'' \<and> last nm \<noteq> CHR ''-''"

lemma validateCharName_True: "validateCharName nm = Inr True \<longleftrightarrow> name_part nm"
  by (auto simp: validateCharName_def name_part_def eos_assert_def)

lemma to_lower_at [simp]: "to_lower c = CHR ''@'' \<longleftrightarrow> c = CHR ''@''"
proof (cases "65 \<le> (of_char c :: nat) \<and> (of_char c :: nat) \<le> 90")
  case True
  have "char_of (of_char c + 32 :: nat) \<noteq> CHR ''@''"
  proof
    assume "char_of (of_char c + 32 :: nat) = CHR ''@''"
    then have "(of_char (char_of (of_char c + 32 :: nat)) :: nat) = of_char (CHR ''@'')" by simp
    then show False using True by simp
  qed
  moreover have "c \<noteq> CHR ''@''" using True by auto
  ultimately show ?thesis using True by (simp add: to_lower_def)
next
  case False
  then show ?thesis by (auto simp: to_lower_def Let_def)
qed

lemma makeLowerCase_at: "CHR ''@'' \<in> set (makeLowerCase p) \<longleftrightarrow> CHR ''@'' \<in> set p"
  unfolding makeLowerCase_def by (auto simp: image_iff eq_commute [of "CHR ''@''"])

lemma struct_domain:
  assumes "CHR ''@'' \<notin> set p"
  shows "getFioAddressStruct p =
    \<lparr>fioaddress = makeLowerCase p, fioname = [], fiodomain = makeLowerCase p, domainOnly = True\<rparr>"
proof -
  have "takeWhile (\<lambda>c. c \<noteq> CHR ''@'') p = p" using assms by (auto simp: takeWhile_eq_all_conv)
  then show ?thesis by (simp only: getFioAddressStruct_def Let_def) simp
qed

lemma take_before_at:
  assumes "CHR ''@'' \<notin> set n"
  shows "takeWhile (\<lambda>c. c \<noteq> CHR ''@'') (n @ CHR ''@'' # d) = n"
  using assms by (auto simp: takeWhile_append)

lemma struct_at:
  assumes "CHR ''@'' \<notin> set n"
  shows "getFioAddressStruct (n @ CHR ''@'' # d) =
    (if n = [] then \<lparr>fioaddress = makeLowerCase (CHR ''@'' # d), fioname = [],
       fiodomain = makeLowerCase (CHR ''@'' # d), domainOnly = True\<rparr>
     else \<lparr>fioaddress = makeLowerCase (n @ CHR ''@'' # d), fioname = makeLowerCase n,
       fiodomain = makeLowerCase d, domainOnly = False\<rparr>)"
  unfolding getFioAddressStruct_def take_before_at [OF assms] Let_def by (simp add: makeLowerCase_def)

lemma at_not_allowed: "CHR ''@'' \<in> set nm \<Longrightarrow> \<not> name_part nm"
  by (auto simp: name_part_def name_chars_allowed_def)

text \<open>A name with an empty domain reaches the first character of the empty string.\<close>

lemma empty_domain_undefined: "validateFioNameFormat (getFioAddressStruct ''fio@'') = Inl Undefined_behaviour"
  by (simp add: struct_at [of "''fio''" "[]", simplified] validateFioNameFormat_def validateCharName_def
      name_chars_allowed_def maxFioLen_def makeLowerCase_def to_lower_def)

lemma url_format_trivial: "validateURLFormat url"
  by (simp add: validateURLFormat_def)

lemma nonce_in_eosio: "map_to_contract ''nonce'' = ''eosio''"
  by (simp add: map_to_contract_def contract_actions_def)

section \<open>Properties\<close>

text \<open>
  C35. A FIO name is accepted exactly when, in lower case, it is a domain of at most 62 characters, or a name and
  a domain around the first at sign with 3 to 64 characters together, where a name or a domain is a non-empty
  string of letters, digits and dashes that neither begins nor ends with a dash.
\<close>

theorem fio_name_accepted:
  "validateFioNameFormat (getFioAddressStruct p) = Inr True \<longleftrightarrow>
     name_part (makeLowerCase p) \<and> length p \<le> 62 \<or>
     (\<exists>n d. p = n @ CHR ''@'' # d \<and> name_part (makeLowerCase n) \<and> name_part (makeLowerCase d) \<and>
        3 \<le> length p \<and> length p \<le> 64)"
proof (cases "CHR ''@'' \<in> set p")
  case False
  have "length (makeLowerCase p) = length p" by (simp add: makeLowerCase_def)
  then show ?thesis
    using False validateCharName_True [of "makeLowerCase p"]
    by (auto simp: struct_domain validateFioNameFormat_def maxFioDomainLen_def name_part_def)
next
  case True
  then obtain n d where p: "p = n @ CHR ''@'' # d" and n: "CHR ''@'' \<notin> set n" by (auto dest: split_list_first)
  have no: "\<not> name_part (makeLowerCase p)" using True by (intro at_not_allowed) (simp add: makeLowerCase_at)
  have uniq: "n' = n \<and> d' = d" if "p = n' @ CHR ''@'' # d'" "name_part (makeLowerCase n')" for n' d'
  proof -
    have "CHR ''@'' \<notin> set n'" using that(2) at_not_allowed [of "makeLowerCase n'"] by (auto simp: makeLowerCase_at)
    then have "n' = n" using take_before_at [of n' d'] take_before_at [OF n, of d] that(1) p by simp
    then show ?thesis using that(1) p by simp
  qed
  have len: "length (makeLowerCase p) = length p" by (simp add: makeLowerCase_def)
  have acc: "validateFioNameFormat (getFioAddressStruct p) = Inr True \<longleftrightarrow>
      name_part (makeLowerCase n) \<and> name_part (makeLowerCase d) \<and> 3 \<le> length p \<and> length p \<le> 64"
  proof (cases "n = []")
    case True
    have "\<not> name_part (makeLowerCase (CHR ''@'' # d))" using no p True by simp
    moreover have "\<not> name_part (makeLowerCase n)" using True by (simp add: name_part_def makeLowerCase_def)
    ultimately show ?thesis using True validateCharName_True [of "makeLowerCase (CHR ''@'' # d)"]
      by (simp add: p struct_at [of "[]", simplified] validateFioNameFormat_def)
  next
    case False
    then show ?thesis
      using len n by (auto simp: p struct_at validateFioNameFormat_def maxFioLen_def result_simps
          validateCharName_True split: if_splits)
  qed
  show ?thesis unfolding acc using no p uniq by blast
qed

end
