(* ===== verification/Spec2Isabelle.thy ===== *)
theory Spec2Isabelle
  imports Fork_File Contract_Tables Intrinsics Protocol_Features Symbols Chain_Config Fio_Addresses
begin

text \<open>
  A verification development for the chain library of the FIO node (\<^verbatim>\<open>src/libraries/chain\<close>; headers in
  \<^verbatim>\<open>include/eosio/chain\<close>).

  \<^bold>\<open>The program.\<close> A node keeps a chain of blocks. A block header extends a header state, which decides who may
  produce the next block, which blocks are irreversible and which schedule of producers is active
  (\<^verbatim>\<open>block_header_state.cpp\<close>). Blocks above the last irreversible one are kept in the fork database, which
  chooses the head among competing branches (\<^verbatim>\<open>fork_database.cpp\<close>). The actions of a transaction are first
  authorized: the declared permissions are checked against the actions, and the authorities behind them against
  the keys that signed (\<^verbatim>\<open>authorization_manager.cpp\<close>, \<^verbatim>\<open>authority_checker.hpp\<close>). The actions of the system
  contract run in native handlers that change accounts, permissions, links, code and the table of actions
  (\<^verbatim>\<open>eosio_contract.cpp\<close>), and what they occupy is billed by the resource limits manager
  (\<^verbatim>\<open>resource_limits.cpp\<close>). Protocol features and the whitelist of intrinsics decide which rules are in force
  (\<^verbatim>\<open>protocol_feature_manager.cpp\<close>, \<^verbatim>\<open>whitelisted_intrinsics.cpp\<close>).

  \<^bold>\<open>Conventions.\<close> A struct is a \<^verbatim>\<open>record\<close>, an enum a \<^verbatim>\<open>datatype\<close>, an integer a word of its C++ width. A function
  that may throw has the result type of \<^verbatim>\<open>Chain_Prelude\<close>: an exception or a value. Two values of the exception
  type are no exceptions of the source: \<^const>\<open>Undefined_behaviour\<close> marks inputs on which the C++ code is undefined,
  and \<^const>\<open>Does_not_return\<close> a loop that is out of fuel. A function that changes state takes and returns it; in
  a sequence of calls, \<^const>\<open>run_ops\<close>, a call that throws leaves the state as it was, as the undo sessions of the
  node do. Tables of chainbase are sorted association lists by key (\<^verbatim>\<open>Flat_Map\<close>). Code that is not in the
  repository (fc, chainbase, cryptography, packing, the validation of WASM code) is an argument of the definitions
  that use it; what a theorem needs of it is a hypothesis of that theorem.

  \<^bold>\<open>Theories.\<close>
  \<^item> \<^verbatim>\<open>Chain_Prelude\<close>, \<^verbatim>\<open>Flat_Map\<close>: words, results, loops that throw, digests, maps, and the interfaces:
    \<^verbatim>\<open>map_adt\<close> (a table), \<^verbatim>\<open>conditional_machine\<close> and \<^verbatim>\<open>guarded_machine\<close> (operations that keep an invariant) and
    \<^verbatim>\<open>refined_machine\<close> (operations that implement a specification). Each is interpreted on the model's definitions.
  \<^item> \<^verbatim>\<open>Names\<close> (\<^verbatim>\<open>name.hpp\<close>, \<^verbatim>\<open>name.cpp\<close>): names as 64-bit values; parsing inverts printing.
  \<^item> \<^verbatim>\<open>Symbols\<close> (\<^verbatim>\<open>symbol.hpp\<close>, \<^verbatim>\<open>asset.hpp\<close>): token symbols and amounts; which names have a symbol, and that
    sums of valid assets do not overflow.
  \<^item> \<^verbatim>\<open>Fio_Addresses\<close> (\<^verbatim>\<open>fioio/fio_common_validator.hpp\<close>, \<^verbatim>\<open>fioio/actionmapping.hpp\<close>): the grammar of FIO names
    that the validators accept, and the contract of each action.
  \<^item> \<^verbatim>\<open>Chain_Config\<close> (\<^verbatim>\<open>chain_config.cpp\<close>): the validation of the chain parameters, free of wrap-around.
  \<^item> \<^verbatim>\<open>Block_Time\<close> (\<^verbatim>\<open>block_timestamp.hpp\<close>): slots and time points.
  \<^item> \<^verbatim>\<open>Merkle\<close> (\<^verbatim>\<open>merkle.cpp\<close>, \<^verbatim>\<open>incremental_merkle.hpp\<close>): the incremental tree has the root of the batch computation.
    The interface \<^verbatim>\<open>root_accumulator\<close> is what header states use of it.
  \<^item> \<^verbatim>\<open>Block_Header\<close> (\<^verbatim>\<open>block_header.cpp\<close>, \<^verbatim>\<open>producer_schedule.hpp\<close>, \<^verbatim>\<open>protocol_feature_activation.cpp\<close>): headers,
    identifiers, extensions.
  \<^item> \<^verbatim>\<open>Header_State\<close> (\<^verbatim>\<open>block_header_state.cpp\<close>): \<^const>\<open>next_pending\<close>, \<^const>\<open>make_block_header\<close>,
    \<^const>\<open>finish_next_unsigned\<close>, \<^const>\<open>next_header\<close> follow the methods of the same names. \<^verbatim>\<open>Header_Chain\<close>: the
    inductive \<^const>\<open>header_chain\<close> of states from genesis on, with the invariant, the two-thirds rule of
    irreversibility, authenticity of accepted headers, changes of schedule and liveness.
  \<^item> \<^verbatim>\<open>Fork_Database\<close> (\<^verbatim>\<open>fork_database.cpp\<close>, \<^verbatim>\<open>block_state.cpp\<close>): the operations. \<^verbatim>\<open>Fork_Tree\<close>: descendants and
    walks. \<^verbatim>\<open>Fork_Choice\<close>: the invariant, what of it an interrupted call leaves, and the best head. \<^verbatim>\<open>Fork_File\<close>: \<^verbatim>\<open>close\<close>
    and \<^verbatim>\<open>open\<close>, the reachable databases and the properties. \<^const>\<open>advance_root_run\<close> and \<^const>\<open>fork_open_run\<close>
    return the state that the call leaves together with its exception.
  \<^item> \<^verbatim>\<open>Resource_Limits\<close> (\<^verbatim>\<open>resource_limits.cpp\<close>, \<^verbatim>\<open>resource_limits_private.hpp\<close>): the manager. \<^verbatim>\<open>Resource_Usage\<close>:
    totals, shares of CPU and network, how the virtual limits follow the usage, exactness of the moving average
    and of memory accounting.
  \<^item> \<^verbatim>\<open>Authority\<close>, \<^verbatim>\<open>Authority_Checker\<close> (\<^verbatim>\<open>authority.hpp\<close>, \<^verbatim>\<open>authority_checker.hpp\<close>): validity of authorities;
    the recursive evaluation is sound for the inductive \<^const>\<open>perm_sat\<close> and always returns.
  \<^item> \<^verbatim>\<open>Authorization_Manager\<close> (\<^verbatim>\<open>authorization_manager.cpp\<close>): the tables and checks. \<^verbatim>\<open>Authorization\<close>: permissions
    form trees, and an accepted transaction has every declared authorization satisfied and strong enough for
    \<^const>\<open>required_permission\<close>, the native actions included.
  \<^item> \<^verbatim>\<open>Eosio_Contract\<close> (\<^verbatim>\<open>eosio_contract.cpp\<close>, parts of \<^verbatim>\<open>controller.cpp\<close> and \<^verbatim>\<open>apply_context.cpp\<close>): the ten native
    handlers, their dispatch \<^const>\<open>apply_native\<close> and the genesis accounts. \<^verbatim>\<open>Contract_Invariant\<close>: consistency
    of the tables across components. \<^verbatim>\<open>Contract_Ledger\<close>: what is billed is what the rows occupy, and stored
    authorities are valid.
  \<^item> \<^verbatim>\<open>Contract_Tables\<close> (\<^verbatim>\<open>apply_context.cpp\<close>, \<^verbatim>\<open>contract_table_objects.hpp\<close>): the primary tables of contracts with
    the cache of iterators, \<^const>\<open>db_store_i64\<close> and its companions; counts, iterators and bills stay exact.
  \<^item> \<^verbatim>\<open>Intrinsics\<close> (\<^verbatim>\<open>whitelisted_intrinsics.cpp\<close>): the hashed multimap refines a set of names.
  \<^item> \<^verbatim>\<open>Protocol_Features\<close> (\<^verbatim>\<open>protocol_feature_manager.cpp\<close>): recognized features are consistent, and the linked
    array of the manager refines the list of activations.

  \<^bold>\<open>Loops and fuel.\<close> Most loops are structural recursions or have a termination proof. The walks of the fork
  database take the size of its index as fuel; on the tree invariant no path is longer. The walk to the parents of a
  permission takes the next free row identifier, and a parent is always an earlier row. Popping activations takes
  the number of builtin features, since an entry is linked once. The theorems on these operations state that they
  return. The recursion of the authority checker is bounded by the depth limit of the source itself.

  \<^bold>\<open>Not modelled.\<close> The coordination of blocks and transactions in \<^verbatim>\<open>controller.cpp\<close> and \<^verbatim>\<open>transaction_context.cpp\<close>
  (threads, clocks, undo sessions), the execution, validation and injection of WASM, ABI serialization, the block
  log and snapshots, and the printing of assets: they rest on fc, chainbase and WABT, which are empty submodules, or
  are input and output. Base58 and the shortening of keys to account names are left out, and so are the secondary
  indices of contract tables, which repeat the primary operations for five types of keys; a table that has
  secondary rows counts them too, so the theorems on contract tables are about contracts that use the primary
  index only. The plugins and programs
  are servers and command line tools around these libraries; \<^verbatim>\<open>libraries/wasm-jit\<close> and \<^verbatim>\<open>libraries/builtins\<close>
  are third-party code. The manager that a failed \<^verbatim>\<open>protocol_feature_manager::init\<close> leaves behind is not modelled
  either: the model gives the exception only.

  \<^bold>\<open>Limits of the statements.\<close> Sequences of native actions run in one environment, so block time, feature flags and
  blacklists do not change in them; the lemmas on single handlers hold in any. The \<^verbatim>\<open>int\<close> iterators of contract
  tables are unbounded integers and do not wrap around at \<open>2\<^sup>3\<^sup>1\<close>. The set of activated features is kept in
  the order of \<^const>\<open>sha256_less\<close>, which stands for the order of digests of fc. A fork database that is not reached through
  an interrupted \<^verbatim>\<open>advance_root\<close> is a tree; after one, blocks may be without their parent.
\<close>

end
